(* ===== verification/C_Prelude.thy ===== *)
theory C_Prelude
  imports Main "HOL-Library.Word" "HOL-Library.Monad_Syntax"
begin

unbundle bit_operations_syntax

text \<open>
  Shared vocabulary of the development.

  The sources are C programs. Every operation is translated to a HOL function that returns an
  \<open>option\<close>: \<open>None\<close> is \<^emph>\<open>the C program has no defined continuation\<close> (an access outside an
  object, a read through NULL or through a freed pointer, a failed \<open>assert\<close>, or a loop that
  never ends), and \<open>Some\<close> is the result together with the new state. So a theorem that some
  operation returns \<open>Some\<close> is a memory-safety and termination statement.

  The theory holds the machine types, the model of \<open>malloc\<close> as an explicit list of outcomes,
  bounds-checked array access and \<open>memcpy\<close>, the part of the C string library that the sources
  use, and the view of a ring of slots as a list that the ring buffer and the task queue of the
  thread pool share.
\<close>

named_theorems c_simps \<open>unfolding rules of the C library model\<close>

section \<open>Machine types\<close>

type_synonym u8 = "8 word"
type_synonym u15 = "15 word"
type_synonym u16 = "16 word"
type_synonym i16 = "16 word"
type_synonym u32 = "32 word"

section \<open>Allocation\<close>

text \<open>
  \<open>malloc\<close> and \<open>calloc\<close> may fail. The outcomes of the coming calls are a list of booleans; once
  the list is used up every further call succeeds, so \<open>[]\<close> is the machine that never runs out of
  memory.
\<close>

type_synonym mem = "bool list"

fun malloc_ok :: "mem \<Rightarrow> bool \<times> mem" where
  "malloc_ok [] = (True, [])"
| "malloc_ok (b # bs) = (b, bs)"

text \<open>A machine on which every coming allocation succeeds.\<close>

definition all_ok :: "mem \<Rightarrow> bool" where
  "all_ok m \<longleftrightarrow> set m \<subseteq> {True}"

lemma all_ok_Nil [simp]: "all_ok []"
  by (simp add: all_ok_def)

lemma malloc_all_ok: "all_ok m \<Longrightarrow> \<exists>m'. malloc_ok m = (True, m') \<and> all_ok m'"
  by (cases m) (auto simp: all_ok_def)

section \<open>Arrays\<close>

definition nth_opt :: "'a list \<Rightarrow> nat \<Rightarrow> 'a option" where
  "nth_opt xs i = (if i < length xs then Some (xs ! i) else None)"

definition upd_opt :: "'a list \<Rightarrow> nat \<Rightarrow> 'a \<Rightarrow> 'a list option" where
  "upd_opt xs i v = (if i < length xs then Some (xs[i := v]) else None)"

text \<open>
  \<open>memcpy (dst + di) (src + si) n\<close> on element arrays: the whole source range is read and the whole
  destination range is written, so both have to lie inside their arrays. A negative count, which C
  would convert to a huge \<open>size_t\<close>, is out of range.
\<close>

definition memcpy :: "'a list \<Rightarrow> int \<Rightarrow> 'a list \<Rightarrow> int \<Rightarrow> int \<Rightarrow> 'a list option" where
  "memcpy dst di src si n =
     (if 0 \<le> n \<and> 0 \<le> di \<and> 0 \<le> si \<and> di + n \<le> int (length dst) \<and> si + n \<le> int (length src)
      then Some (take (nat di) dst @ take (nat n) (drop (nat si) src) @ drop (nat (di + n)) dst)
      else None)"

lemma nth_opt_Some [simp]: "i < length xs \<Longrightarrow> nth_opt xs i = Some (xs ! i)"
  by (simp add: nth_opt_def)

lemma nth_opt_eq_Some: "nth_opt xs i = Some v \<longleftrightarrow> i < length xs \<and> xs ! i = v"
  by (auto simp: nth_opt_def)

lemma upd_opt_Some [simp]: "i < length xs \<Longrightarrow> upd_opt xs i v = Some (xs[i := v])"
  by (simp add: upd_opt_def)

lemma upd_opt_eq_Some: "upd_opt xs i v = Some ys \<longleftrightarrow> i < length xs \<and> ys = xs[i := v]"
  by (auto simp: upd_opt_def)

lemma memcpy_nat:
  assumes "d + n \<le> length dst" and "s + n \<le> length src"
  shows "memcpy dst (int d) src (int s) (int n)
    = Some (take d dst @ take n (drop s src) @ drop (d + n) dst)"
  using assms by (simp add: memcpy_def nat_int_add)

lemma memcpy_length: "memcpy dst d src s n = Some r \<Longrightarrow> length r = length dst"
  by (auto simp: memcpy_def split: if_splits)

text \<open>Reading the array after a copy: inside the written range the source, outside it the old array.\<close>

lemma memcpy_nat_nth:
  assumes "d + n \<le> length dst" and "s + n \<le> length src" and "j < length dst"
  shows "(take d dst @ take n (drop s src) @ drop (d + n) dst) ! j
    = (if d \<le> j \<and> j < d + n then src ! (s + (j - d)) else dst ! j)"
proof -
  have "length (take n (drop s src)) = n"
    using assms(2) by simp
  then show ?thesis
    using assms by (auto simp: nth_append)
qed

text \<open>How replacing one element changes the number of elements with a property.\<close>

lemma length_filter_list_update:
  assumes "i < length xs"
  shows "length (filter P (xs[i := x])) + (if P (xs ! i) then 1 else 0)
    = length (filter P xs) + (if P x then 1 else 0)"
proof -
  have "filter P (xs[i := x]) = filter P (take i xs) @ (if P x then [x] else []) @ filter P (drop (Suc i) xs)"
    using assms by (simp add: upd_conv_take_nth_drop)
  moreover have "filter P xs = filter P (take i xs) @ (if P (xs ! i) then [xs ! i] else []) @ filter P (drop (Suc i) xs)"
    by (subst id_take_nth_drop [OF assms]) (simp del: append_take_drop_id)
  ultimately show ?thesis by simp
qed

section \<open>Characters and strings\<close>

text \<open>The string in a buffer: its characters before the first NUL.\<close>

definition cstring :: "string \<Rightarrow> string" where
  "cstring buf = takeWhile (\<lambda>c. c \<noteq> CHR 0x00) buf"

text \<open>\<open>tolower\<close> in the C locale.\<close>

definition tolower :: "char \<Rightarrow> char" where
  "tolower c = (if 65 \<le> (of_char c :: nat) \<and> (of_char c :: nat) \<le> 90 then char_of ((of_char c :: nat) + 32) else c)"

section \<open>The ring of slots\<close>

text \<open>
  \<open>ring_view buf r len n\<close> lists \<open>len\<close> slots of the first \<open>n\<close> slots of \<open>buf\<close>, starting at slot \<open>r\<close>
  and wrapping at \<open>n\<close>.
\<close>

definition ring_view :: "'a list \<Rightarrow> nat \<Rightarrow> nat \<Rightarrow> nat \<Rightarrow> 'a list" where
  "ring_view buf r len n = map (\<lambda>i. buf ! ((r + i) mod n)) [0..<len]"

lemma length_ring_view [simp]: "length (ring_view buf r len n) = len"
  by (simp add: ring_view_def)

lemma ring_view_nth [simp]: "i < len \<Longrightarrow> ring_view buf r len n ! i = buf ! ((r + i) mod n)"
  by (simp add: ring_view_def)

lemma ring_view_0 [simp]: "ring_view buf r 0 n = []"
  by (simp add: ring_view_def)

lemma ring_view_add:
  "ring_view buf r (k + l) n = ring_view buf r k n @ ring_view buf ((r + k) mod n) l n"
proof (rule nth_equalityI)
  fix i
  assume "i < length (ring_view buf r (k + l) n)"
  moreover have "((r + k) mod n + (i - k)) mod n = (r + i) mod n" if "\<not> i < k"
    using that by (metis add.assoc add_diff_inverse_nat mod_add_left_eq)
  ultimately show "ring_view buf r (k + l) n ! i
      = (ring_view buf r k n @ ring_view buf ((r + k) mod n) l n) ! i"
    by (auto simp: nth_append)
qed simp

lemma ring_view_Suc:
  "r < n \<Longrightarrow> ring_view buf r (Suc l) n = buf ! r # ring_view buf (Suc r mod n) l n"
  using ring_view_add [of buf r 1 l n] by (simp add: ring_view_def)

lemma take_ring_view: "take k (ring_view buf r l n) = ring_view buf r (min k l) n"
  by (rule nth_equalityI) auto

lemma drop_ring_view: "drop k (ring_view buf r l n) = ring_view buf ((r + k) mod n) (l - k) n"
  by (rule nth_equalityI) (auto simp: mod_simps algebra_simps)

lemma ring_view_cong:
  assumes "\<And>i. i < l \<Longrightarrow> buf ! ((r + i) mod n) = buf' ! ((r + i) mod n)"
  shows "ring_view buf r l n = ring_view buf' r l n"
  using assms by (auto simp: ring_view_def)

text \<open>Two slots of one lap are the same slot only if they are at the same distance.\<close>

lemma mod_add_inj:
  assumes "i < n" and "j < n" and eq: "(r + i) mod n = (r + j) mod (n::nat)"
  shows "i = j"
proof -
  have aux: "a = b" if "b \<le> a" "a < n" "(r + a) mod n = (r + b) mod n" for a b
  proof -
    from that have "n dvd (r + a) - (r + b)"
      by (simp add: mod_eq_dvd_iff_nat)
    with that show ?thesis
      by (auto dest: dvd_imp_le)
  qed
  show ?thesis
    using aux [of i j] aux [of j i] assms by (metis nat_le_linear)
qed

end
