(* ===== verification/Fifo_Interface.thy ===== *)
theory Fifo_Interface
  imports C_Prelude
begin

text \<open>
  The contract of a bounded first-in first-out queue, shared by the byte ring buffer
  (\<open>20180720ringbuffer\<close>) and the task queue of the thread pool (\<open>20180731threadpoll-test\<close>):
  an abstraction \<open>items\<close> to a list, a capacity, an invariant, and what one insertion and one
  removal answer and do, when they succeed and when they are refused. What follows for a whole run of
  operations is proved once here and inherited by every interpretation.
\<close>

datatype 'a fifo_op = Enq 'a | Deq

text \<open>The answer to an operation: whether the value was stored, or the value taken out, if there was one.\<close>

datatype 'a fifo_answer = Stored bool | Taken "'a option"

text \<open>
  A client's run. An operation gives its answer and the next state, also when it refuses; \<open>None\<close> is an
  undefined operation, which makes the run undefined.
\<close>

fun fifo_run :: "('a \<Rightarrow> 'q \<Rightarrow> (bool \<times> 'q) option) \<Rightarrow> ('q \<Rightarrow> ('a option \<times> 'q) option) \<Rightarrow> 'q \<Rightarrow> 'a fifo_op list
    \<Rightarrow> ('a fifo_answer list \<times> 'q) option" where
  "fifo_run enq deq q [] = Some ([], q)"
| "fifo_run enq deq q (Enq x # ops) = do {
     (ok, q) \<leftarrow> enq x q;
     (as, r) \<leftarrow> fifo_run enq deq q ops;
     Some (Stored ok # as, r)
   }"
| "fifo_run enq deq q (Deq # ops) = do {
     (y, q) \<leftarrow> deq q;
     (as, r) \<leftarrow> fifo_run enq deq q ops;
     Some (Taken y # as, r)
   }"

text \<open>The values that a run stored, and those it took out.\<close>

fun accepted :: "'a fifo_op list \<Rightarrow> 'a fifo_answer list \<Rightarrow> 'a list" where
  "accepted (Enq x # ops) (Stored True # as) = x # accepted ops as"
| "accepted (_ # ops) (_ # as) = accepted ops as"
| "accepted _ _ = []"

fun delivered :: "'a fifo_answer list \<Rightarrow> 'a list" where
  "delivered [] = []"
| "delivered (Taken (Some x) # as) = x # delivered as"
| "delivered (_ # as) = delivered as"

text \<open>The specification: the operations on a list of at most \<open>n\<close> elements.\<close>

definition spec_enq :: "nat \<Rightarrow> 'a \<Rightarrow> 'a list \<Rightarrow> (bool \<times> 'a list) option" where
  "spec_enq n x xs = Some (if length xs < n then (True, xs @ [x]) else (False, xs))"

fun spec_deq :: "'a list \<Rightarrow> ('a option \<times> 'a list) option" where
  "spec_deq [] = Some (None, [])"
| "spec_deq (x # xs) = Some (Some x, xs)"

locale bounded_fifo =
  fixes inv :: "'q \<Rightarrow> bool"
    and items :: "'q \<Rightarrow> 'a list"
    and cap :: "'q \<Rightarrow> nat"
    and enq :: "'a \<Rightarrow> 'q \<Rightarrow> (bool \<times> 'q) option"
    and deq :: "'q \<Rightarrow> ('a option \<times> 'q) option"
  assumes bounded: "inv q \<Longrightarrow> length (items q) \<le> cap q"
    and enq_room: "inv q \<Longrightarrow> length (items q) < cap q \<Longrightarrow>
          \<exists>q'. enq x q = Some (True, q') \<and> inv q' \<and> items q' = items q @ [x] \<and> cap q' = cap q"
    and enq_full: "inv q \<Longrightarrow> length (items q) = cap q \<Longrightarrow>
          \<exists>q'. enq x q = Some (False, q') \<and> inv q' \<and> items q' = items q \<and> cap q' = cap q"
    and deq_item: "inv q \<Longrightarrow> items q = x # xs \<Longrightarrow>
          \<exists>q'. deq q = Some (Some x, q') \<and> inv q' \<and> items q' = xs \<and> cap q' = cap q"
    and deq_empty: "inv q \<Longrightarrow> items q = [] \<Longrightarrow>
          \<exists>q'. deq q = Some (None, q') \<and> inv q' \<and> items q' = [] \<and> cap q' = cap q"
begin

text \<open>One operation against the specification.\<close>

lemma enq_spec:
  assumes "inv q"
  obtains ok q' where "enq x q = Some (ok, q')" "inv q'" "cap q' = cap q" "spec_enq (cap q) x (items q) = Some (ok, items q')"
    "items q' = items q @ (if ok then [x] else [])"
proof (cases "length (items q) < cap q")
  case True
  then show thesis using enq_room [OF assms, of x] that [of True] by (auto simp: spec_enq_def)
next
  case False
  then show thesis using enq_full [OF assms, of x] bounded [OF assms] that [of False] by (auto simp: spec_enq_def)
qed

lemma deq_spec:
  assumes "inv q"
  obtains y q' where "deq q = Some (y, q')" "inv q'" "cap q' = cap q" "spec_deq (items q) = Some (y, items q')"
    "items q = (case y of None \<Rightarrow> [] | Some x \<Rightarrow> [x]) @ items q'"
  using deq_empty [OF assms] deq_item [OF assms] by (cases "items q") auto

text \<open>
  Every run is defined, keeps the invariant and the capacity, gives the answers and the contents that the
  list gives, loses nothing and never reorders: what was delivered followed by what is still queued is
  what was queued followed by what was accepted.
\<close>

lemma run:
  assumes "inv q"
  shows "\<exists>as r. fifo_run enq deq q ops = Some (as, r) \<and> inv r \<and> cap r = cap q
    \<and> fifo_run (spec_enq (cap q)) spec_deq (items q) ops = Some (as, items r)
    \<and> delivered as @ items r = items q @ accepted ops as"
  using assms
proof (induction ops arbitrary: q)
  case (Cons op ops)
  show ?case
  proof (cases op)
    case (Enq x)
    obtain ok q' where E: "enq x q = Some (ok, q')" "inv q'" "cap q' = cap q" "spec_enq (cap q) x (items q) = Some (ok, items q')"
        "items q' = items q @ (if ok then [x] else [])"
      using enq_spec [OF Cons.prems] by blast
    obtain as r where R: "fifo_run enq deq q' ops = Some (as, r)" "inv r" "cap r = cap q"
        "fifo_run (spec_enq (cap q)) spec_deq (items q') ops = Some (as, items r)" "delivered as @ items r = items q' @ accepted ops as"
      using Cons.IH [OF E(2)] E(3) by auto
    show ?thesis using R E by (intro exI [of _ "Stored ok # as"] exI [of _ r]) (cases ok, simp_all add: Enq)
  next
    case Deq
    obtain y q' where E: "deq q = Some (y, q')" "inv q'" "cap q' = cap q" "spec_deq (items q) = Some (y, items q')"
        "items q = (case y of None \<Rightarrow> [] | Some x \<Rightarrow> [x]) @ items q'"
      using deq_spec [OF Cons.prems] by blast
    obtain as r where R: "fifo_run enq deq q' ops = Some (as, r)" "inv r" "cap r = cap q"
        "fifo_run (spec_enq (cap q)) spec_deq (items q') ops = Some (as, items r)" "delivered as @ items r = items q' @ accepted ops as"
      using Cons.IH [OF E(2)] E(3) by auto
    show ?thesis using R E(1-4) by (intro exI [of _ "Taken y # as"] exI [of _ r]) (subst E(5), cases y, simp_all add: Deq)
  qed
qed simp

end

end
