(* ===== verification/Ring_Buffer.thy ===== *)
theory Ring_Buffer
  imports Fifo_Interface
begin

text \<open>
  The byte ring buffer of \<open>20180720ringbuffer/ringbuffer.h\<close> and \<open>ringbuffer.c\<close>.

  The bit fields keep their widths: the mirrors are one-bit words, the indices 15-bit words, the
  size a 16-bit word read as signed. C computes in \<open>int\<close>, so every expression is first evaluated
  over \<open>int\<close> and then truncated to the width of the field it is stored in. The pool that
  \<open>buffer_ptr\<close> points to is a list of bytes; copies are bounds-checked.

  The invariant \<open>rb_wf\<close> ties indices and mirrors together. Under it the buffer refines a list
  (\<open>rb_items\<close>) of at most \<open>rb_cap\<close> bytes, and it is an instance of the bounded queue.
\<close>

section \<open>Data\<close>

record ring_buffer =
  buffer_ptr :: "u8 list"
  read_mirror :: "1 word"
  read_index :: u15
  write_mirror :: "1 word"
  write_index :: u15
  buffer_size :: i16

datatype ring_buffer_state = RT_RINGBUFFER_EMPTY | RT_RINGBUFFER_FULL | RT_RINGBUFFER_HALFFULL

section \<open>Operations\<close>

text \<open>\<open>ALIGN_DOWN(size, align)\<close> is \<open>size & ~(align - 1)\<close>, computed in \<open>int\<close>.\<close>

definition ALIGN_DOWN :: "int \<Rightarrow> int \<Rightarrow> int" where
  "ALIGN_DOWN sz align = sz AND NOT (align - 1)"

definition ring_buffer_init :: "u8 list \<Rightarrow> i16 \<Rightarrow> ring_buffer option" where
  "ring_buffer_init pool sz =
     (if \<not> (0 < sint sz) then None
      else Some \<lparr>buffer_ptr = pool, read_mirror = 0, read_index = 0, write_mirror = 0,
                 write_index = 0, buffer_size = word_of_int (ALIGN_DOWN (sint sz) 4)\<rparr>)"

definition ring_buffer_get_size :: "ring_buffer \<Rightarrow> u16" where
  "ring_buffer_get_size rb = buffer_size rb"

definition ring_buffer_status :: "ring_buffer \<Rightarrow> ring_buffer_state" where
  "ring_buffer_status rb =
     (if read_index rb = write_index rb
      then if read_mirror rb = write_mirror rb then RT_RINGBUFFER_EMPTY else RT_RINGBUFFER_FULL
      else RT_RINGBUFFER_HALFFULL)"

definition ring_buffer_data_len :: "ring_buffer \<Rightarrow> u16" where
  "ring_buffer_data_len rb =
     (case ring_buffer_status rb of
        RT_RINGBUFFER_EMPTY \<Rightarrow> 0
      | RT_RINGBUFFER_FULL \<Rightarrow> buffer_size rb
      | RT_RINGBUFFER_HALFFULL \<Rightarrow>
          if uint (write_index rb) > uint (read_index rb)
          then word_of_int (uint (write_index rb) - uint (read_index rb))
          else word_of_int (sint (buffer_size rb) - (uint (read_index rb) - uint (write_index rb))))"

definition ring_buffer_space_len :: "ring_buffer \<Rightarrow> int" where
  "ring_buffer_space_len rb = sint (buffer_size rb) - uint (ring_buffer_data_len rb)"

definition ring_buffer_put :: "ring_buffer \<Rightarrow> u8 list \<Rightarrow> u16 \<Rightarrow> (u32 \<times> ring_buffer) option" where
  "ring_buffer_put rb ptr length0 =
     (let size = (word_of_int (ring_buffer_space_len rb) :: u16) in
      if size = 0 then Some (0, rb)
      else
        let length1 = (if size < length0 then size else length0);
            tail = sint (buffer_size rb) - uint (write_index rb) in
        if tail > uint length1
        then do {
          buf \<leftarrow> memcpy (buffer_ptr rb) (uint (write_index rb)) ptr 0 (uint length1);
          Some (ucast length1,
                rb\<lparr>buffer_ptr := buf,
                   write_index := word_of_int (uint (write_index rb) + uint length1)\<rparr>)
        }
        else do {
          buf1 \<leftarrow> memcpy (buffer_ptr rb) (uint (write_index rb)) ptr 0 tail;
          buf2 \<leftarrow> memcpy buf1 0 ptr tail (uint length1 - tail);
          Some (ucast length1,
                rb\<lparr>buffer_ptr := buf2, write_mirror := NOT (write_mirror rb),
                   write_index := word_of_int (uint length1 - tail)\<rparr>)
        })"

definition ring_buffer_put_force ::
    "ring_buffer \<Rightarrow> u8 list \<Rightarrow> u16 \<Rightarrow> (u32 \<times> ring_buffer) option" where
  "ring_buffer_put_force rb ptr length0 =
     (let old_state = ring_buffer_status rb;
          length1 = (if uint length0 > sint (buffer_size rb) then (buffer_size rb :: u16)
                     else length0);
          tail = sint (buffer_size rb) - uint (write_index rb) in
      if tail > uint length1
      then do {
        buf \<leftarrow> memcpy (buffer_ptr rb) (uint (write_index rb)) ptr 0 (uint length1);
        let rb1 = rb\<lparr>buffer_ptr := buf,
                     write_index := word_of_int (uint (write_index rb) + uint length1)\<rparr>;
        Some (ucast length1,
              if old_state = RT_RINGBUFFER_FULL
              then rb1\<lparr>read_index := write_index rb1\<rparr> else rb1)
      }
      else do {
        buf1 \<leftarrow> memcpy (buffer_ptr rb) (uint (write_index rb)) ptr 0 tail;
        buf2 \<leftarrow> memcpy buf1 0 ptr tail (uint length1 - tail);
        let rb1 = rb\<lparr>buffer_ptr := buf2, write_mirror := NOT (write_mirror rb),
                     write_index := word_of_int (uint length1 - tail)\<rparr>;
        Some (ucast length1,
              if old_state = RT_RINGBUFFER_FULL
              then rb1\<lparr>read_mirror := NOT (read_mirror rb1), read_index := write_index rb1\<rparr>
              else rb1)
      })"

definition ring_buffer_get ::
    "ring_buffer \<Rightarrow> u8 list \<Rightarrow> u16 \<Rightarrow> (u32 \<times> u8 list \<times> ring_buffer) option" where
  "ring_buffer_get rb ptr length0 =
     (let size = (ucast (ring_buffer_data_len rb) :: u32) in
      if size = 0 then Some (0, ptr, rb)
      else
        let length1 = (if size < ucast length0 then (ucast size :: u16) else length0);
            tail = sint (buffer_size rb) - uint (read_index rb) in
        if tail > uint length1
        then do {
          out \<leftarrow> memcpy ptr 0 (buffer_ptr rb) (uint (read_index rb)) (uint length1);
          Some (ucast length1, out,
                rb\<lparr>read_index := word_of_int (uint (read_index rb) + uint length1)\<rparr>)
        }
        else do {
          out1 \<leftarrow> memcpy ptr 0 (buffer_ptr rb) (uint (read_index rb)) tail;
          out2 \<leftarrow> memcpy out1 tail (buffer_ptr rb) 0 (uint length1 - tail);
          Some (ucast length1, out2,
                rb\<lparr>read_mirror := NOT (read_mirror rb),
                   read_index := word_of_int (uint length1 - tail)\<rparr>)
        })"

definition ring_buffer_putchar :: "ring_buffer \<Rightarrow> u8 \<Rightarrow> (u32 \<times> ring_buffer) option" where
  "ring_buffer_putchar rb ch =
     (if ring_buffer_space_len rb = 0 then Some (0, rb)
      else do {
        buf \<leftarrow> upd_opt (buffer_ptr rb) (unat (write_index rb)) ch;
        let rb1 = rb\<lparr>buffer_ptr := buf\<rparr>;
        Some (1,
          if uint (write_index rb1) = sint (buffer_size rb1) - 1
          then rb1\<lparr>write_mirror := NOT (write_mirror rb1), write_index := 0\<rparr>
          else rb1\<lparr>write_index := write_index rb1 + 1\<rparr>)
      })"

definition ring_buffer_putchar_force :: "ring_buffer \<Rightarrow> u8 \<Rightarrow> (u32 \<times> ring_buffer) option" where
  "ring_buffer_putchar_force rb ch =
     (let old_state = ring_buffer_status rb in do {
        buf \<leftarrow> upd_opt (buffer_ptr rb) (unat (write_index rb)) ch;
        let rb1 = rb\<lparr>buffer_ptr := buf\<rparr>;
        Some (1,
          if uint (write_index rb1) = sint (buffer_size rb1) - 1
          then let rb2 = rb1\<lparr>write_mirror := NOT (write_mirror rb1), write_index := 0\<rparr> in
            if old_state = RT_RINGBUFFER_FULL
            then rb2\<lparr>read_mirror := NOT (read_mirror rb2), read_index := write_index rb2\<rparr>
            else rb2
          else let rb2 = rb1\<lparr>write_index := write_index rb1 + 1\<rparr> in
            if old_state = RT_RINGBUFFER_FULL
            then rb2\<lparr>read_index := write_index rb2\<rparr> else rb2)
      })"

definition ring_buffer_getchar :: "ring_buffer \<Rightarrow> (u32 \<times> u8 option \<times> ring_buffer) option" where
  "ring_buffer_getchar rb =
     (if ring_buffer_data_len rb = 0 then Some (0, None, rb)
      else do {
        ch \<leftarrow> nth_opt (buffer_ptr rb) (unat (read_index rb));
        Some (1, Some ch,
          if uint (read_index rb) = sint (buffer_size rb) - 1
          then rb\<lparr>read_mirror := NOT (read_mirror rb), read_index := 0\<rparr>
          else rb\<lparr>read_index := read_index rb + 1\<rparr>)
      })"

section \<open>Abstraction and invariant\<close>

definition rb_cap :: "ring_buffer \<Rightarrow> nat" where
  "rb_cap rb = nat (sint (buffer_size rb))"

definition rb_items :: "ring_buffer \<Rightarrow> u8 list" where
  "rb_items rb =
     ring_view (buffer_ptr rb) (unat (read_index rb)) (unat (ring_buffer_data_len rb)) (rb_cap rb)"

definition rb_wf :: "ring_buffer \<Rightarrow> bool" where
  "rb_wf rb \<longleftrightarrow>
     0 < sint (buffer_size rb) \<and> rb_cap rb \<le> length (buffer_ptr rb) \<and>
     unat (read_index rb) < rb_cap rb \<and> unat (write_index rb) < rb_cap rb \<and>
     (unat (read_index rb) < unat (write_index rb) \<longrightarrow> read_mirror rb = write_mirror rb) \<and>
     (unat (write_index rb) < unat (read_index rb) \<longrightarrow> read_mirror rb \<noteq> write_mirror rb)"

section \<open>Index arithmetic\<close>

lemma uint_int_unat: "uint w = int (unat w)"
  by simp

lemma mirror_flip_iff: "(a :: 1 word) = NOT b \<longleftrightarrow> a \<noteq> b"
proof -
  have bit: "c = 0 \<or> c = 1" for c :: "1 word"
    using unsigned_less [of c, where ?'a = nat]
    by (auto simp: word_unat_eq_iff less_2_cases_iff)
  show ?thesis
    using bit [of a] bit [of b] by auto
qed

lemma word15_of_int: "k < 32768 \<Longrightarrow> unat (word_of_int (int k) :: u15) = k"
  by (simp add: unsigned_of_nat take_bit_nat_eq_self)

lemma word16_of_int: "k < 65536 \<Longrightarrow> unat (word_of_int (int k) :: u16) = k"
  by (simp add: unsigned_of_nat take_bit_nat_eq_self)

lemma sint_word16_of_int: "0 \<le> x \<Longrightarrow> x < 2 ^ 15 \<Longrightarrow> sint (word_of_int x :: i16) = x"
  by (simp add: signed_of_int signed_take_bit_int_eq_self)

lemma unat_ucast_u16 [simp]: "unat (ucast (x :: u16) :: u32) = unat x"
proof -
  have "unat x < 2 ^ 32"
    using unsigned_less [of x, where ?'a = nat] by simp
  then show ?thesis
    by (simp add: unsigned_ucast_eq unsigned_take_bit_eq take_bit_nat_eq_self)
qed

text \<open>The size as a natural number.\<close>

lemma rb_cap_bound: "rb_cap rb < 32768"
  using sint_lt [of "buffer_size rb"] by (simp add: rb_cap_def)

lemma rb_cap_facts:
  assumes "0 < sint (buffer_size rb)"
  shows rb_cap_sint: "sint (buffer_size rb) = int (rb_cap rb)"
    and rb_cap_unat: "unat (buffer_size rb) = rb_cap rb"
proof -
  show 1: "sint (buffer_size rb) = int (rb_cap rb)"
    using assms by (simp add: rb_cap_def)
  have "uint (buffer_size rb) = take_bit 16 (sint (buffer_size rb))"
    by (simp add: uint_sint)
  also have "\<dots> = int (rb_cap rb)"
    using rb_cap_bound [of rb] unfolding 1 by (subst take_bit_int_eq_self) auto
  finally show "unat (buffer_size rb) = rb_cap rb"
    by (metis nat_int unat_eq_nat_uint)
qed

lemma rb_data_len_cases:
  assumes "0 < sint (buffer_size rb)" and "unat (read_index rb) < rb_cap rb"
    and "unat (write_index rb) < rb_cap rb"
  shows "unat (ring_buffer_data_len rb) =
    (if unat (read_index rb) = unat (write_index rb)
     then if read_mirror rb = write_mirror rb then 0 else rb_cap rb
     else if unat (read_index rb) < unat (write_index rb)
     then unat (write_index rb) - unat (read_index rb)
     else rb_cap rb - (unat (read_index rb) - unat (write_index rb)))"
proof -
  define r w n where "r = unat (read_index rb)" and "w = unat (write_index rb)" and "n = rb_cap rb"
  have eq: "read_index rb = write_index rb \<longleftrightarrow> r = w"
    by (simp add: r_def w_def word_unat_eq_iff)
  have u: "uint (read_index rb) = int r" "uint (write_index rb) = int w"
    by (simp_all add: r_def w_def)
  have n: "n < 32768" "sint (buffer_size rb) = int n" "unat (buffer_size rb) = n"
    using rb_cap_bound rb_cap_sint rb_cap_unat assms(1) by (auto simp: n_def)
  have *: "r < n" "w < n"
    using assms by (auto simp: r_def w_def n_def)
  have up: "unat (word_of_int (int w - int r) :: u16) = w - r" if "r < w"
    using that * n word16_of_int [of "w - r"] by (simp add: of_nat_diff)
  have down: "unat (word_of_int (int n - (int r - int w)) :: u16) = n - (r - w)" if "w < r"
    using that * n word16_of_int [of "n - (r - w)"] by (simp only: of_nat_diff)
  show ?thesis
    using up down *
    by (auto simp: ring_buffer_data_len_def ring_buffer_status_def eq u n
        simp flip: r_def w_def n_def)
qed

text \<open>
  The whole index state in one form: with \<open>l\<close> bytes stored, the write index is \<open>l\<close> slots after
  the read index on the ring, and the mirrors agree exactly when those slots do not wrap.
\<close>

lemma rb_wf_len:
  assumes "rb_wf rb"
  shows "unat (ring_buffer_data_len rb) \<le> rb_cap rb"
    and "unat (write_index rb) = (unat (read_index rb) + unat (ring_buffer_data_len rb)) mod rb_cap rb"
    and "read_mirror rb = write_mirror rb
      \<longleftrightarrow> unat (read_index rb) + unat (ring_buffer_data_len rb) < rb_cap rb"
  using assms by (auto simp: rb_wf_def rb_data_len_cases le_mod_geq)

lemma rb_wfI:
  assumes "0 < sint (buffer_size rb)" and "rb_cap rb \<le> length (buffer_ptr rb)"
    and "unat (read_index rb) < rb_cap rb" and "l \<le> rb_cap rb"
    and "unat (write_index rb) = (unat (read_index rb) + l) mod rb_cap rb"
    and "read_mirror rb = write_mirror rb \<longleftrightarrow> unat (read_index rb) + l < rb_cap rb"
  shows "rb_wf rb" and "unat (ring_buffer_data_len rb) = l"
proof -
  have pos: "0 < rb_cap rb"
    using assms(1) by (simp add: rb_cap_def)
  then have w: "unat (write_index rb) < rb_cap rb"
    using assms(5) by simp
  have wrap: "unat (write_index rb) = (if unat (read_index rb) + l < rb_cap rb
      then unat (read_index rb) + l else unat (read_index rb) + l - rb_cap rb)"
    using assms(3-5) by (auto simp: le_mod_geq)
  show "rb_wf rb"
    using assms w wrap by (auto simp: rb_wf_def split: if_splits)
  show "unat (ring_buffer_data_len rb) = l"
    using assms w wrap by (auto simp: rb_data_len_cases split: if_splits)
qed

section \<open>Copying into and out of the ring\<close>

text \<open>The two \<open>memcpy\<close> calls of the put operations, with and without the wrap.\<close>

definition rb_written :: "u8 list \<Rightarrow> u8 list \<Rightarrow> nat \<Rightarrow> nat \<Rightarrow> nat \<Rightarrow> u8 list \<Rightarrow> bool" where
  "rb_written buf buf' w k n ptr \<longleftrightarrow>
     length buf' = length buf \<and>
     (\<forall>i < k. buf' ! ((w + i) mod n) = ptr ! i) \<and>
     (\<forall>j < n. (\<forall>i < k. j \<noteq> (w + i) mod n) \<longrightarrow> buf' ! j = buf ! j)"

lemma copy_in_straight:
  assumes "n \<le> length buf" and "w + k < n" and "k \<le> length ptr"
  obtains buf' where "memcpy buf (int w) ptr 0 (int k) = Some buf'" "rb_written buf buf' w k n ptr"
proof -
  let ?b = "take w buf @ take k (drop 0 ptr) @ drop (w + k) buf"
  have "memcpy buf (int w) ptr (int 0) (int k) = Some ?b"
    using assms by (intro memcpy_nat) auto
  moreover have "rb_written buf ?b w k n ptr"
    unfolding rb_written_def
  proof (intro conjI allI impI)
    show "length ?b = length buf" using assms by auto
    show "?b ! ((w + i) mod n) = ptr ! i" if "i < k" for i
      using that assms memcpy_nat_nth [of w k buf 0 ptr "w + i"] by simp
    show "?b ! j = buf ! j" if "j < n" "\<forall>i<k. j \<noteq> (w + i) mod n" for j
    proof -
      have "\<not> (w \<le> j \<and> j < w + k)"
      proof
        assume "w \<le> j \<and> j < w + k"
        then have "j - w < k" "j = (w + (j - w)) mod n" using that(1) by auto
        with that(2) show False by blast
      qed
      then show ?thesis
        using that assms memcpy_nat_nth [of w k buf 0 ptr j] by auto
    qed
  qed
  ultimately show thesis using that by simp
qed

lemma copy_in_wrapped:
  assumes "n \<le> length buf" and "w < n" and "n \<le> w + k" and "k \<le> n" and "k \<le> length ptr"
  obtains buf1 buf2 where
    "memcpy buf (int w) ptr 0 (int (n - w)) = Some buf1"
    "memcpy buf1 0 ptr (int (n - w)) (int (k - (n - w))) = Some buf2"
    "rb_written buf buf2 w k n ptr"
proof -
  let ?t = "n - w" and ?m = "k - (n - w)"
  let ?b1 = "take w buf @ take ?t (drop 0 ptr) @ drop (w + ?t) buf"
  let ?b2 = "take 0 ?b1 @ take ?m (drop ?t ptr) @ drop (0 + ?m) ?b1"
  have len1: "length ?b1 = length buf" using assms by auto
  have 1: "memcpy buf (int w) ptr (int 0) (int ?t) = Some ?b1"
    using assms by (intro memcpy_nat) auto
  have 2: "memcpy ?b1 (int 0) ptr (int ?t) (int ?m) = Some ?b2"
    using assms len1 by (intro memcpy_nat) auto
  have nth: "?b2 ! j = (if j < ?m then ptr ! (?t + j) else if w \<le> j then ptr ! (j - w) else buf ! j)"
    if "j < n" for j
    using that assms len1 memcpy_nat_nth [of 0 ?m ?b1 ?t ptr j] memcpy_nat_nth [of w ?t buf 0 ptr j]
    by simp
  have "rb_written buf ?b2 w k n ptr"
    unfolding rb_written_def
  proof (intro conjI allI impI)
    show "length ?b2 = length buf" using memcpy_length [OF 2] len1 by simp
    show "?b2 ! ((w + i) mod n) = ptr ! i" if "i < k" for i
    proof (cases "w + i < n")
      case True
      then show ?thesis using nth [of "w + i"] assms that by auto
    next
      case False
      then have "(w + i) mod n = i - ?t" "i - ?t < n"
        using assms that by (auto simp: le_mod_geq)
      then show ?thesis using nth [of "i - ?t"] False assms that by auto
    qed
    show "?b2 ! j = buf ! j" if "j < n" "\<forall>i<k. j \<noteq> (w + i) mod n" for j
    proof -
      have "\<not> w \<le> j"
      proof
        assume "w \<le> j"
        then have "j - w < k" "j = (w + (j - w)) mod n" using that(1) assms by auto
        with that(2) show False by blast
      qed
      moreover have "\<not> j < ?m"
      proof
        assume "j < ?m"
        then have "?t + j < k" "j = (w + (?t + j)) mod n" using that(1) assms by auto
        with that(2) show False by blast
      qed
      ultimately show ?thesis using nth [OF that(1)] by simp
    qed
  qed
  then show thesis using that [OF _ _ ] 1 2 by simp
qed

lemma rb_written_view:
  assumes "rb_written buf buf' ((r + l) mod n) k n ptr" and "l + k \<le> n" and "k \<le> length ptr"
    and "0 < n"
  shows "ring_view buf' r (l + k) n = ring_view buf r l n @ take k ptr"
proof -
  have old: "ring_view buf' r l n = ring_view buf r l n"
  proof (rule ring_view_cong)
    fix i assume "i < l"
    have "(r + i) mod n \<noteq> ((r + l) mod n + j) mod n" if "j < k" for j
    proof
      assume "(r + i) mod n = ((r + l) mod n + j) mod n"
      then have "(r + i) mod n = (r + (l + j)) mod n"
        by (simp add: mod_simps add.assoc)
      with \<open>i < l\<close> that assms(2) show False
        using mod_add_inj [of i n "l + j" r] by simp
    qed
    then show "buf' ! ((r + i) mod n) = buf ! ((r + i) mod n)"
      using assms by (auto simp: rb_written_def)
  qed
  have new: "ring_view buf' ((r + l) mod n) k n = take k ptr"
    using assms by (intro nth_equalityI) (auto simp: rb_written_def)
  show ?thesis
    by (simp add: ring_view_add old new)
qed

lemma copy_out_straight:
  assumes "n \<le> length buf" and "r + k < n" and "k \<le> length ptr"
  shows "memcpy ptr 0 buf (int r) (int k) = Some (ring_view buf r k n @ drop k ptr)"
proof -
  have "take k (drop r buf) = ring_view buf r k n"
    using assms by (intro nth_equalityI) auto
  moreover have "memcpy ptr (int 0) buf (int r) (int k)
      = Some (take 0 ptr @ take k (drop r buf) @ drop (0 + k) ptr)"
    using assms by (intro memcpy_nat) auto
  ultimately show ?thesis by simp
qed

lemma copy_out_wrapped:
  assumes "n \<le> length buf" and "r < n" and "n \<le> r + k" and "k \<le> n" and "k \<le> length ptr"
  obtains out1 where
    "memcpy ptr 0 buf (int r) (int (n - r)) = Some out1"
    "memcpy out1 (int (n - r)) buf 0 (int (k - (n - r))) = Some (ring_view buf r k n @ drop k ptr)"
proof -
  let ?t = "n - r" and ?m = "k - (n - r)"
  let ?o1 = "take 0 ptr @ take ?t (drop r buf) @ drop (0 + ?t) ptr"
  have 1: "memcpy ptr (int 0) buf (int r) (int ?t) = Some ?o1"
    using assms by (intro memcpy_nat) auto
  have len1: "length ?o1 = length ptr" using assms by auto
  have 2: "memcpy ?o1 (int ?t) buf (int 0) (int ?m)
      = Some (take ?t ?o1 @ take ?m (drop 0 buf) @ drop (?t + ?m) ?o1)"
    using assms len1 by (intro memcpy_nat) auto
  have "take ?t (drop r buf) @ take ?m buf = ring_view buf r k n"
  proof (rule nth_equalityI)
    show "length (take ?t (drop r buf) @ take ?m buf) = length (ring_view buf r k n)"
      using assms by auto
    fix i assume "i < length (take ?t (drop r buf) @ take ?m buf)"
    then show "(take ?t (drop r buf) @ take ?m buf) ! i = ring_view buf r k n ! i"
      using assms by (auto simp: nth_append le_mod_geq add.commute)
  qed
  then have "take ?t ?o1 @ take ?m (drop 0 buf) @ drop (?t + ?m) ?o1
      = ring_view buf r k n @ drop k ptr"
    using assms by auto
  then show thesis using that 1 2 by simp
qed

section \<open>What the operations do\<close>

lemma length_rb_items [simp]: "length (rb_items rb) = unat (ring_buffer_data_len rb)"
  by (simp add: rb_items_def)

lemma rb_items_bounded: "rb_wf rb \<Longrightarrow> length (rb_items rb) \<le> rb_cap rb"
  by (simp add: rb_wf_len(1))

lemma rb_space:
  assumes "rb_wf rb"
  shows "ring_buffer_space_len rb = int (rb_cap rb - length (rb_items rb))"
  using assms rb_wf_len(1) [OF assms]
  by (simp add: ring_buffer_space_len_def rb_cap_sint rb_wf_def of_nat_diff)

text \<open>Facts about a well-formed buffer, in natural numbers.\<close>

lemma rb_wf_facts:
  assumes "rb_wf rb"
  shows "0 < rb_cap rb" "rb_cap rb < 32768" "rb_cap rb \<le> length (buffer_ptr rb)"
    "sint (buffer_size rb) = int (rb_cap rb)" "unat (buffer_size rb) = rb_cap rb"
    "0 < sint (buffer_size rb)"
    "unat (read_index rb) < rb_cap rb" "unat (write_index rb) < rb_cap rb"
  using assms rb_cap_bound by (auto simp: rb_wf_def rb_cap_sint rb_cap_unat)

text \<open>
  Storing \<open>k\<close> bytes behind the write index and moving it, flipping the mirror on a wrap, appends
  them to the contents.
\<close>

lemma rb_advance_write:
  assumes wf: "rb_wf rb" and room: "length (rb_items rb) + k \<le> rb_cap rb" and "k \<le> length ptr"
    and written: "rb_written (buffer_ptr rb) buf (unat (write_index rb)) k (rb_cap rb) ptr"
    and wi: "unat wi = (unat (write_index rb) + k) mod rb_cap rb"
    and wm: "wm = (if unat (write_index rb) + k < rb_cap rb then write_mirror rb
                   else NOT (write_mirror rb))"
  defines "rb' \<equiv> rb\<lparr>buffer_ptr := buf, write_mirror := wm, write_index := wi\<rparr>"
  shows "rb_wf rb'" and "rb_items rb' = rb_items rb @ take k ptr" and "rb_cap rb' = rb_cap rb"
proof -
  define r l n where "r = unat (read_index rb)" and "l = length (rb_items rb)" and "n = rb_cap rb"
  note facts = rb_wf_facts [OF wf]
  have w: "unat (write_index rb) = (r + l) mod n"
    using rb_wf_len(2) [OF wf] by (simp add: r_def l_def n_def)
  have m: "read_mirror rb = write_mirror rb \<longleftrightarrow> r + l < n"
    using rb_wf_len(3) [OF wf] by (simp add: r_def l_def n_def)
  have le: "l + k \<le> n" "r < n" "0 < n"
    using room facts by (auto simp: r_def l_def n_def)
  show cap: "rb_cap rb' = rb_cap rb"
    by (simp add: rb'_def rb_cap_def)
  have wi': "unat (write_index rb') = (r + (l + k)) mod n"
    by (simp add: rb'_def wi w mod_simps add.assoc flip: n_def)
  have wm': "read_mirror rb' = write_mirror rb' \<longleftrightarrow> r + (l + k) < n"
    using m le by (auto simp: rb'_def wm w mirror_flip_iff le_mod_geq simp flip: n_def split: if_splits)
  have len: "length buf = length (buffer_ptr rb)"
    using written by (simp add: rb_written_def)
  have "rb_wf rb'" "unat (ring_buffer_data_len rb') = l + k"
    using rb_wfI [of rb' "l + k"] facts le wi' wm' cap len
    by (simp_all add: rb'_def r_def n_def)
  then show "rb_wf rb'" and "rb_items rb' = rb_items rb @ take k ptr"
    using rb_written_view [of "buffer_ptr rb" buf r l n k ptr] written le assms(3) cap
    by (simp_all add: rb_items_def rb'_def w r_def l_def n_def)
qed

text \<open>
  The copy step that \<open>ring_buffer_put\<close> and \<open>ring_buffer_put_force\<close> share: both branches stay
  inside the pool and leave the write index \<open>k\<close> slots further on the ring.
\<close>

lemma rb_store_cases:
  assumes wf: "rb_wf rb" and k: "unat l1 = k" "k \<le> rb_cap rb" "k \<le> length ptr"
  defines "tail \<equiv> sint (buffer_size rb) - uint (write_index rb)"
  obtains (straight) buf where "tail > uint l1" "unat (write_index rb) + k < rb_cap rb"
      "memcpy (buffer_ptr rb) (uint (write_index rb)) ptr 0 (uint l1) = Some buf"
      "rb_written (buffer_ptr rb) buf (unat (write_index rb)) k (rb_cap rb) ptr"
      "unat (word_of_int (uint (write_index rb) + uint l1) :: u15)
         = (unat (write_index rb) + k) mod rb_cap rb"
  | (wrapped) buf1 buf where "\<not> tail > uint l1" "\<not> unat (write_index rb) + k < rb_cap rb"
      "memcpy (buffer_ptr rb) (uint (write_index rb)) ptr 0 tail = Some buf1"
      "memcpy buf1 0 ptr tail (uint l1 - tail) = Some buf"
      "rb_written (buffer_ptr rb) buf (unat (write_index rb)) k (rb_cap rb) ptr"
      "unat (word_of_int (uint l1 - tail) :: u15) = (unat (write_index rb) + k) mod rb_cap rb"
proof -
  define n w where "n = rb_cap rb" and "w = unat (write_index rb)"
  note facts = rb_wf_facts [OF wf]
  have bounds: "0 < n" "n < 32768" "n \<le> length (buffer_ptr rb)" "w < n" "k \<le> n"
    using facts k by (auto simp: n_def w_def)
  have u: "uint (write_index rb) = int w" "uint l1 = int k"
    by (simp_all only: uint_int_unat k(1) w_def)
  have t: "tail = int (n - w)"
    using facts bounds by (simp add: tail_def n_def w_def)
  show thesis
  proof (cases "w + k < n")
    case True
    moreover obtain buf where "memcpy (buffer_ptr rb) (int w) ptr 0 (int k) = Some buf"
        "rb_written (buffer_ptr rb) buf w k n ptr"
      using copy_in_straight [of n "buffer_ptr rb" w k ptr] True bounds k(3) by metis
    moreover have "unat (word_of_int (int w + int k) :: u15) = (w + k) mod n"
      using True bounds word15_of_int [of "w + k"] by simp
    ultimately show thesis
      by (intro straight) (auto simp: u t simp flip: w_def n_def)
  next
    case False
    obtain buf1 buf where bufs: "memcpy (buffer_ptr rb) (int w) ptr 0 (int (n - w)) = Some buf1"
        "memcpy buf1 0 ptr (int (n - w)) (int (k - (n - w))) = Some buf"
        "rb_written (buffer_ptr rb) buf w k n ptr"
      using copy_in_wrapped [of n "buffer_ptr rb" w k ptr] False bounds k(3) by (metis not_less)
    have i: "int k - int (n - w) = int (k - (n - w))" and nlt: "\<not> int (n - w) > int k"
      using False bounds by auto
    have wi: "unat (word_of_int (int (k - (n - w))) :: u15) = (w + k) mod n"
      using False bounds word15_of_int [of "k - (n - w)"] by (simp add: le_mod_geq add.commute)
    show thesis
      by (rule wrapped [unfolded u t i, folded w_def n_def, OF nlt False bufs wi])
  qed
qed

lemma ring_buffer_put_ok:
  assumes wf: "rb_wf rb" and src: "unat len \<le> length ptr"
  defines "k \<equiv> min (unat len) (rb_cap rb - length (rb_items rb))"
  obtains rb' where "ring_buffer_put rb ptr len = Some (of_nat k, rb')" "rb_wf rb'"
    "rb_items rb' = rb_items rb @ take k ptr" "rb_cap rb' = rb_cap rb"
proof -
  define sz where "sz = (word_of_int (ring_buffer_space_len rb) :: u16)"
  define l1 where "l1 = (if sz < len then sz else len)"
  note facts = rb_wf_facts [OF wf]
  have size: "unat sz = rb_cap rb - length (rb_items rb)"
    using rb_space [OF wf] word16_of_int [of "rb_cap rb - length (rb_items rb)"] facts
    by (simp add: sz_def)
  have l1: "unat l1 = k"
    using size by (auto simp: l1_def k_def word_less_nat_alt)
  have ret: "(ucast l1 :: u32) = of_nat k"
    by (simp flip: l1)
  have k: "k \<le> rb_cap rb" "k \<le> length ptr" "length (rb_items rb) + k \<le> rb_cap rb"
    using src rb_items_bounded [OF wf] by (auto simp: k_def)
  note adv = rb_advance_write [OF wf k(3) k(2)]
  show thesis
  proof (cases "sz = 0")
    case True
    moreover from this size have "k = 0"
      by (simp add: k_def)
    ultimately show thesis
      using wf by (intro that) (simp_all add: ring_buffer_put_def flip: sz_def)
  next
    case False
    from wf l1 k(1,2) show thesis
    proof (cases rule: rb_store_cases)
      case (straight buf)
      show thesis
        by (rule that [OF _ adv(1-3) [OF straight(4,5)]])
          (use False straight ret in \<open>simp_all add: ring_buffer_put_def Let_def flip: sz_def l1_def\<close>)
    next
      case (wrapped buf1 buf)
      show thesis
        by (rule that [OF _ adv(1-3) [OF wrapped(5,6)]])
          (use False wrapped ret in \<open>simp_all add: ring_buffer_put_def Let_def flip: sz_def l1_def\<close>)
    qed
  qed
qed

text \<open>Moving the read index over \<open>k\<close> stored bytes drops them from the contents.\<close>

lemma rb_advance_read:
  assumes wf: "rb_wf rb" and k: "k \<le> length (rb_items rb)"
    and ri: "unat ri = (unat (read_index rb) + k) mod rb_cap rb"
    and rm: "rm = (if unat (read_index rb) + k < rb_cap rb then read_mirror rb
                   else NOT (read_mirror rb))"
  defines "rb' \<equiv> rb\<lparr>read_mirror := rm, read_index := ri\<rparr>"
  shows "rb_wf rb'" and "rb_items rb' = drop k (rb_items rb)" and "rb_cap rb' = rb_cap rb"
proof -
  define r l n where "r = unat (read_index rb)" and "l = length (rb_items rb)" and "n = rb_cap rb"
  note facts = rb_wf_facts [OF wf]
  have w: "unat (write_index rb) = (r + l) mod n"
    using rb_wf_len(2) [OF wf] by (simp add: r_def l_def n_def)
  have m: "read_mirror rb = write_mirror rb \<longleftrightarrow> r + l < n"
    using rb_wf_len(3) [OF wf] by (simp add: r_def l_def n_def)
  have le: "l \<le> n" "r < n" "0 < n" "k \<le> l"
    using k facts rb_items_bounded [OF wf] by (auto simp: r_def l_def n_def)
  show cap: "rb_cap rb' = rb_cap rb"
    by (simp add: rb'_def rb_cap_def)
  have r': "unat (read_index rb') = (r + k) mod n"
    by (simp add: rb'_def ri r_def n_def)
  have "((r + k) mod n + (l - k)) mod n = (r + l) mod n"
    using le(4) by (metis add.assoc le_add_diff_inverse mod_add_left_eq)
  then have wi': "unat (write_index rb') = (unat (read_index rb') + (l - k)) mod n"
    unfolding r' by (simp add: rb'_def w)
  have "(r + k) mod n + (l - k) < n \<longleftrightarrow> (r + k < n \<and> r + l < n) \<or> (\<not> r + k < n \<and> \<not> r + l < n)"
    using le by (cases "r + k < n") (auto simp: le_mod_geq)
  then have "read_mirror rb' = write_mirror rb' \<longleftrightarrow> (r + k) mod n + (l - k) < n"
    using m mirror_flip_iff [of "write_mirror rb" "read_mirror rb"]
    by (cases "r + k < n") (auto simp: rb'_def rm eq_commute [of "NOT _"] simp flip: r_def n_def)
  then have rm': "read_mirror rb' = write_mirror rb' \<longleftrightarrow> unat (read_index rb') + (l - k) < n"
    by (simp only: r')
  have "rb_wf rb'" "unat (ring_buffer_data_len rb') = l - k"
    using rb_wfI [of rb' "l - k"] facts le wi' rm' cap r'
    by (simp_all add: rb'_def n_def)
  then show "rb_wf rb'" and "rb_items rb' = drop k (rb_items rb)"
    using r' cap le by (simp_all add: rb_items_def drop_ring_view rb'_def r_def l_def n_def)
qed

lemma rb_fetch_cases:
  assumes wf: "rb_wf rb" and k: "unat l1 = k" "k \<le> length (rb_items rb)" "k \<le> length ptr"
  defines "tail \<equiv> sint (buffer_size rb) - uint (read_index rb)"
  obtains (straight) "tail > uint l1" "unat (read_index rb) + k < rb_cap rb"
      "memcpy ptr 0 (buffer_ptr rb) (uint (read_index rb)) (uint l1)
         = Some (take k (rb_items rb) @ drop k ptr)"
      "unat (word_of_int (uint (read_index rb) + uint l1) :: u15)
         = (unat (read_index rb) + k) mod rb_cap rb"
  | (wrapped) out1 where "\<not> tail > uint l1" "\<not> unat (read_index rb) + k < rb_cap rb"
      "memcpy ptr 0 (buffer_ptr rb) (uint (read_index rb)) tail = Some out1"
      "memcpy out1 tail (buffer_ptr rb) 0 (uint l1 - tail)
         = Some (take k (rb_items rb) @ drop k ptr)"
      "unat (word_of_int (uint l1 - tail) :: u15) = (unat (read_index rb) + k) mod rb_cap rb"
proof -
  define r n where "r = unat (read_index rb)" and "n = rb_cap rb"
  note facts = rb_wf_facts [OF wf]
  have bounds: "r < n" "n < 32768" "n \<le> length (buffer_ptr rb)" "k \<le> n"
    using facts k(2) rb_items_bounded [OF wf] by (auto simp: r_def n_def)
  have u: "uint (read_index rb) = int r" "uint l1 = int k"
    by (simp_all only: uint_int_unat k(1) r_def)
  have t: "tail = int (n - r)"
    using facts bounds by (simp add: tail_def n_def r_def)
  have view: "take k (rb_items rb) = ring_view (buffer_ptr rb) r k n"
    using k(2) by (simp add: rb_items_def take_ring_view r_def n_def min_def)
  show thesis
  proof (cases "r + k < n")
    case True
    then have "int (n - r) > int k" by simp
    moreover have "unat (word_of_int (int r + int k) :: u15) = (r + k) mod n"
      using True bounds word15_of_int [of "r + k"] by simp
    ultimately show thesis
      using True copy_out_straight [OF bounds(3) True k(3)]
      by (intro straight [unfolded u t view, folded r_def n_def])
  next
    case False
    obtain out1 where out: "memcpy ptr 0 (buffer_ptr rb) (int r) (int (n - r)) = Some out1"
        "memcpy out1 (int (n - r)) (buffer_ptr rb) 0 (int (k - (n - r)))
           = Some (ring_view (buffer_ptr rb) r k n @ drop k ptr)"
      using copy_out_wrapped [of n "buffer_ptr rb" r k ptr] False bounds k by (metis not_less)
    have i: "int k - int (n - r) = int (k - (n - r))" and nlt: "\<not> int (n - r) > int k"
      using False bounds by auto
    have ri: "unat (word_of_int (int (k - (n - r))) :: u15) = (r + k) mod n"
      using False bounds word15_of_int [of "k - (n - r)"] by (simp add: le_mod_geq add.commute)
    show thesis
      by (rule wrapped [unfolded u t i view, folded r_def n_def, OF nlt False out ri])
  qed
qed

lemma ring_buffer_get_ok:
  assumes wf: "rb_wf rb" and dst: "unat len \<le> length ptr"
  defines "k \<equiv> min (unat len) (length (rb_items rb))"
  obtains rb' where
    "ring_buffer_get rb ptr len = Some (of_nat k, take k (rb_items rb) @ drop k ptr, rb')"
    "rb_wf rb'" "rb_items rb' = drop k (rb_items rb)" "rb_cap rb' = rb_cap rb"
proof -
  define sz where "sz = (ucast (ring_buffer_data_len rb) :: u32)"
  define l1 where "l1 = (if sz < ucast len then (ucast sz :: u16) else len)"
  have sz: "unat sz = length (rb_items rb)"
    by (simp add: sz_def)
  have "ucast sz = ring_buffer_data_len rb"
    by (simp add: sz_def ucast_up_ucast_id is_up)
  then have l1: "unat l1 = k"
    by (auto simp: l1_def k_def word_less_nat_alt sz)
  have ret: "(ucast l1 :: u32) = of_nat k"
    by (simp flip: l1)
  have k: "k \<le> length (rb_items rb)" "k \<le> length ptr"
    using dst by (auto simp: k_def)
  note adv = rb_advance_read [OF wf k(1)]
  show thesis
  proof (cases "sz = 0")
    case True
    moreover from this sz have "k = 0" by (simp add: k_def)
    ultimately show thesis
      using wf by (intro that) (simp_all add: ring_buffer_get_def flip: sz_def)
  next
    case False
    from wf l1 k show thesis
    proof (cases rule: rb_fetch_cases)
      case straight
      show thesis
        by (rule that [OF _ adv(1-3) [OF straight(4)]])
          (use False straight ret in \<open>simp_all add: ring_buffer_get_def Let_def flip: sz_def l1_def\<close>)
    next
      case (wrapped out1)
      show thesis
        by (rule that [OF _ adv(1-3) [OF wrapped(5)]])
          (use False wrapped ret in \<open>simp_all add: ring_buffer_get_def Let_def flip: sz_def l1_def\<close>)
    qed
  qed
qed

text \<open>
  On a full buffer the forced writes also move the read index to the new write index, which drops
  the oldest \<open>k\<close> bytes.
\<close>

lemma rb_written_view_full:
  assumes "rb_written buf buf' r k n ptr" and "k \<le> n" and "k \<le> length ptr" and "r < n"
  shows "ring_view buf' ((r + k) mod n) n n = drop k (ring_view buf r n n) @ take k ptr"
proof -
  have old: "ring_view buf' ((r + k) mod n) (n - k) n = ring_view buf ((r + k) mod n) (n - k) n"
  proof (rule ring_view_cong)
    fix i assume i: "i < n - k"
    have "((r + k) mod n + i) mod n \<noteq> (r + j) mod n" if "j < k" for j
    proof
      assume "((r + k) mod n + i) mod n = (r + j) mod n"
      then have eq: "(r + (k + i)) mod n = (r + j) mod n"
        by (simp add: mod_simps add.assoc)
      have "k + i < n" "j < n"
        using i that assms(2) by auto
      then have "k + i = j"
        by (rule mod_add_inj [OF _ _ eq])
      with that show False by simp
    qed
    then show "buf' ! (((r + k) mod n + i) mod n) = buf ! (((r + k) mod n + i) mod n)"
      using assms by (auto simp: rb_written_def)
  qed
  have new: "ring_view buf' r k n = take k ptr"
    using assms by (intro nth_equalityI) (auto simp: rb_written_def)
  have "ring_view buf' ((r + k) mod n) ((n - k) + k) n
      = ring_view buf' ((r + k) mod n) (n - k) n @ ring_view buf' (((r + k) mod n + (n - k)) mod n) k n"
    by (rule ring_view_add)
  moreover have "((r + k) mod n + (n - k)) mod n = (r + k + (n - k)) mod n"
    by (rule mod_add_left_eq)
  then have "((r + k) mod n + (n - k)) mod n = r"
    using assms by simp
  ultimately show ?thesis
    using assms(2) by (simp add: old new drop_ring_view)
qed

lemma rb_overwrite:
  assumes wf: "rb_wf rb" and full: "ring_buffer_status rb = RT_RINGBUFFER_FULL"
    and k: "k \<le> rb_cap rb" "k \<le> length ptr"
    and written: "rb_written (buffer_ptr rb) buf (unat (write_index rb)) k (rb_cap rb) ptr"
    and wi: "unat wi = (unat (write_index rb) + k) mod rb_cap rb" and m: "rm \<noteq> wm"
  defines "rb' \<equiv> rb\<lparr>buffer_ptr := buf, read_mirror := rm, read_index := wi,
                    write_mirror := wm, write_index := wi\<rparr>"
  shows "rb_wf rb'" and "rb_items rb' = drop k (rb_items rb) @ take k ptr" and "rb_cap rb' = rb_cap rb"
proof -
  note facts = rb_wf_facts [OF wf]
  have eq: "read_index rb = write_index rb" "read_mirror rb \<noteq> write_mirror rb"
    using full by (auto simp: ring_buffer_status_def split: if_splits)
  show cap: "rb_cap rb' = rb_cap rb"
    by (simp add: rb'_def rb_cap_def)
  have len: "unat (ring_buffer_data_len rb) = rb_cap rb"
    using rb_data_len_cases [of rb] facts eq by simp
  have "unat wi < rb_cap rb"
    using wi facts by simp
  then have "rb_wf rb'" "unat (ring_buffer_data_len rb') = rb_cap rb"
    using rb_wfI [of rb' "rb_cap rb"] facts m cap written
    by (simp_all add: rb'_def rb_written_def)
  then show "rb_wf rb'" and "rb_items rb' = drop k (rb_items rb) @ take k ptr"
    using rb_written_view_full [OF written k] facts cap eq len wi
    by (simp_all add: rb_items_def rb'_def)
qed

lemma ring_buffer_put_force_ok:
  assumes wf: "rb_wf rb" and src: "unat len \<le> length ptr"
  defines "k \<equiv> min (unat len) (rb_cap rb)"
  assumes fits: "ring_buffer_status rb = RT_RINGBUFFER_FULL \<or> length (rb_items rb) + k \<le> rb_cap rb"
  obtains rb' where "ring_buffer_put_force rb ptr len = Some (of_nat k, rb')" "rb_wf rb'"
    "rb_items rb' = drop (length (rb_items rb) + k - rb_cap rb) (rb_items rb @ take k ptr)"
    "rb_cap rb' = rb_cap rb"
proof -
  define l1 where "l1 = (if uint len > sint (buffer_size rb) then (buffer_size rb :: u16) else len)"
  note facts = rb_wf_facts [OF wf]
  have l1: "unat l1 = k"
    using facts by (auto simp: l1_def k_def uint_int_unat simp del: of_nat_unat)
  have ret: "(ucast l1 :: u32) = of_nat k"
    by (simp flip: l1)
  have k: "k \<le> rb_cap rb" "k \<le> length ptr"
    using src by (auto simp: k_def)
  show thesis
  proof (cases "ring_buffer_status rb = RT_RINGBUFFER_FULL")
    case True
    then have full: "length (rb_items rb) = rb_cap rb" "read_mirror rb \<noteq> write_mirror rb"
      using rb_data_len_cases [of rb] facts
      by (auto simp: ring_buffer_status_def split: if_splits)
    then have m: "NOT (read_mirror rb) \<noteq> NOT (write_mirror rb)"
      by simp
    have drop: "drop k (rb_items rb) @ take k ptr
        = drop (length (rb_items rb) + k - rb_cap rb) (rb_items rb @ take k ptr)"
      using full k by simp
    from wf l1 k show thesis
    proof (cases rule: rb_store_cases)
      case (straight buf)
      show thesis
        by (rule that [OF _ rb_overwrite [OF wf True k straight(4,5) full(2), unfolded drop]])
          (use True straight ret in \<open>simp add: ring_buffer_put_force_def Let_def flip: l1_def\<close>)
    next
      case (wrapped buf1 buf)
      show thesis
        by (rule that [OF _ rb_overwrite [OF wf True k wrapped(5,6) m, unfolded drop]])
          (use True wrapped ret in \<open>simp add: ring_buffer_put_force_def Let_def flip: l1_def\<close>)
    qed
  next
    case False
    with fits have room: "length (rb_items rb) + k \<le> rb_cap rb" by simp
    then have drop: "rb_items rb @ take k ptr
        = drop (length (rb_items rb) + k - rb_cap rb) (rb_items rb @ take k ptr)"
      by simp
    note adv = rb_advance_write [OF wf room k(2)]
    from wf l1 k show thesis
    proof (cases rule: rb_store_cases)
      case (straight buf)
      show thesis
        by (rule that [OF _ adv(1) [OF straight(4,5)] adv(2) [OF straight(4,5), THEN trans, OF _ drop]
            adv(3) [OF straight(4,5)]])
          (use False straight ret in \<open>simp_all add: ring_buffer_put_force_def Let_def flip: l1_def\<close>)
    next
      case (wrapped buf1 buf)
      show thesis
        by (rule that [OF _ adv(1) [OF wrapped(5,6)] adv(2) [OF wrapped(5,6), THEN trans, OF _ drop]
            adv(3) [OF wrapped(5,6)]])
          (use False wrapped ret in \<open>simp_all add: ring_buffer_put_force_def Let_def flip: l1_def\<close>)
    qed
  qed
qed

lemma rb_written_single:
  "w < n \<Longrightarrow> n \<le> length buf \<Longrightarrow> rb_written buf (buf[w := ch]) w 1 n [ch]"
  by (auto simp: rb_written_def nth_list_update)

text \<open>The index step of the single-byte operations.\<close>

lemma rb_step_index:
  assumes "rb_wf rb" and "unat i < rb_cap rb"
  shows "uint i = sint (buffer_size rb) - 1 \<longleftrightarrow> \<not> unat i + 1 < rb_cap rb"
    and "unat i + 1 < rb_cap rb \<Longrightarrow> unat (i + 1 :: u15) = (unat i + 1) mod rb_cap rb"
    and "\<not> unat i + 1 < rb_cap rb \<Longrightarrow> unat (0 :: u15) = (unat i + 1) mod rb_cap rb"
proof -
  note facts = rb_wf_facts [OF assms(1)]
  show "uint i = sint (buffer_size rb) - 1 \<longleftrightarrow> \<not> unat i + 1 < rb_cap rb"
    using facts(4) assms(2) by (simp add: uint_int_unat del: of_nat_unat) linarith
  show "unat (i + 1 :: u15) = (unat i + 1) mod rb_cap rb" if "unat i + 1 < rb_cap rb"
    using that facts(2) by (simp add: unat_word_ariths)
  show "unat (0 :: u15) = (unat i + 1) mod rb_cap rb" if "\<not> unat i + 1 < rb_cap rb"
  proof -
    have "unat i + 1 = rb_cap rb" using that assms(2) by simp
    then show ?thesis by (metis mod_self unsigned_0)
  qed
qed

lemma ring_buffer_putchar_ok:
  assumes wf: "rb_wf rb" and room: "length (rb_items rb) < rb_cap rb"
  obtains rb' where "ring_buffer_putchar rb ch = Some (1, rb')" "rb_wf rb'"
    "rb_items rb' = rb_items rb @ [ch]" "rb_cap rb' = rb_cap rb"
proof -
  note facts = rb_wf_facts [OF wf]
  note idx = rb_step_index [OF wf facts(8)]
  have space: "ring_buffer_space_len rb \<noteq> 0"
    using rb_space [OF wf] room by (simp del: of_nat_diff)
  have w: "unat (write_index rb) < length (buffer_ptr rb)"
    using facts by simp
  note written = rb_written_single [OF facts(8,3), of ch]
  have 1: "length (rb_items rb) + 1 \<le> rb_cap rb" "1 \<le> length [ch]"
    using room by auto
  have single: "take 1 [ch] = [ch]"
    by simp
  note adv = rb_advance_write [OF wf 1 written, unfolded single]
  show thesis
  proof (cases "unat (write_index rb) + 1 < rb_cap rb")
    case True
    show thesis
      by (rule that [OF _ adv [OF idx(2)]])
        (use True space w idx(1) in \<open>simp_all add: ring_buffer_putchar_def Let_def\<close>)
  next
    case False
    show thesis
      by (rule that [OF _ adv [OF idx(3)]])
        (use False space w idx(1) in \<open>simp_all add: ring_buffer_putchar_def Let_def\<close>)
  qed
qed

lemma ring_buffer_putchar_full:
  "rb_wf rb \<Longrightarrow> length (rb_items rb) = rb_cap rb \<Longrightarrow> ring_buffer_putchar rb ch = Some (0, rb)"
  using rb_space [of rb] by (simp add: ring_buffer_putchar_def)

lemma ring_buffer_getchar_ok:
  assumes wf: "rb_wf rb" and items: "rb_items rb = x # xs"
  obtains rb' where "ring_buffer_getchar rb = Some (1, Some x, rb')" "rb_wf rb'"
    "rb_items rb' = xs" "rb_cap rb' = rb_cap rb"
proof -
  note facts = rb_wf_facts [OF wf]
  note idx = rb_step_index [OF wf facts(7)]
  have len: "unat (ring_buffer_data_len rb) = Suc (length xs)"
    using items length_rb_items [of rb] by simp
  then have nz: "ring_buffer_data_len rb \<noteq> 0" and one: "1 \<le> length (rb_items rb)"
    by auto
  have x: "buffer_ptr rb ! unat (read_index rb) = x"
    using items len facts by (simp add: rb_items_def ring_view_Suc)
  have r: "unat (read_index rb) < length (buffer_ptr rb)"
    using facts by simp
  have xs: "drop 1 (rb_items rb) = xs"
    by (simp add: items)
  note adv = rb_advance_read [OF wf one, unfolded xs]
  show thesis
  proof (cases "unat (read_index rb) + 1 < rb_cap rb")
    case True
    show thesis
      by (rule that [OF _ adv [OF idx(2)]])
        (use True nz r x idx(1) in \<open>simp_all add: ring_buffer_getchar_def\<close>)
  next
    case False
    show thesis
      by (rule that [OF _ adv [OF idx(3)]])
        (use False nz r x idx(1) in \<open>simp_all add: ring_buffer_getchar_def\<close>)
  qed
qed

lemma ring_buffer_getchar_empty:
  "rb_items rb = [] \<Longrightarrow> ring_buffer_getchar rb = Some (0, None, rb)"
  using length_rb_items [of rb] by (simp add: ring_buffer_getchar_def unat_eq_0)

lemma ring_buffer_putchar_force_ok:
  assumes wf: "rb_wf rb"
  obtains rb' where "ring_buffer_putchar_force rb ch = Some (1, rb')" "rb_wf rb'"
    "rb_items rb' = drop (length (rb_items rb) + 1 - rb_cap rb) (rb_items rb @ [ch])"
    "rb_cap rb' = rb_cap rb"
proof (cases "ring_buffer_status rb = RT_RINGBUFFER_FULL")
  case True
  note facts = rb_wf_facts [OF wf]
  note idx = rb_step_index [OF wf facts(8)]
  have full: "length (rb_items rb) = rb_cap rb" "read_mirror rb \<noteq> write_mirror rb"
    using True rb_data_len_cases [of rb] facts
    by (auto simp: ring_buffer_status_def split: if_splits)
  then have m: "NOT (read_mirror rb) \<noteq> NOT (write_mirror rb)"
    by simp
  have one: "1 \<le> rb_cap rb" "1 \<le> length [ch]"
    using facts by auto
  have eq: "drop 1 (rb_items rb) @ take 1 [ch]
      = drop (length (rb_items rb) + 1 - rb_cap rb) (rb_items rb @ [ch])"
    using full one by simp
  have w: "unat (write_index rb) < length (buffer_ptr rb)"
    using facts by simp
  note over = rb_overwrite [OF wf True one rb_written_single [OF facts(8,3)], unfolded eq]
  show thesis
  proof (cases "unat (write_index rb) + 1 < rb_cap rb")
    case c: True
    show thesis
      by (rule that [OF _ over [OF idx(2) [OF c] full(2)]])
        (use c True w idx(1) in \<open>simp add: ring_buffer_putchar_force_def Let_def\<close>)
  next
    case c: False
    show thesis
      by (rule that [OF _ over [OF idx(3) [OF c] m]])
        (use c True w idx(1) in \<open>simp add: ring_buffer_putchar_force_def Let_def\<close>)
  qed
next
  case False
  then have "length (rb_items rb) \<noteq> rb_cap rb"
    using rb_data_len_cases [of rb] rb_wf_facts [OF wf]
    by (auto simp: ring_buffer_status_def word_unat_eq_iff split: if_splits)
  then have room: "length (rb_items rb) < rb_cap rb"
    using rb_items_bounded [OF wf] by simp
  have same: "ring_buffer_putchar_force rb ch = ring_buffer_putchar rb ch"
    using False rb_space [OF wf] room
    by (simp add: ring_buffer_putchar_force_def ring_buffer_putchar_def Let_def
        del: of_nat_diff cong: if_cong)
  obtain rb' where "ring_buffer_putchar rb ch = Some (1, rb')" "rb_wf rb'"
      "rb_items rb' = rb_items rb @ [ch]" "rb_cap rb' = rb_cap rb"
    by (rule ring_buffer_putchar_ok [OF wf room, of ch])
  with same room show thesis
    by (intro that [of rb']) simp_all
qed

text \<open>Initialisation.\<close>

lemma ALIGN_DOWN_4: "ALIGN_DOWN x 4 = x - x mod 4"
proof -
  have "NOT x AND (x AND 3) = 0"
    by (rule bit_eqI) (simp add: bit_simps)
  then have "x - (x AND 3) = x AND NOT (x AND 3)"
    by (rule disjunctive_diff_eq_and_not)
  also have "x AND NOT (x AND 3) = x AND NOT 3"
    by (rule bit_eqI) (auto simp: bit_simps)
  moreover have "x AND 3 = x mod 4"
    using take_bit_eq_mask [of 2 x] by (simp add: take_bit_eq_mod mask_numeral)
  ultimately show ?thesis
    by (simp add: ALIGN_DOWN_def)
qed

lemma ring_buffer_init_cap:
  assumes "ring_buffer_init pool sz = Some rb"
  shows "rb_cap rb = nat (sint sz - sint sz mod 4)" and "sint (buffer_size rb) = sint sz - sint sz mod 4"
proof -
  have "0 < sint sz" and rb: "buffer_size rb = word_of_int (sint sz - sint sz mod 4)"
    using assms by (auto simp: ring_buffer_init_def ALIGN_DOWN_4 split: if_splits)
  moreover have "sint sz < 2 ^ 15"
    using sint_lt [of sz] by simp
  moreover have "sint sz mod 4 \<le> sint sz" "0 \<le> sint sz mod 4"
    using \<open>0 < sint sz\<close> zmod_le_nonneg_dividend [of "sint sz" 4] by simp_all
  ultimately have "0 \<le> sint sz - sint sz mod 4" "sint sz - sint sz mod 4 < 2 ^ 15"
    by linarith+
  then show 1: "sint (buffer_size rb) = sint sz - sint sz mod 4"
    unfolding rb by (rule sint_word16_of_int)
  show "rb_cap rb = nat (sint sz - sint sz mod 4)"
    by (simp add: rb_cap_def 1)
qed

lemma ring_buffer_init_ok:
  assumes "4 \<le> sint sz" and "nat (sint sz) \<le> length pool"
  obtains rb where "ring_buffer_init pool sz = Some rb" "rb_wf rb" "rb_items rb = []"
    "rb_cap rb = nat (sint sz - sint sz mod 4)"
proof -
  obtain rb where rb: "ring_buffer_init pool sz = Some rb"
    using assms by (simp add: ring_buffer_init_def)
  note cap = ring_buffer_init_cap [OF rb]
  have fields: "read_index rb = 0" "write_index rb = 0" "read_mirror rb = write_mirror rb"
      "buffer_ptr rb = pool"
    using rb by (auto simp: ring_buffer_init_def split: if_splits)
  have "sint sz mod 4 < 4" "0 \<le> sint sz mod 4"
    by simp_all
  then have pos: "0 < sint (buffer_size rb)" "rb_cap rb \<le> length pool" "0 < rb_cap rb"
    using assms cap by linarith+
  then have "rb_wf rb" "unat (ring_buffer_data_len rb) = 0"
    using rb_wfI [of rb 0] fields by simp_all
  then show thesis
    using that [OF rb _ _ cap(1)] by (simp add: rb_items_def)
qed

section \<open>The ring buffer as a bounded queue\<close>

text \<open>
  The single-byte operations with the return value, 1 or 0, as a truth value, and with the state they leave,
  also when they refuse. Any other return value, or a return value that does not fit the byte delivered,
  counts as undefined.
\<close>

definition rb_enq :: "u8 \<Rightarrow> ring_buffer \<Rightarrow> (bool \<times> ring_buffer) option" where
  "rb_enq ch rb = do {
     (ret, rb') \<leftarrow> ring_buffer_putchar rb ch;
     (if ret = 1 then Some (True, rb') else if ret = 0 then Some (False, rb') else None)
   }"

definition rb_deq :: "ring_buffer \<Rightarrow> (u8 option \<times> ring_buffer) option" where
  "rb_deq rb = do {
     (ret, ch, rb') \<leftarrow> ring_buffer_getchar rb;
     (if ret = (if ch = None then 0 else 1) then Some (ch, rb') else None)
   }"

interpretation rb: bounded_fifo rb_wf rb_items rb_cap rb_enq rb_deq
proof
  fix rb x xs
  assume wf: "rb_wf rb"
  show "length (rb_items rb) \<le> rb_cap rb"
    by (rule rb_items_bounded [OF wf])
  show "\<exists>rb'. rb_enq x rb = Some (True, rb') \<and> rb_wf rb' \<and> rb_items rb' = rb_items rb @ [x]
      \<and> rb_cap rb' = rb_cap rb" if "length (rb_items rb) < rb_cap rb"
    by (rule ring_buffer_putchar_ok [OF wf that, of x]) (simp add: rb_enq_def)
  show "\<exists>rb'. rb_enq x rb = Some (False, rb') \<and> rb_wf rb' \<and> rb_items rb' = rb_items rb \<and> rb_cap rb' = rb_cap rb"
    if "length (rb_items rb) = rb_cap rb"
    using ring_buffer_putchar_full [OF wf that] wf by (simp add: rb_enq_def)
  show "\<exists>rb'. rb_deq rb = Some (Some x, rb') \<and> rb_wf rb' \<and> rb_items rb' = xs \<and> rb_cap rb' = rb_cap rb"
    if "rb_items rb = x # xs"
    by (rule ring_buffer_getchar_ok [OF wf that]) (simp add: rb_deq_def)
  show "\<exists>rb'. rb_deq rb = Some (None, rb') \<and> rb_wf rb' \<and> rb_items rb' = [] \<and> rb_cap rb' = rb_cap rb" if "rb_items rb = []"
    using ring_buffer_getchar_empty [OF that] that wf by (simp add: rb_deq_def)
qed

section \<open>The forced block write on a partly filled buffer\<close>

text \<open>
  The index state after the write index has run \<open>d\<close> slots past the read index: the length is
  computed from the indices alone, so it is \<open>d\<close>, and the mirrors no longer fit the indices.
\<close>

lemma rb_overrun:
  fixes buf :: "u8 list"
  assumes wf: "rb_wf rb" and half: "ring_buffer_status rb = RT_RINGBUFFER_HALFFULL"
    and k: "k \<le> rb_cap rb" "length (rb_items rb) + k > rb_cap rb"
    and wi: "unat wi = (unat (write_index rb) + k) mod rb_cap rb"
    and wm: "wm = (if unat (write_index rb) + k < rb_cap rb then write_mirror rb
                   else NOT (write_mirror rb))"
  defines "rb' \<equiv> rb\<lparr>buffer_ptr := buf, write_mirror := wm, write_index := wi\<rparr>"
  shows "length (rb_items rb') = length (rb_items rb) + k - rb_cap rb" and "\<not> rb_wf rb'"
proof -
  define r l n where "r = unat (read_index rb)" and "l = length (rb_items rb)" and "n = rb_cap rb"
  define d where "d = l + k - n"
  note facts = rb_wf_facts [OF wf]
  have w: "unat (write_index rb) = (r + l) mod n"
    using rb_wf_len(2) [OF wf] by (simp add: r_def l_def n_def)
  have m: "read_mirror rb = write_mirror rb \<longleftrightarrow> r + l < n"
    using rb_wf_len(3) [OF wf] by (simp add: r_def l_def n_def)
  have "l \<noteq> n"
    using half w facts by (auto simp: ring_buffer_status_def r_def n_def word_unat_eq_iff split: if_splits)
  then have le: "l < n" "r < n" "0 < d" "d < n" "l + k = d + n"
    using k facts rb_items_bounded [OF wf] by (auto simp: r_def l_def n_def d_def)
  have cap: "rb_cap rb' = n" "buffer_size rb' = buffer_size rb"
    by (simp_all add: rb'_def rb_cap_def n_def)
  have "(r + (l + k)) mod n = (r + d) mod n"
    unfolding le(5) by (metis add.assoc mod_add_self2)
  then have w': "unat (write_index rb') = (if r + d < n then r + d else r + d - n)"
    using le by (simp add: rb'_def wi w mod_simps add.assoc le_mod_geq flip: n_def)
  have r': "unat (read_index rb') = r"
    by (simp add: rb'_def r_def)
  have bnd: "unat (read_index rb') < rb_cap rb'" "unat (write_index rb') < rb_cap rb'"
      "0 < sint (buffer_size rb')"
    using le w' r' cap facts by auto
  show "length (rb_items rb') = length (rb_items rb) + k - rb_cap rb"
    using rb_data_len_cases [OF bnd(3,1,2)] w' r' cap le by (auto simp: d_def l_def n_def)
  have kn: "k \<le> n"
    using k by (simp add: n_def)
  have "(r + l) mod n + k < n \<longleftrightarrow> \<not> r + l < n \<and> r + d < n" and "r + l < n \<Longrightarrow> r + d < n"
    using le kn by (cases "r + l < n"; auto simp: le_mod_geq)+
  then have "read_mirror rb' = write_mirror rb' \<longleftrightarrow> \<not> r + d < n"
    using m by (auto simp: rb'_def wm w mirror_flip_iff simp flip: n_def)
  then show "\<not> rb_wf rb'"
    using w' r' le by (auto simp: rb_wf_def split: if_splits)
qed

section \<open>Properties\<close>

text \<open>
  C1: \<open>ring_buffer_put\<close> on a well-formed buffer never touches memory outside the pool or the
  source, returns the number of bytes it stored, which is the smaller of the request and the free
  space, appends exactly those bytes to the contents, and keeps the buffer well-formed.
\<close>

theorem ring_buffer_put_correct:
  assumes "rb_wf rb" and "unat len \<le> length ptr"
    and "k = min (unat len) (rb_cap rb - length (rb_items rb))"
  shows "\<exists>rb'. ring_buffer_put rb ptr len = Some (of_nat k, rb') \<and> rb_wf rb' \<and>
    rb_items rb' = rb_items rb @ take k ptr \<and> rb_cap rb' = rb_cap rb"
  using ring_buffer_put_ok [OF assms(1,2)] assms(3) by blast

definition rb_sample :: ring_buffer where
  "rb_sample = \<lparr>buffer_ptr = [1, 2, 3, 4], read_mirror = 0, read_index = 2, write_mirror = 1,
     write_index = 1, buffer_size = 4\<rparr>"

lemma rb_sample_facts:
  shows "rb_wf rb_sample" and "rb_items rb_sample = [3, 4, 1]" and "rb_cap rb_sample = 4"
    and "ring_buffer_status rb_sample = RT_RINGBUFFER_HALFFULL"
    and "length (rb_items rb_sample) = 3"
  by code_simp+

theorem ring_buffer_put_correct_witness:
  "\<exists>rb'. ring_buffer_put rb_sample [7, 8] 2 = Some (of_nat 1, rb') \<and> rb_wf rb' \<and>
     rb_items rb' = [3, 4, 1] @ take 1 [7, 8] \<and> rb_cap rb' = 4"
proof -
  have k: "1 = min (unat (2 :: u16)) (rb_cap rb_sample - length (rb_items rb_sample))"
    by (simp only: rb_sample_facts) simp
  show ?thesis
    using ring_buffer_put_correct [OF rb_sample_facts(1) _ k, of "[7, 8]"]
    by (simp add: rb_sample_facts del: length_rb_items)
qed

text \<open>
  C2: \<open>ring_buffer_get\<close> copies out the oldest bytes, as many as were asked for and are stored,
  into the front of the destination, leaves the rest of the destination alone, removes them from
  the buffer and keeps it well-formed.
\<close>

theorem ring_buffer_get_correct:
  assumes "rb_wf rb" and "unat len \<le> length ptr" and "k = min (unat len) (length (rb_items rb))"
  shows "\<exists>rb'. ring_buffer_get rb ptr len
      = Some (of_nat k, take k (rb_items rb) @ drop k ptr, rb') \<and> rb_wf rb' \<and>
    rb_items rb' = drop k (rb_items rb) \<and> rb_cap rb' = rb_cap rb"
  using ring_buffer_get_ok [OF assms(1,2)] assms(3) by blast

theorem ring_buffer_get_correct_witness:
  "\<exists>rb'. ring_buffer_get rb_sample [0, 0] 2 = Some (of_nat 2, [3, 4], rb') \<and> rb_wf rb' \<and>
     rb_items rb' = [1] \<and> rb_cap rb' = 4"
proof -
  have k: "2 = min (unat (2 :: u16)) (length (rb_items rb_sample))"
    by (simp only: rb_sample_facts) simp
  show ?thesis
    using ring_buffer_get_correct [OF rb_sample_facts(1) _ k, of "[0, 0]"]
    by (simp add: rb_sample_facts del: length_rb_items)
qed

text \<open>
  C3: through the single-byte operations the buffer is a bounded queue. Every sequence of
  \<open>ring_buffer_putchar\<close> and \<open>ring_buffer_getchar\<close> on a well-formed buffer is defined and gives the return values
  and the bytes that a list of at most \<open>rb_cap\<close> bytes gives; the buffer stays well-formed and stores what
  the list holds, so that a refused call changes no stored byte; and the bytes delivered followed by the
  bytes still stored are the bytes stored at the start followed by the accepted ones, in order.
\<close>

theorem ring_buffer_fifo:
  assumes "rb_wf rb"
  shows "\<exists>answers rb'. fifo_run rb_enq rb_deq rb ops = Some (answers, rb') \<and> rb_wf rb' \<and> rb_cap rb' = rb_cap rb
    \<and> fifo_run (spec_enq (rb_cap rb)) spec_deq (rb_items rb) ops = Some (answers, rb_items rb')
    \<and> delivered answers @ rb_items rb' = rb_items rb @ accepted ops answers"
  by (rule rb.run [OF assms])

definition rb_sample_ops :: "u8 fifo_op list" where
  "rb_sample_ops = [Enq 9, Enq 10, Deq, Deq, Enq 11]"

theorem ring_buffer_fifo_witness:
  "\<exists>rb'. fifo_run rb_enq rb_deq rb_sample rb_sample_ops
      = Some ([Stored True, Stored False, Taken (Some 3), Taken (Some 4), Stored True], rb') \<and> rb_items rb' = [1, 9, 11]"
proof -
  have spec: "fifo_run (spec_enq 4) spec_deq [3, 4, 1] rb_sample_ops
      = Some ([Stored True, Stored False, Taken (Some 3), Taken (Some 4), Stored True], [1, 9, 11])"
    by (simp add: rb_sample_ops_def spec_enq_def)
  show ?thesis using ring_buffer_fifo [OF rb_sample_facts(1), of rb_sample_ops] spec by (auto simp: rb_sample_facts)
qed

text \<open>
  \<open>ring_buffer_putchar_force\<close> always succeeds, and the result is the contents with the new byte
  appended and, only when the buffer was full, the oldest byte dropped.
\<close>

theorem ring_buffer_putchar_force_correct:
  assumes "rb_wf rb"
  shows "\<exists>rb'. ring_buffer_putchar_force rb ch = Some (1, rb') \<and> rb_wf rb' \<and>
    rb_items rb' = drop (length (rb_items rb) + 1 - rb_cap rb) (rb_items rb @ [ch]) \<and>
    rb_cap rb' = rb_cap rb"
  using ring_buffer_putchar_force_ok [OF assms] by blast

theorem ring_buffer_putchar_force_correct_witness:
  "\<exists>rb'. ring_buffer_putchar_force rb_sample 9 = Some (1, rb') \<and> rb_wf rb' \<and>
     rb_items rb' = [3, 4, 1, 9] \<and> rb_cap rb' = 4"
  using ring_buffer_putchar_force_correct [OF rb_sample_facts(1), of 9]
  by (simp add: rb_sample_facts del: length_rb_items)

text \<open>
  \<open>ring_buffer_put_force\<close> does what its comment says when the buffer was full or the data fit
  in the free space: the data (cut to the capacity) are appended and the oldest bytes that no
  longer fit are discarded.
\<close>

theorem ring_buffer_put_force_correct:
  assumes "rb_wf rb" and "unat len \<le> length ptr" and "k = min (unat len) (rb_cap rb)"
    and "ring_buffer_status rb = RT_RINGBUFFER_FULL \<or> length (rb_items rb) + k \<le> rb_cap rb"
  shows "\<exists>rb'. ring_buffer_put_force rb ptr len = Some (of_nat k, rb') \<and> rb_wf rb' \<and>
    rb_items rb' = drop (length (rb_items rb) + k - rb_cap rb) (rb_items rb @ take k ptr)"
  using ring_buffer_put_force_ok [of rb len ptr] assms by metis

theorem ring_buffer_put_force_correct_witness:
  "\<exists>rb'. ring_buffer_put_force (rb_sample\<lparr>write_index := 2\<rparr>) [7, 8, 9] 3 = Some (of_nat 3, rb') \<and>
     rb_wf rb' \<and> rb_items rb' = [2, 7, 8, 9]"
proof -
  let ?rb = "rb_sample\<lparr>write_index := 2\<rparr>"
  have f: "rb_wf ?rb" "rb_items ?rb = [3, 4, 1, 2]" "rb_cap ?rb = 4"
      "ring_buffer_status ?rb = RT_RINGBUFFER_FULL"
    by code_simp+
  have k: "3 = min (unat (3 :: u16)) (rb_cap ?rb)"
    by (simp only: f) simp
  show ?thesis
    using ring_buffer_put_force_correct [OF f(1) _ k, of "[7, 8, 9]"] f(4)
    by (simp add: f(2,3) del: length_rb_items)
qed

text \<open>
  on a buffer that is neither empty nor full, \<open>ring_buffer_put_force\<close> with more data than free
  space runs over the unread bytes without moving the read index. It reports all \<open>k\<close> bytes as
  written, but the buffer then claims to hold only the \<open>length + k - capacity\<close> bytes that overran,
  and its indices and mirrors are inconsistent from then on.
\<close>

theorem ring_buffer_put_force_overrun:
  assumes "rb_wf rb" and "unat len \<le> length ptr" and "k = min (unat len) (rb_cap rb)"
    and "ring_buffer_status rb = RT_RINGBUFFER_HALFFULL"
    and "length (rb_items rb) + k > rb_cap rb"
  shows "\<exists>rb'. ring_buffer_put_force rb ptr len = Some (of_nat k, rb') \<and> \<not> rb_wf rb' \<and>
    length (rb_items rb') = length (rb_items rb) + k - rb_cap rb"
proof -
  define l1 where "l1 = (if uint len > sint (buffer_size rb) then (buffer_size rb :: u16) else len)"
  have l1: "unat l1 = k"
    using rb_wf_facts [OF assms(1)]
    by (auto simp: l1_def assms(3) uint_int_unat simp del: of_nat_unat)
  have ret: "(ucast l1 :: u32) = of_nat k"
    by (simp flip: l1)
  have k: "k \<le> rb_cap rb" "k \<le> length ptr"
    using assms(2,3) by auto
  note over = rb_overrun [OF assms(1,4) k(1) assms(5)]
  from assms(1) l1 k show ?thesis
  proof (cases rule: rb_store_cases)
    case (straight buf)
    show ?thesis
      using over [OF straight(5) refl, of buf] straight ret assms(4)
      by (simp add: ring_buffer_put_force_def Let_def flip: l1_def)
  next
    case (wrapped buf1 buf)
    show ?thesis
      using over [OF wrapped(6) refl, of buf] wrapped ret assms(4)
      by (simp add: ring_buffer_put_force_def Let_def flip: l1_def)
  qed
qed

theorem ring_buffer_put_force_overrun_witness:
  "\<exists>rb'. ring_buffer_put_force rb_sample [7, 8, 9] 3 = Some (of_nat 3, rb') \<and> \<not> rb_wf rb' \<and>
     length (rb_items rb') = 2"
proof -
  have k: "3 = min (unat (3 :: u16)) (rb_cap rb_sample)"
    by (simp only: rb_sample_facts) simp
  show ?thesis
    using ring_buffer_put_force_overrun [OF rb_sample_facts(1) _ k rb_sample_facts(4), of "[7, 8, 9]"]
    by (simp add: rb_sample_facts(2,3) del: length_rb_items)
qed

text \<open>
  \<open>ring_buffer_init\<close> on a pool of at least the given size makes a well-formed empty buffer whose
  capacity is the size rounded down to a multiple of four; a size that is not positive aborts.
\<close>

theorem ring_buffer_init_correct:
  assumes "4 \<le> sint sz \<Longrightarrow> nat (sint sz) \<le> length pool"
  shows "if sint sz \<le> 0 then ring_buffer_init pool sz = None
    else \<exists>rb. ring_buffer_init pool sz = Some rb \<and> rb_cap rb = nat (sint sz - sint sz mod 4) \<and>
      rb_items rb = [] \<and> (rb_wf rb \<longleftrightarrow> 4 \<le> sint sz)"
proof (cases "4 \<le> sint sz")
  case True
  then show ?thesis
    by (auto elim!: ring_buffer_init_ok [OF True assms])
next
  case small: False
  show ?thesis
  proof (cases "0 < sint sz")
    case True
    then obtain rb where rb: "ring_buffer_init pool sz = Some rb"
      by (simp add: ring_buffer_init_def)
    have "sint sz mod 4 = sint sz"
      using True small by simp
    with rb True small ring_buffer_init_cap [OF rb] show ?thesis
      by (auto simp: rb_wf_def rb_items_def ring_buffer_init_def ring_buffer_data_len_def
          ring_buffer_status_def)
  qed (simp add: ring_buffer_init_def)
qed

theorem ring_buffer_init_correct_witness:
  "\<exists>rb. ring_buffer_init (replicate 7 0) 6 = Some rb \<and> rb_cap rb = 4 \<and> rb_items rb = [] \<and> rb_wf rb"
  using ring_buffer_init_correct [of 6 "replicate 7 0"] by simp

end
