(* ===== verification/Map_Interface.thy ===== *)
theory Map_Interface
  imports C_Prelude
begin

text \<open>
  The contract of a store of key/value pairs, kept by the string dictionary
  (\<open>auto_imi_db_bin/src/dictionary.c\<close>) and, with keys compared up to letter case, by the ini
  dictionary on top of it (\<open>auto_imi_db_bin/src/iniparser.c\<close>). A store is abstracted to a finite
  map; \<open>lim\<close> bounds the number of entries it can count. What a whole session of operations answers
  is proved once here.
\<close>

datatype ('k, 'v) map_op = Put 'k 'v | Del 'k | Get 'k

text \<open>A session: the answers of the lookups and the final store; \<open>None\<close> if some call goes wrong.\<close>

fun map_run :: "('k \<Rightarrow> 'v \<Rightarrow> 's \<Rightarrow> 's option) \<Rightarrow> ('k \<Rightarrow> 's \<Rightarrow> 's option) \<Rightarrow> ('k \<Rightarrow> 's \<Rightarrow> 'v option option)
    \<Rightarrow> 's \<Rightarrow> ('k, 'v) map_op list \<Rightarrow> ('v option list \<times> 's) option" where
  "map_run put del get s [] = Some ([], s)"
| "map_run put del get s (Put k v # ops) = put k v s \<bind> (\<lambda>s'. map_run put del get s' ops)"
| "map_run put del get s (Del k # ops) = del k s \<bind> (\<lambda>s'. map_run put del get s' ops)"
| "map_run put del get s (Get k # ops) =
     get k s \<bind> (\<lambda>r. map_run put del get s ops \<bind> (\<lambda>(rs, s'). Some (r # rs, s')))"

text \<open>The specification: the same session on a map.\<close>

fun spec_run :: "('k \<rightharpoonup> 'v) \<Rightarrow> ('k, 'v) map_op list \<Rightarrow> 'v option list \<times> ('k \<rightharpoonup> 'v)" where
  "spec_run m [] = ([], m)"
| "spec_run m (Put k v # ops) = spec_run (m(k \<mapsto> v)) ops"
| "spec_run m (Del k # ops) = spec_run (m(k := None)) ops"
| "spec_run m (Get k # ops) = (case spec_run m ops of (rs, m') \<Rightarrow> (m k # rs, m'))"

lemma card_dom_upd_le: "finite (dom m) \<Longrightarrow> card (dom (m(k \<mapsto> v))) \<le> Suc (card (dom m))"
  by (simp add: card_insert_if)

lemma card_dom_del_le: "finite (dom m) \<Longrightarrow> card (dom (m(k := None))) \<le> card (dom m)"
  by (simp add: card_Diff1_le)

locale assoc_store =
  fixes inv :: "'s \<Rightarrow> bool"
    and abs :: "'s \<Rightarrow> ('k \<rightharpoonup> 'v)"
    and lim :: nat
    and put :: "'k \<Rightarrow> 'v \<Rightarrow> 's \<Rightarrow> 's option"
    and del :: "'k \<Rightarrow> 's \<Rightarrow> 's option"
    and get :: "'k \<Rightarrow> 's \<Rightarrow> 'v option option"
  assumes finite_abs: "inv s \<Longrightarrow> finite (dom (abs s))"
    and put_ok: "inv s \<Longrightarrow> card (dom (abs s)) < lim \<Longrightarrow>
          \<exists>s'. put k v s = Some s' \<and> inv s' \<and> abs s' = (abs s)(k \<mapsto> v)"
    and del_ok: "inv s \<Longrightarrow> \<exists>s'. del k s = Some s' \<and> inv s' \<and> abs s' = (abs s)(k := None)"
    and get_ok: "inv s \<Longrightarrow> get k s = Some (abs s k)"
begin

lemma put_get: "inv s \<Longrightarrow> card (dom (abs s)) < lim \<Longrightarrow> put k v s = Some s' \<Longrightarrow>
    get k' s' = (if k' = k then Some (Some v) else get k' s)"
  using put_ok [of s k v] get_ok [of s k'] by (auto simp: get_ok)

text \<open>
  As long as the session is too short to reach the limit, every call succeeds, the answers are
  those of the map, and the final store stands for the final map.
\<close>

lemma session:
  assumes "inv s" and "card (dom (abs s)) + length ops \<le> lim"
  shows "\<exists>s'. map_run put del get s ops = Some (fst (spec_run (abs s) ops), s')
    \<and> inv s' \<and> abs s' = snd (spec_run (abs s) ops)"
  using assms
proof (induction put\<equiv>put del\<equiv>del get\<equiv>get s ops rule: map_run.induct)
  case (1 s)
  then show ?case by simp
next
  case (2 s k v ops)
  then have "card (dom (abs s)) < lim" by simp
  with 2 obtain s' where "put k v s = Some s'" "inv s'" "abs s' = (abs s)(k \<mapsto> v)"
    using put_ok by blast
  moreover have "card (dom (abs s')) + length ops \<le> lim"
    using 2(3) card_dom_upd_le [OF finite_abs [OF 2(2)], of k v] \<open>abs s' = _\<close> by simp
  ultimately show ?case using 2(1) [of s'] by simp
next
  case (3 s k ops)
  then obtain s' where "del k s = Some s'" "inv s'" "abs s' = (abs s)(k := None)"
    using del_ok by blast
  moreover have "card (dom (abs s')) + length ops \<le> lim"
    using 3(3) card_dom_del_le [OF finite_abs [OF 3(2)], of k] \<open>abs s' = _\<close> by simp
  ultimately show ?case using 3(1) [of s'] by simp
next
  case (4 s k ops)
  then have "\<exists>s'. map_run put del get s ops = Some (fst (spec_run (abs s) ops), s')
    \<and> inv s' \<and> abs s' = snd (spec_run (abs s) ops)"
    by (intro 4(1) [OF get_ok]) auto
  then show ?case using get_ok [OF 4(2), of k] by (auto split: prod.splits)
qed

end

text \<open>
  A store whose keys are normalised before every call (the ini parser folds letter case) keeps the
  same contract for the normalised keys: a session on it is the session on the map with every key
  of the operations normalised.
\<close>

lemma map_run_fold:
  "map_run (\<lambda>k. put (f k)) (\<lambda>k. del (f k)) (\<lambda>k. get (f k)) s ops
    = map_run put del get s (map (map_map_op f id) ops)"
proof (induction ops arbitrary: s)
  case (Cons op ops)
  then show ?case by (cases op) (auto split: bind_splits)
qed simp

locale folded_store = assoc_store inv abs lim put del get
  for inv :: "'s \<Rightarrow> bool" and abs :: "'s \<Rightarrow> ('k \<rightharpoonup> 'v)" and lim :: nat
    and put :: "'k \<Rightarrow> 'v \<Rightarrow> 's \<Rightarrow> 's option" and del :: "'k \<Rightarrow> 's \<Rightarrow> 's option"
    and get :: "'k \<Rightarrow> 's \<Rightarrow> 'v option option" +
  fixes fold_key :: "'c \<Rightarrow> 'k"
    and fput :: "'c \<Rightarrow> 'v \<Rightarrow> 's \<Rightarrow> 's option"
    and fdel :: "'c \<Rightarrow> 's \<Rightarrow> 's option"
    and fget :: "'c \<Rightarrow> 's \<Rightarrow> 'v option option"
  assumes fput: "fput c v s = put (fold_key c) v s"
    and fdel: "fdel c s = del (fold_key c) s"
    and fget: "fget c s = get (fold_key c) s"
begin

lemma folded_put_get:
  assumes "inv s" and "card (dom (abs s)) < lim" and "fput k v s = Some s'"
  shows "fget k' s' = (if fold_key k' = fold_key k then Some (Some v) else fget k' s)"
  using put_get [of s "fold_key k" v s' "fold_key k'"] assms by (simp add: fput fget)

lemma folded_session:
  assumes "inv s" and "card (dom (abs s)) + length ops \<le> lim"
  defines "ops' \<equiv> map (map_map_op fold_key id) ops"
  shows "\<exists>s'. map_run fput fdel fget s ops = Some (fst (spec_run (abs s) ops'), s')
    \<and> inv s' \<and> abs s' = snd (spec_run (abs s) ops')"
proof -
  have "fput = (\<lambda>k. put (fold_key k))" "fdel = (\<lambda>k. del (fold_key k))"
    "fget = (\<lambda>k. get (fold_key k))"
    by (simp_all add: fput fdel fget fun_eq_iff)
  then have "map_run fput fdel fget s ops = map_run put del get s ops'"
    by (simp add: map_run_fold ops'_def)
  then show ?thesis
    using session [of s ops'] assms by (simp add: ops'_def)
qed

end

end
