(* ===== verification/Dictionary.thy ===== *)
theory Dictionary
  imports Map_Interface
begin

text \<open>
  The string dictionary of \<open>auto_imi_db_bin/src/dictionary.c\<close> and \<open>dictionary.h\<close>: three parallel
  arrays (values, keys, hashes) with empty slots between the entries. The theory holds the
  structure and every operation, the invariant the operations keep, the refinement of the
  dictionary to a finite map, and what happens when an allocation fails.

  A C string is the list of its characters before the terminating NUL; a \<open>char *\<close> that may be
  NULL is a \<open>string option\<close>. An array whose \<open>calloc\<close> failed is the empty list, on which every
  access is out of range. Each string is owned by one slot, so freeing it is clearing the slot.
  The counter \<open>n\<close> is an \<open>int\<close>, whose overflow is undefined; sizes are unbounded.
\<close>

section \<open>Data\<close>

record dictionary =
  d_n :: int
  d_size :: nat
  d_val :: "string option list"
  d_key :: "string option list"
  d_hash :: "u32 list"

text \<open>Pointers to characters with the sentinel \<open>(char *)-1\<close> that marks an invalid key.\<close>

datatype cstr = CNull | CStr string | CInvalid

fun cstr_of :: "string option \<Rightarrow> cstr" where
  "cstr_of None = CNull"
| "cstr_of (Some s) = CStr s"

definition DICTMINSZ :: nat where
  "DICTMINSZ = 128"

definition INT_MAX :: int where
  "INT_MAX = 2147483647"

text \<open>\<open>calloc\<close> of \<open>k\<close> elements, all zero.\<close>

fun calloc :: "nat \<Rightarrow> 'a \<Rightarrow> mem \<Rightarrow> 'a list option \<times> mem" where
  "calloc k zero m = (case malloc_ok m of (ok, m') \<Rightarrow> (if ok then Some (replicate k zero) else None, m'))"

fun array_of :: "'a list option \<Rightarrow> 'a list" where
  "array_of None = []"
| "array_of (Some xs) = xs"

section \<open>Operations\<close>

fun xstrdup :: "string option \<Rightarrow> mem \<Rightarrow> string option \<times> mem" where
  "xstrdup None m = (None, m)"
| "xstrdup (Some s) m = (case malloc_ok m of (ok, m') \<Rightarrow> (if ok then Some s else None, m'))"

text \<open>
  Doubling the arrays. All three allocations are made before the test, so a failure leaves the
  dictionary unchanged.
\<close>

definition dictionary_grow :: "dictionary \<Rightarrow> mem \<Rightarrow> (int \<times> dictionary \<times> mem) option" where
  "dictionary_grow d m =
     (case calloc (d_size d * 2) None m of (new_val, m) \<Rightarrow>
      case calloc (d_size d * 2) None m of (new_key, m) \<Rightarrow>
      case calloc (d_size d * 2) 0 m of (new_hash, m) \<Rightarrow>
      (case (new_val, new_key, new_hash) of
         (Some nv, Some nk, Some nh) \<Rightarrow> do {
           nv \<leftarrow> memcpy nv 0 (d_val d) 0 (int (d_size d));
           nk \<leftarrow> memcpy nk 0 (d_key d) 0 (int (d_size d));
           nh \<leftarrow> memcpy nh 0 (d_hash d) 0 (int (d_size d));
           Some (0, d\<lparr>d_size := d_size d * 2, d_val := nv, d_key := nk, d_hash := nh\<rparr>, m)
         }
       | _ \<Rightarrow> Some (-1, d, m)))"

text \<open>
  The hash: \<open>(unsigned) key[i]\<close> extends a \<open>char\<close>, which is unsigned on the \<open>arm-linux\<close> target the
  README names (on ASCII keys signed characters give the same hash).
\<close>

definition hash_char :: "char \<Rightarrow> u32" where
  "hash_char c = ucast (of_char c :: u8)"

fun hash_loop :: "string \<Rightarrow> u32 \<Rightarrow> u32" where
  "hash_loop [] hash = hash"
| "hash_loop (c # cs) hash =
     (let hash = hash + hash_char c;
          hash = hash + push_bit 10 hash;
          hash = hash XOR drop_bit 6 hash
      in hash_loop cs hash)"

fun dictionary_hash :: "string option \<Rightarrow> u32" where
  "dictionary_hash None = 0"
| "dictionary_hash (Some key) =
     (let hash = hash_loop key 0;
          hash = hash + push_bit 3 hash;
          hash = hash XOR drop_bit 11 hash;
          hash = hash + push_bit 15 hash
      in hash)"

definition dictionary_new :: "nat \<Rightarrow> mem \<Rightarrow> dictionary option \<times> mem" where
  "dictionary_new sz m =
     (let sz = (if sz < DICTMINSZ then DICTMINSZ else sz) in
      case malloc_ok m of (ok, m) \<Rightarrow>
        if \<not> ok then (None, m)
        else case calloc sz None m of (v, m) \<Rightarrow>
             case calloc sz None m of (k, m) \<Rightarrow>
             case calloc sz 0 m of (h, m) \<Rightarrow>
             (Some \<lparr>d_n = 0, d_size = sz, d_val = array_of v, d_key = array_of k, d_hash = array_of h\<rparr>, m))"

text \<open>
  The loop over the slots that frees the strings: it reads \<open>key[i]\<close> and \<open>val[i]\<close> for every index
  up to the size. The whole object is gone afterwards, so the result is only whether every access
  was in range.
\<close>

function del_loop :: "dictionary \<Rightarrow> nat \<Rightarrow> unit option" where
  "del_loop d i =
     (if i < d_size d then do {
        _ \<leftarrow> nth_opt (d_key d) i;
        _ \<leftarrow> nth_opt (d_val d) i;
        del_loop d (Suc i)
      } else Some ())"
  by pat_completeness auto
termination by (relation "measure (\<lambda>(d, i). d_size d - i)") auto

fun dictionary_del :: "dictionary option \<Rightarrow> unit option" where
  "dictionary_del None = Some ()"
| "dictionary_del (Some d) = del_loop d 0"

text \<open>
  The search that \<open>dictionary_get\<close>, \<open>dictionary_set\<close> and \<open>dictionary_unset\<close> share: the index of
  the slot with the key, or the size if there is none. Comparing with a NULL key is undefined.
\<close>

function dict_scan :: "dictionary \<Rightarrow> string option \<Rightarrow> u32 \<Rightarrow> nat \<Rightarrow> nat option" where
  "dict_scan d key hash i =
     (if i < d_size d then do {
        k \<leftarrow> nth_opt (d_key d) i;
        (case k of
           None \<Rightarrow> dict_scan d key hash (Suc i)
         | Some k' \<Rightarrow> do {
             h \<leftarrow> nth_opt (d_hash d) i;
             (if hash = h
              then do { s \<leftarrow> key; (if s = k' then Some i else dict_scan d key hash (Suc i)) }
              else dict_scan d key hash (Suc i))
           })
      } else Some i)"
  by pat_completeness auto
termination by (relation "measure (\<lambda>(d, key, hash, i). d_size d - i)") auto

definition dictionary_get :: "dictionary option \<Rightarrow> string option \<Rightarrow> cstr \<Rightarrow> cstr option" where
  "dictionary_get dp key def = do {
     d \<leftarrow> dp;
     i \<leftarrow> dict_scan d key (dictionary_hash key) 0;
     (if i < d_size d then do { v \<leftarrow> nth_opt (d_val d) i; Some (cstr_of v) } else Some def)
   }"

text \<open>
  The first empty slot from \<open>i\<close> on, wrapping at the size. The loop has no bound of its own: it ends
  only if there is an empty slot.
\<close>

partial_function (option) free_slot :: "dictionary \<Rightarrow> nat \<Rightarrow> nat option" where
  "free_slot d i = do {
     k \<leftarrow> nth_opt (d_key d) i;
     (case k of
        None \<Rightarrow> Some i
      | Some _ \<Rightarrow> free_slot d (if Suc i = d_size d then 0 else Suc i))
   }"

declare free_slot.simps [code]

definition dict_insert :: "dictionary \<Rightarrow> string option \<Rightarrow> string option \<Rightarrow> u32 \<Rightarrow> mem
    \<Rightarrow> (int \<times> dictionary option \<times> mem) option" where
  "dict_insert d key v hash m = do {
     i \<leftarrow> (if d_n d < 0 then None else free_slot d (nat (d_n d)));
     (case xstrdup key m of (k', m) \<Rightarrow>
      case xstrdup v m of (v', m) \<Rightarrow> do {
        ks \<leftarrow> upd_opt (d_key d) i k';
        vs \<leftarrow> upd_opt (d_val d) i v';
        hs \<leftarrow> upd_opt (d_hash d) i hash;
        n' \<leftarrow> (if d_n d < INT_MAX then Some (d_n d + 1) else None);
        Some (0, Some (d\<lparr>d_key := ks, d_val := vs, d_hash := hs, d_n := n'\<rparr>), m)
      })
   }"

definition dictionary_set :: "dictionary option \<Rightarrow> string option \<Rightarrow> string option \<Rightarrow> mem
    \<Rightarrow> (int \<times> dictionary option \<times> mem) option" where
  "dictionary_set dp key v m =
     (case (dp, key) of
        (Some d, Some _) \<Rightarrow> (let hash = dictionary_hash key in do {
          i \<leftarrow> (if 0 < d_n d then dict_scan d key hash 0 else Some (d_size d));
          (if i < d_size d
           then do {
             _ \<leftarrow> nth_opt (d_val d) i;
             (case xstrdup v m of (v', m) \<Rightarrow> do {
               vs \<leftarrow> upd_opt (d_val d) i v';
               Some (0, Some (d\<lparr>d_val := vs\<rparr>), m)
             })
           }
           else if d_n d = int (d_size d)
           then do {
             (r, d', m) \<leftarrow> dictionary_grow d m;
             (if r \<noteq> 0 then Some (-1, Some d', m) else dict_insert d' key v hash m)
           }
           else dict_insert d key v hash m)
        })
      | _ \<Rightarrow> Some (-1, dp, m))"

definition dictionary_unset :: "dictionary option \<Rightarrow> string option \<Rightarrow> dictionary option option" where
  "dictionary_unset dp key =
     (case (dp, key) of
        (Some d, Some _) \<Rightarrow> do {
          i \<leftarrow> dict_scan d key (dictionary_hash key) 0;
          (if d_size d \<le> i then Some (Some d)
           else do {
             ks \<leftarrow> upd_opt (d_key d) i None;
             vs \<leftarrow> upd_opt (d_val d) i None;
             hs \<leftarrow> upd_opt (d_hash d) i 0;
             Some (Some (d\<lparr>d_key := ks, d_val := vs, d_hash := hs, d_n := d_n d - 1\<rparr>))
           })
        }
      | _ \<Rightarrow> Some dp)"

text \<open>Dumping to a stream, modelled by the text written to it so far (\<open>None\<close> for a NULL stream).\<close>

definition pad_left :: "nat \<Rightarrow> string \<Rightarrow> string" where
  "pad_left w s = replicate (w - length s) (CHR '' '') @ s"

fun undef_val :: "string option \<Rightarrow> string" where
  "undef_val None = ''UNDEF''"
| "undef_val (Some v) = v"

definition dump_entry :: "string \<Rightarrow> string option \<Rightarrow> string" where
  "dump_entry k v = pad_left 20 k @ [CHR 0x09] @ ''['' @ undef_val v @ '']'' @ [CHR 0x0A]"

function dump_loop :: "dictionary \<Rightarrow> nat \<Rightarrow> string \<Rightarrow> string option" where
  "dump_loop d i out =
     (if i < d_size d then do {
        k \<leftarrow> nth_opt (d_key d) i;
        (case k of
           None \<Rightarrow> dump_loop d (Suc i) out
         | Some k' \<Rightarrow> do {
             v \<leftarrow> nth_opt (d_val d) i;
             dump_loop d (Suc i) (out @ dump_entry k' v)
           })
      } else Some out)"
  by pat_completeness auto
termination by (relation "measure (\<lambda>(d, i, out). d_size d - i)") auto

definition dictionary_dump :: "dictionary option \<Rightarrow> string option \<Rightarrow> string option option" where
  "dictionary_dump dp out =
     (case (dp, out) of
        (Some d, Some f) \<Rightarrow>
          (if d_n d < 1 then Some (Some (f @ ''empty dictionary'' @ [CHR 0x0A]))
           else map_option Some (dump_loop d 0 f))
      | _ \<Rightarrow> Some out)"

declare dictionary_hash.simps(2) [simp del] del_loop.simps [simp del] dict_scan.simps [simp del] dump_loop.simps [simp del]

section \<open>Invariant and abstraction\<close>

definition dict_wf :: "dictionary \<Rightarrow> bool" where
  "dict_wf d \<longleftrightarrow> 0 < d_size d
     \<and> length (d_val d) = d_size d \<and> length (d_key d) = d_size d \<and> length (d_hash d) = d_size d
     \<and> d_n d = int (length (filter (\<lambda>k. k \<noteq> None) (d_key d)))
     \<and> distinct (filter (\<lambda>k. k \<noteq> None) (d_key d))
     \<and> (\<forall>i<d_size d. d_key d ! i \<noteq> None \<longrightarrow> d_hash d ! i = dictionary_hash (d_key d ! i))"

text \<open>
  What is left of the invariant when allocations fail: enough for every access to stay in range
  and every loop to end.
\<close>

definition dict_safe :: "dictionary \<Rightarrow> bool" where
  "dict_safe d \<longleftrightarrow> 0 < d_size d
     \<and> length (d_val d) = d_size d \<and> length (d_key d) = d_size d \<and> length (d_hash d) = d_size d
     \<and> int (length (filter (\<lambda>k. k \<noteq> None) (d_key d))) \<le> d_n d \<and> d_n d \<le> int (d_size d)"

text \<open>The entries in the order of the slots, and the map they stand for.\<close>

definition dict_entries :: "dictionary \<Rightarrow> (string \<times> string option) list" where
  "dict_entries d = List.map_filter (\<lambda>(k, v). map_option (\<lambda>k'. (k', v)) k) (zip (d_key d) (d_val d))"

definition dict_map :: "dictionary \<Rightarrow> string \<rightharpoonup> string option" where
  "dict_map d = map_of (dict_entries d)"

section \<open>The entries as a map\<close>

lemma map_ext_iff:
  assumes "\<And>k v. m k = Some v \<longleftrightarrow> m' k = Some v"
  shows "m = m'"
proof
  fix k show "m k = m' k" using assms [of k] by (metis option.exhaust)
qed

lemma dict_wfD:
  assumes "dict_wf d"
  shows "0 < d_size d" "length (d_val d) = d_size d" "length (d_key d) = d_size d"
    "length (d_hash d) = d_size d" "d_n d = int (length (filter (\<lambda>k. k \<noteq> None) (d_key d)))"
    "distinct (filter (\<lambda>k. k \<noteq> None) (d_key d))"
    "\<And>i. i < d_size d \<Longrightarrow> d_key d ! i \<noteq> None \<Longrightarrow> d_hash d ! i = dictionary_hash (d_key d ! i)"
  using assms by (auto simp: dict_wf_def)

lemma dict_safeD:
  assumes "dict_safe d"
  shows "0 < d_size d" "length (d_val d) = d_size d" "length (d_key d) = d_size d"
    "length (d_hash d) = d_size d" "int (length (filter (\<lambda>k. k \<noteq> None) (d_key d))) \<le> d_n d"
    "d_n d \<le> int (d_size d)"
  using assms by (auto simp: dict_safe_def)

lemma dict_wf_safe: "dict_wf d \<Longrightarrow> dict_safe d"
  using length_filter_le [of _ "d_key d"] by (auto simp: dict_wf_def dict_safe_def)

lemma set_dict_entries:
  "set (dict_entries d) = {(k, v). \<exists>i < min (length (d_key d)) (length (d_val d)).
     d_key d ! i = Some k \<and> d_val d ! i = v}"
proof -
  have "(k, v) \<in> set (dict_entries d) \<longleftrightarrow> (Some k, v) \<in> set (zip (d_key d) (d_val d))" for k v
    by (force simp: dict_entries_def List.map_filter_def image_iff)
  then show ?thesis by (auto simp: in_set_zip)
qed

lemma filter_Some_zip:
  "length ks = length vs \<Longrightarrow>
   map (Some \<circ> fst) (List.map_filter (\<lambda>(k, v). map_option (\<lambda>k'. (k', v)) k) (zip ks vs))
     = filter (\<lambda>k. k \<noteq> None) ks"
  by (induction ks vs rule: list_induct2) (auto simp: map_filter_simps split: option.splits)

lemma dict_entries_keys:
  "dict_wf d \<Longrightarrow> map Some (map fst (dict_entries d)) = filter (\<lambda>k. k \<noteq> None) (d_key d)"
  using filter_Some_zip [of "d_key d" "d_val d"] dict_wfD(2,3) [of d] by (simp add: dict_entries_def)

lemma distinct_dict_entries: "dict_wf d \<Longrightarrow> distinct (map fst (dict_entries d))"
  using dict_entries_keys [of d] dict_wfD(6) [of d] by (metis distinct_map)

lemma length_dict_entries: "dict_wf d \<Longrightarrow> int (length (dict_entries d)) = d_n d"
  using arg_cong [OF dict_entries_keys, of d length] dict_wfD(5) [of d] by simp

lemma dict_map_iff:
  assumes "dict_wf d"
  shows "dict_map d k = Some v \<longleftrightarrow> (\<exists>i < d_size d. d_key d ! i = Some k \<and> d_val d ! i = v)"
  using assms distinct_dict_entries [OF assms]
  by (auto simp: dict_map_def map_of_eq_Some_iff set_dict_entries dict_wf_def)

lemma dict_map_None_iff:
  assumes "dict_wf d"
  shows "dict_map d k = None \<longleftrightarrow> (\<forall>i < d_size d. d_key d ! i \<noteq> Some k)"
  using dict_map_iff [OF assms, of k] by (metis not_None_eq)

lemma finite_dom_dict_map [simp]: "finite (dom (dict_map d))"
  by (simp add: dict_map_def finite_dom_map_of)

lemma card_dom_dict_map: "dict_wf d \<Longrightarrow> int (card (dom (dict_map d))) = d_n d"
  using length_dict_entries [of d] distinct_dict_entries [of d]
  by (simp add: dict_map_def dom_map_of_conv_image_fst distinct_card flip: set_map)

lemma dict_key_inj:
  assumes "dict_wf d" and "i < d_size d" and "j < d_size d"
    and "d_key d ! i = Some k" and "d_key d ! j = Some k"
  shows "i = j"
proof (rule ccontr)
  assume "i \<noteq> j"
  moreover have aux: False if "a < b" "b < d_size d" "d_key d ! a = Some k" "d_key d ! b = Some k" for a b
  proof -
    have b: "b < length (d_key d)" using that(2) assms(1) by (simp add: dict_wf_def)
    have "Some k \<in> set (take b (d_key d))"
      using that b by (metis in_set_conv_nth length_take min.absorb4 nth_take)
    moreover have "d_key d = take b (d_key d) @ Some k # drop (Suc b) (d_key d)"
      using id_take_nth_drop [OF b] that by simp
    then have "distinct (filter (\<lambda>k. k \<noteq> None) (take b (d_key d) @ Some k # drop (Suc b) (d_key d)))"
      using dict_wfD(6) [OF assms(1)] by simp
    ultimately show False by auto
  qed
  ultimately show False
    using assms aux [of i j] aux [of j i] by (meson linorder_neqE_nat)
qed

section \<open>Searching\<close>

lemma dict_scan_skip:
  assumes "dict_wf d" and "i < d_size d" and "d_key d ! i \<noteq> Some k"
  shows "dict_scan d (Some k) hash i = dict_scan d (Some k) hash (Suc i)"
  using assms dict_wfD(3,4) [OF assms(1)] by (subst dict_scan.simps) (auto split: option.splits)

lemma dict_scan_stop:
  assumes "dict_wf d" and "i < d_size d" and "d_key d ! i = Some k"
  shows "dict_scan d (Some k) (dictionary_hash (Some k)) i = Some i"
  using assms dict_wfD(3,4) [OF assms(1)] dict_wfD(7) [OF assms(1), of i]
  by (subst dict_scan.simps) auto

lemma dict_scan_cases:
  assumes "dict_wf d" and "i \<le> d_size d"
  shows "\<exists>j. dict_scan d (Some k) (dictionary_hash (Some k)) i = Some j \<and> i \<le> j \<and> j \<le> d_size d
    \<and> (\<forall>l. i \<le> l \<and> l < j \<longrightarrow> d_key d ! l \<noteq> Some k) \<and> (j < d_size d \<longrightarrow> d_key d ! j = Some k)"
    (is "\<exists>j. ?P i j")
  using assms(2)
proof (induction rule: inc_induct)
  case base
  then show ?case by (intro exI [of _ "d_size d"]) (auto simp: dict_scan.simps)
next
  case (step i)
  then obtain j where j: "?P (Suc i) j" by blast
  show ?case
  proof (cases "d_key d ! i = Some k")
    case True
    with step show ?thesis by (intro exI [of _ i]) (auto simp: dict_scan_stop [OF assms(1)])
  next
    case False
    moreover from this j have "\<forall>l. i \<le> l \<and> l < j \<longrightarrow> d_key d ! l \<noteq> Some k"
      by (metis Suc_leI le_neq_implies_less)
    ultimately show ?thesis
      using j step by (intro exI [of _ j]) (simp add: dict_scan_skip [OF assms(1)])
  qed
qed

lemma dict_scan_found:
  assumes "dict_wf d" and "i < d_size d" and "d_key d ! i = Some k"
  shows "dict_scan d (Some k) (dictionary_hash (Some k)) 0 = Some i"
  using dict_scan_cases [OF assms(1), of 0 k] assms dict_key_inj [OF assms(1)]
  by (metis le_neq_implies_less zero_le)

lemma dict_scan_absent:
  assumes "dict_wf d" and "dict_map d k = None"
  shows "dict_scan d (Some k) (dictionary_hash (Some k)) 0 = Some (d_size d)"
  using dict_scan_cases [OF assms(1), of 0 k] assms
  by (metis dict_map_None_iff le_neq_implies_less zero_le)

lemma dictionary_get_eq:
  assumes "dict_wf d"
  shows "dictionary_get (Some d) (Some k) def
    = Some (case dict_map d k of None \<Rightarrow> def | Some v \<Rightarrow> cstr_of v)"
proof (cases "dict_map d k")
  case None
  then show ?thesis by (simp add: dictionary_get_def dict_scan_absent [OF assms])
next
  case (Some v)
  then obtain i where "i < d_size d" "d_key d ! i = Some k" "d_val d ! i = v"
    using dict_map_iff [OF assms] by blast
  with Some show ?thesis
    by (simp add: dictionary_get_def dict_scan_found [OF assms] dict_wfD [OF assms])
qed

section \<open>Writing a slot\<close>

lemma filter_update_add:
  assumes "i < length xs" and "\<not> P (xs ! i)" and "P x"
  shows "length (filter P (xs[i := x])) = Suc (length (filter P xs))"
    and "distinct (filter P (xs[i := x])) \<longleftrightarrow> distinct (filter P xs) \<and> x \<notin> set xs"
proof -
  define ys zs where "ys = take i xs" and "zs = drop (Suc i) xs"
  have xs: "xs = ys @ xs ! i # zs" and upd: "xs[i := x] = ys @ x # zs"
    using assms(1) by (auto simp: ys_def zs_def id_take_nth_drop upd_conv_take_nth_drop)
  have f: "filter P xs = filter P ys @ filter P zs"
    by (subst xs) (simp add: assms(2))
  show "length (filter P (xs[i := x])) = Suc (length (filter P xs))"
    unfolding upd f using assms(3) by simp
  have "x \<in> set xs \<longleftrightarrow> x \<in> set ys \<or> x \<in> set zs"
    using assms(2,3) by (subst xs) auto
  then show "distinct (filter P (xs[i := x])) \<longleftrightarrow> distinct (filter P xs) \<and> x \<notin> set xs"
    unfolding upd f using assms(3) by auto
qed

lemma filter_update_remove:
  assumes "i < length xs" and "P (xs ! i)" and "\<not> P x"
  shows "Suc (length (filter P (xs[i := x]))) = length (filter P xs)"
    and "distinct (filter P xs) \<Longrightarrow> distinct (filter P (xs[i := x]))"
proof -
  define ys zs where "ys = take i xs" and "zs = drop (Suc i) xs"
  have xs: "xs = ys @ xs ! i # zs" and upd: "xs[i := x] = ys @ x # zs"
    using assms(1) by (auto simp: ys_def zs_def id_take_nth_drop upd_conv_take_nth_drop)
  have f: "filter P xs = filter P ys @ xs ! i # filter P zs"
    by (subst xs) (simp add: assms(2))
  show "Suc (length (filter P (xs[i := x]))) = length (filter P xs)"
    and "distinct (filter P xs) \<Longrightarrow> distinct (filter P (xs[i := x]))"
    unfolding upd f using assms(3) by auto
qed

text \<open>The three ways the operations write a slot, on a well-formed dictionary.\<close>

definition fill_slot :: "nat \<Rightarrow> string \<Rightarrow> string option \<Rightarrow> dictionary \<Rightarrow> dictionary" where
  "fill_slot i k v d = d\<lparr>d_key := (d_key d)[i := Some k], d_val := (d_val d)[i := v],
     d_hash := (d_hash d)[i := dictionary_hash (Some k)], d_n := d_n d + 1\<rparr>"

definition clear_slot :: "nat \<Rightarrow> dictionary \<Rightarrow> dictionary" where
  "clear_slot i d = d\<lparr>d_key := (d_key d)[i := None], d_val := (d_val d)[i := None],
     d_hash := (d_hash d)[i := 0], d_n := d_n d - 1\<rparr>"

definition revalue_slot :: "nat \<Rightarrow> string option \<Rightarrow> dictionary \<Rightarrow> dictionary" where
  "revalue_slot i v d = d\<lparr>d_val := (d_val d)[i := v]\<rparr>"

lemma dict_map_at: "dict_wf d \<Longrightarrow> i < d_size d \<Longrightarrow> d_key d ! i = Some k \<Longrightarrow> dict_map d k = Some (d_val d ! i)"
  by (auto simp: dict_map_iff)

lemma dict_map_other:
  assumes "dict_wf d" and "dict_wf d'" and "d_size d' = d_size d" and "k' \<noteq> k"
    and "\<And>j. j < d_size d \<Longrightarrow> j \<noteq> i \<Longrightarrow> d_key d' ! j = d_key d ! j \<and> d_val d' ! j = d_val d ! j"
    and "d_key d ! i \<noteq> Some k'" and "d_key d' ! i \<noteq> Some k'"
  shows "dict_map d' k' = dict_map d k'"
proof -
  have "dict_map d' k' = Some v \<longleftrightarrow> dict_map d k' = Some v" for v
    unfolding dict_map_iff [OF assms(1)] dict_map_iff [OF assms(2)] assms(3)
    using assms(5-7) by metis
  then show ?thesis by (metis option.exhaust)
qed

lemma fill_slot:
  assumes wf: "dict_wf d" and i: "i < d_size d" "d_key d ! i = None" and new: "dict_map d k = None"
  shows "dict_wf (fill_slot i k v d)" and "dict_map (fill_slot i k v d) = (dict_map d)(k \<mapsto> v)"
proof -
  note W = dict_wfD [OF wf]
  have il: "i < length (d_key d)" "i < length (d_val d)" "i < length (d_hash d)" using i W by auto
  have nin: "Some k \<notin> set (d_key d)"
    using new W(3) by (auto simp: dict_map_None_iff [OF wf] in_set_conv_nth)
  show wf': "dict_wf (fill_slot i k v d)"
    using W il i nin by (auto simp: dict_wf_def fill_slot_def nth_list_update filter_update_add)
  have "dict_map (fill_slot i k v d) k' = (if k' = k then Some v else dict_map d k')" for k'
    using dict_map_at [OF wf', of i k] dict_map_other [OF wf wf', of k' k i] i il
    by (auto simp: fill_slot_def)
  then show "dict_map (fill_slot i k v d) = (dict_map d)(k \<mapsto> v)" by auto
qed

lemma clear_slot:
  assumes wf: "dict_wf d" and i: "i < d_size d" "d_key d ! i = Some k"
  shows "dict_wf (clear_slot i d)" and "dict_map (clear_slot i d) = (dict_map d)(k := None)"
proof -
  note W = dict_wfD [OF wf]
  have il: "i < length (d_key d)" "i < length (d_val d)" "i < length (d_hash d)" using i W by auto
  have "Suc (length (filter (\<lambda>k. k \<noteq> None) ((d_key d)[i := None]))) = length (filter (\<lambda>k. k \<noteq> None) (d_key d))"
    "distinct (filter (\<lambda>k. k \<noteq> None) ((d_key d)[i := None]))"
    using filter_update_remove [OF il(1), of "\<lambda>k. k \<noteq> None" None] i W(6) by auto
  then show wf': "dict_wf (clear_slot i d)"
    using W il i by (auto simp: dict_wf_def clear_slot_def nth_list_update)
  have "d_key (clear_slot i d) ! j \<noteq> Some k" if "j < d_size d" for j
    using that i il dict_key_inj [OF wf i(1) that i(2)] by (auto simp: clear_slot_def nth_list_update)
  then have "dict_map (clear_slot i d) k = None"
    unfolding dict_map_None_iff [OF wf'] by (simp add: clear_slot_def)
  moreover have "dict_map (clear_slot i d) k' = dict_map d k'" if "k' \<noteq> k" for k'
    using that i il by (intro dict_map_other [OF wf wf', of _ k i]) (auto simp: clear_slot_def)
  ultimately show "dict_map (clear_slot i d) = (dict_map d)(k := None)" by auto
qed

lemma revalue_slot:
  assumes wf: "dict_wf d" and i: "i < d_size d" "d_key d ! i = Some k"
  shows "dict_wf (revalue_slot i v d)" and "dict_map (revalue_slot i v d) = (dict_map d)(k \<mapsto> v)"
proof -
  note W = dict_wfD [OF wf]
  show wf': "dict_wf (revalue_slot i v d)" using W by (auto simp: dict_wf_def revalue_slot_def)
  have "dict_map (revalue_slot i v d) k = Some v"
    using dict_map_at [OF wf', of i k] i W by (simp add: revalue_slot_def)
  moreover have "dict_map (revalue_slot i v d) k' = dict_map d k'" if "k' \<noteq> k" for k'
    using that i W by (intro dict_map_other [OF wf wf', of _ k i]) (auto simp: revalue_slot_def)
  ultimately show "dict_map (revalue_slot i v d) = (dict_map d)(k \<mapsto> v)" by auto
qed

section \<open>Growing and inserting\<close>

definition grown :: "dictionary \<Rightarrow> dictionary" where
  "grown d = d\<lparr>d_size := d_size d * 2, d_val := d_val d @ replicate (d_size d) None,
     d_key := d_key d @ replicate (d_size d) None, d_hash := d_hash d @ replicate (d_size d) 0\<rparr>"

lemma memcpy_prefix:
  "length xs = k \<Longrightarrow> memcpy (replicate (k * 2) z) 0 xs 0 (int k) = Some (xs @ replicate k z)"
  using memcpy_nat [of 0 k "replicate (k * 2) z" 0 xs] by (simp flip: replicate_add add: mult_2_right)

lemma dictionary_grow_eq:
  assumes "dict_wf d"
  shows "dictionary_grow d m
    = (case (malloc_ok m) of (a, m1) \<Rightarrow> case malloc_ok m1 of (b, m2) \<Rightarrow> case malloc_ok m2 of (c, m3) \<Rightarrow>
        Some (if a \<and> b \<and> c then (0, grown d, m3) else (-1, d, m3)))"
  by (auto simp: dictionary_grow_def memcpy_prefix dict_wfD [OF assms] grown_def split: prod.splits)

lemma grown:
  assumes wf: "dict_wf d"
  shows "dict_wf (grown d)" and "dict_map (grown d) = dict_map d"
    and "d_key (grown d) ! d_size d = None"
proof -
  note W = dict_wfD [OF wf]
  show wf': "dict_wf (grown d)"
    using W by (auto simp: dict_wf_def grown_def nth_append)
  show "d_key (grown d) ! d_size d = None" using W by (simp add: grown_def nth_append)
  have "zip (d_key (grown d)) (d_val (grown d))
      = zip (d_key d) (d_val d) @ replicate (d_size d) (None, None)"
    using W by (simp add: grown_def)
  then have "dict_entries (grown d) = dict_entries d"
    by (simp add: dict_entries_def List.map_filter_def)
  then show "dict_map (grown d) = dict_map d" by (simp add: dict_map_def)
qed

text \<open>
  The search for an empty slot ends as soon as there is one: \<open>m\<close> counts the slots to pass.
\<close>

lemma free_slot_ends:
  assumes "length (d_key d) = d_size d" and "i < d_size d" and "d_key d ! ((i + m) mod d_size d) = None"
  shows "\<exists>j. free_slot d i = Some j \<and> j < d_size d \<and> d_key d ! j = None"
  using assms(2,3)
proof (induction m arbitrary: i)
  case 0
  then show ?case using assms(1) by (subst free_slot.simps) auto
next
  case (Suc m)
  define i' where "i' = (if Suc i = d_size d then 0 else Suc i)"
  have i': "i' < d_size d" using Suc.prems(1) by (auto simp: i'_def)
  have "(i' + m) mod d_size d = (i + Suc m) mod d_size d"
    by (cases "Suc i = d_size d") (simp_all add: i'_def flip: add_Suc)
  then have "\<exists>j. free_slot d i' = Some j \<and> j < d_size d \<and> d_key d ! j = None"
    using Suc.IH [OF i'] Suc.prems by simp
  then show ?case
    using Suc.prems(1) assms(1) by (subst free_slot.simps) (auto simp: i'_def split: option.splits)
qed

lemma free_slot_exists:
  assumes safe: "dict_safe d" and "d_n d < int (d_size d)"
  shows "\<exists>j. free_slot d (nat (d_n d)) = Some j \<and> j < d_size d \<and> d_key d ! j = None"
proof -
  note W = dict_safeD [OF safe]
  have n: "nat (d_n d) < d_size d" using assms W by auto
  obtain e where e: "e < d_size d" "d_key d ! e = None"
  proof -
    have "\<not> list_all (\<lambda>k. k \<noteq> None) (d_key d)"
      using assms(2) W(3,5) by (metis filter_True less_irrefl list_all_iff order_le_less_trans)
    then show ?thesis using that W(3) by (auto simp: list_all_length)
  qed
  have "(nat (d_n d) + (e + d_size d - nat (d_n d))) mod d_size d = e" using n e by simp
  then show ?thesis
    using free_slot_ends [OF W(3) n, of "e + d_size d - nat (d_n d)"] e by simp
qed

lemma dict_insert_eq:
  assumes wf: "dict_wf d" and room: "d_n d < int (d_size d)" "d_n d < INT_MAX"
    and dup: "xstrdup (Some k) m = (Some k, m')" "xstrdup v m' = (v, m'')"
    and new: "dict_map d k = None"
  shows "\<exists>d'. dict_insert d (Some k) v (dictionary_hash (Some k)) m = Some (0, Some d', m'')
    \<and> dict_wf d' \<and> dict_map d' = (dict_map d)(k \<mapsto> v)"
proof -
  note W = dict_wfD [OF wf]
  obtain j where j: "free_slot d (nat (d_n d)) = Some j" "j < d_size d" "d_key d ! j = None"
    using free_slot_exists [OF dict_wf_safe [OF wf] room(1)] by blast
  have "dict_insert d (Some k) v (dictionary_hash (Some k)) m = Some (0, Some (fill_slot j k v d), m'')"
    using j(1,2) W room dup by (simp add: dict_insert_def fill_slot_def del: xstrdup.simps)
  with fill_slot [OF wf j(2,3) new] show ?thesis by blast
qed

section \<open>What the operations do\<close>

lemma xstrdup_all_ok: "all_ok m \<Longrightarrow> \<exists>m'. xstrdup s m = (s, m') \<and> all_ok m'"
  using malloc_all_ok [of m] by (cases s) auto

lemma dictionary_grow_all_ok:
  assumes "dict_wf d" and "all_ok m"
  shows "\<exists>m'. dictionary_grow d m = Some (0, grown d, m') \<and> all_ok m'"
proof -
  obtain m1 m2 m3 where "malloc_ok m = (True, m1)" "malloc_ok m1 = (True, m2)"
    "malloc_ok m2 = (True, m3)" "all_ok m3"
    using assms(2) by (metis malloc_all_ok)
  then show ?thesis by (simp add: dictionary_grow_eq [OF assms(1)])
qed

lemma dict_insert_all_ok:
  assumes "dict_wf d" and "d_n d < int (d_size d)" "d_n d < INT_MAX" and "all_ok m"
    and "dict_map d k = None"
  shows "\<exists>d' m'. dict_insert d (Some k) v (dictionary_hash (Some k)) m = Some (0, Some d', m')
    \<and> dict_wf d' \<and> dict_map d' = (dict_map d)(k \<mapsto> v) \<and> all_ok m'"
proof -
  obtain m' m'' where "xstrdup (Some k) m = (Some k, m')" "xstrdup v m' = (v, m'')" "all_ok m''"
    using xstrdup_all_ok assms(4) by metis
  then show ?thesis using dict_insert_eq [OF assms(1-3) _ _ assms(5)] by metis
qed

lemma dict_set_scan:
  assumes "dict_wf d"
  shows "(if 0 < d_n d then dict_scan d (Some k) (dictionary_hash (Some k)) 0 else Some (d_size d))
    = dict_scan d (Some k) (dictionary_hash (Some k)) 0"
proof (cases "0 < d_n d")
  case False
  then have "card (dom (dict_map d)) = 0" using card_dom_dict_map [OF assms] by linarith
  then have "dict_map d k = None" by simp
  then show ?thesis using False dict_scan_absent [OF assms] by simp
qed simp

lemma dictionary_set_absent:
  assumes wf: "dict_wf d" and "dict_map d k = None"
  shows "dictionary_set (Some d) (Some k) v m
    = (if d_n d = int (d_size d)
       then dictionary_grow d m \<bind> (\<lambda>(r, d', m). if r \<noteq> 0 then Some (-1, Some d', m)
              else dict_insert d' (Some k) v (dictionary_hash (Some k)) m)
       else dict_insert d (Some k) v (dictionary_hash (Some k)) m)"
  by (simp only: dictionary_set_def prod.case option.case Let_def dict_set_scan [OF wf]
      dict_scan_absent [OF assms]) simp

lemma dictionary_set_ok:
  assumes wf: "dict_wf d" and room: "d_n d < INT_MAX" and ok: "all_ok m"
  shows "\<exists>d' m'. dictionary_set (Some d) (Some k) v m = Some (0, Some d', m')
    \<and> dict_wf d' \<and> dict_map d' = (dict_map d)(k \<mapsto> v) \<and> all_ok m'"
proof (cases "dict_map d k")
  case None
  note eq = dictionary_set_absent [OF wf None, of v m]
  show ?thesis
  proof (cases "d_n d = int (d_size d)")
    case True
    obtain m' where g: "dictionary_grow d m = Some (0, grown d, m')" "all_ok m'"
      using dictionary_grow_all_ok [OF wf ok] by blast
    have "d_n (grown d) < int (d_size (grown d))" "d_n (grown d) < INT_MAX"
      using True room dict_wfD(1) [OF wf] by (auto simp: grown_def)
    from dict_insert_all_ok [OF grown(1) [OF wf] this g(2), of k v] grown(2) [OF wf] None True g
    show ?thesis by (auto simp: eq)
  next
    case False
    then have "d_n d < int (d_size d)" using dict_safeD(6) [OF dict_wf_safe [OF wf]] by simp
    from dict_insert_all_ok [OF wf this room ok None, of v] False
    show ?thesis by (auto simp: eq)
  qed
next
  case (Some w)
  then obtain i where i: "i < d_size d" "d_key d ! i = Some k"
    using dict_map_iff [OF wf] by blast
  obtain m' where "xstrdup v m = (v, m')" "all_ok m'" using xstrdup_all_ok [OF ok] by blast
  then have "dictionary_set (Some d) (Some k) v m = Some (0, Some (revalue_slot i v d), m')"
    using i dict_wfD(2) [OF wf]
    by (simp add: dictionary_set_def dict_set_scan [OF wf] dict_scan_found [OF wf i] revalue_slot_def)
  with revalue_slot [OF wf i] \<open>all_ok m'\<close> show ?thesis by blast
qed

lemma dictionary_unset_ok:
  assumes wf: "dict_wf d"
  shows "\<exists>d'. dictionary_unset (Some d) (Some k) = Some (Some d')
    \<and> dict_wf d' \<and> dict_map d' = (dict_map d)(k := None)"
proof (cases "dict_map d k")
  case None
  then show ?thesis
    using wf dict_scan_absent [OF wf None] by (auto simp: dictionary_unset_def)
next
  case (Some w)
  then obtain i where i: "i < d_size d" "d_key d ! i = Some k"
    using dict_map_iff [OF wf] by blast
  then have "dictionary_unset (Some d) (Some k) = Some (Some (clear_slot i d))"
    using dict_wfD [OF wf] by (simp add: dictionary_unset_def dict_scan_found [OF wf i] clear_slot_def)
  with clear_slot [OF wf i] show ?thesis by blast
qed

section \<open>The dictionary keeps the contract of a store\<close>

definition empty_dict :: "nat \<Rightarrow> dictionary" where
  "empty_dict sz = \<lparr>d_n = 0, d_size = sz, d_val = replicate sz None, d_key = replicate sz None,
     d_hash = replicate sz 0\<rparr>"

lemma empty_dict:
  shows "0 < sz \<Longrightarrow> dict_wf (empty_dict sz)" and "dict_map (empty_dict sz) = Map.empty"
  by (auto simp: dict_wf_def empty_dict_def dict_map_def dict_entries_def List.map_filter_def)

lemma one_entry_dict:
  assumes "i < sz"
  shows "dict_wf (fill_slot i k v (empty_dict sz))"
    and "dict_map (fill_slot i k v (empty_dict sz)) = [k \<mapsto> v]"
proof -
  have "d_size (empty_dict sz) = sz" "d_key (empty_dict sz) ! i = None" "0 < sz"
    using assms by (auto simp: empty_dict_def)
  then show "dict_wf (fill_slot i k v (empty_dict sz))"
    "dict_map (fill_slot i k v (empty_dict sz)) = [k \<mapsto> v]"
    using fill_slot [OF empty_dict(1), of sz i k v] empty_dict(2) [of sz] assms by auto
qed

lemma dictionary_new_all_ok:
  assumes "all_ok m"
  shows "\<exists>m'. dictionary_new sz m = (Some (empty_dict (max sz DICTMINSZ)), m') \<and> all_ok m'"
proof -
  obtain m1 m2 m3 m4 where "malloc_ok m = (True, m1)" "malloc_ok m1 = (True, m2)"
    "malloc_ok m2 = (True, m3)" "malloc_ok m3 = (True, m4)" "all_ok m4"
    using assms by (metis malloc_all_ok)
  then show ?thesis by (simp add: dictionary_new_def empty_dict_def max_def)
qed

definition dict_put :: "string \<Rightarrow> string option \<Rightarrow> dictionary \<Rightarrow> dictionary option" where
  "dict_put k v d =
     (case dictionary_set (Some d) (Some k) v [] of
        Some (r, d', _) \<Rightarrow> (if r = 0 then d' else None)
      | None \<Rightarrow> None)"

definition dict_del :: "string \<Rightarrow> dictionary \<Rightarrow> dictionary option" where
  "dict_del k d = Option.bind (dictionary_unset (Some d) (Some k)) id"

definition dict_get :: "string \<Rightarrow> dictionary \<Rightarrow> string option option option" where
  "dict_get k d = map_option (case_cstr (Some None) (\<lambda>s. Some (Some s)) None)
     (dictionary_get (Some d) (Some k) CInvalid)"

lemma case_cstr_of [simp]:
  "(case cstr_of v of CNull \<Rightarrow> a | CStr s \<Rightarrow> f s | CInvalid \<Rightarrow> b) = (case v of None \<Rightarrow> a | Some s \<Rightarrow> f s)"
  by (cases v) auto

interpretation dict: assoc_store dict_wf dict_map "nat INT_MAX" dict_put dict_del dict_get
proof
  fix d k v
  assume wf: "dict_wf d"
  show "finite (dom (dict_map d))" by simp
  show "\<exists>d'. dict_del k d = Some d' \<and> dict_wf d' \<and> dict_map d' = (dict_map d)(k := None)"
    using dictionary_unset_ok [OF wf, of k] by (auto simp: dict_del_def)
  show "dict_get k d = Some (dict_map d k)"
    by (auto simp: dict_get_def dictionary_get_eq [OF wf] split: option.splits)
  assume "card (dom (dict_map d)) < nat INT_MAX"
  then have "d_n d < INT_MAX" using card_dom_dict_map [OF wf] by simp
  then show "\<exists>d'. dict_put k v d = Some d' \<and> dict_wf d' \<and> dict_map d' = (dict_map d)(k \<mapsto> v)"
    using dictionary_set_ok [OF wf _ all_ok_Nil, of k v] by (auto simp: dict_put_def)
qed

section \<open>Safety when allocations fail\<close>

lemma length_filter_update: "length (filter P (xs[i := x])) \<le> Suc (length (filter P xs))"
proof (cases "i < length xs")
  case True
  then have "filter P (xs[i := x]) = filter P (take i xs) @ (if P x then [x] else []) @ filter P (drop (Suc i) xs)"
    by (simp add: upd_conv_take_nth_drop)
  moreover have "filter P xs = filter P (take i xs) @ (if P (xs ! i) then [xs ! i] else []) @ filter P (drop (Suc i) xs)"
    using True by (subst id_take_nth_drop [OF True]) (simp del: append_take_drop_id)
  ultimately show ?thesis by simp
qed (simp add: list_update_beyond)

lemma dict_scan_safe:
  assumes safe: "dict_safe d" and "i \<le> d_size d"
  shows "\<exists>j \<le> d_size d. dict_scan d (Some k) h i = Some j \<and> (j < d_size d \<longrightarrow> d_key d ! j = Some k)"
  using assms(2)
proof (induction rule: inc_induct)
  case base
  then show ?case by (simp add: dict_scan.simps)
next
  case (step i)
  then show ?case
    using dict_safeD(3,4) [OF safe]
    by (subst dict_scan.simps, cases "d_key d ! i") auto
qed

lemma dict_insert_safe:
  assumes safe: "dict_safe d" and n: "d_n d < int (d_size d)" "d_n d < INT_MAX"
  shows "\<exists>r d' m'. dict_insert d key v h m = Some (r, Some d', m') \<and> dict_safe d' \<and> d_n d' = d_n d + 1"
proof -
  note S = dict_safeD [OF safe]
  obtain j where j: "free_slot d (nat (d_n d)) = Some j" "j < d_size d"
    using free_slot_exists [OF safe n(1)] by blast
  obtain k' m1 where k': "xstrdup key m = (k', m1)" by fastforce
  obtain v' m2 where v': "xstrdup v m1 = (v', m2)" by fastforce
  have "0 \<le> d_n d" using S(5) by linarith
  then show ?thesis
    using j S n length_filter_update [of "\<lambda>k. k \<noteq> None" "d_key d" j k']
    by (simp add: dict_insert_def k' v' dict_safe_def)
qed

lemma dictionary_grow_safe:
  assumes safe: "dict_safe d" and n: "d_n d = int (d_size d)"
  shows "\<exists>r d' m'. dictionary_grow d m = Some (r, d', m') \<and> dict_safe d' \<and> d_n d' = d_n d
    \<and> (r = 0 \<longrightarrow> d_n d' < int (d_size d'))"
proof -
  obtain a m1 where m1: "malloc_ok m = (a, m1)" by fastforce
  obtain b m2 where m2: "malloc_ok m1 = (b, m2)" by fastforce
  obtain c m3 where m3: "malloc_ok m2 = (c, m3)" by fastforce
  show ?thesis
    using safe n by (auto simp: dictionary_grow_def m1 m2 m3 memcpy_prefix dict_safe_def)
qed

lemma dictionary_set_safe:
  assumes safe: "dict_safe d" and n: "d_n d < INT_MAX"
  shows "\<exists>r d' m'. dictionary_set (Some d) (Some k) v m = Some (r, Some d', m') \<and> dict_safe d'
    \<and> d_n d' \<le> d_n d + 1"
proof -
  note S = dict_safeD [OF safe]
  define h where "h = dictionary_hash (Some k)"
  obtain i where i: "(if 0 < d_n d then dict_scan d (Some k) h 0 else Some (d_size d)) = Some i"
    using dict_scan_safe [OF safe, of 0 k h] by force
  obtain v' m' where v': "xstrdup v m = (v', m')" by fastforce
  note eq = dictionary_set_def Let_def prod.case option.case h_def [symmetric] i bind.bind_lunit
  consider (old) "i < d_size d" | (full) "\<not> i < d_size d" "d_n d = int (d_size d)"
    | (room) "\<not> i < d_size d" "d_n d < int (d_size d)"
    using S(6) by linarith
  then show ?thesis
  proof cases
    case old
    then show ?thesis using safe S unfolding eq by (simp add: v' dict_safe_def)
  next
    case full
    from dictionary_grow_safe [OF safe full(2), of m] obtain r d' m' where g:
      "dictionary_grow d m = Some (r, d', m')" "dict_safe d'" "d_n d' = d_n d"
      "r = 0 \<longrightarrow> d_n d' < int (d_size d')" by blast
    then show ?thesis
      using full n dict_insert_safe [of d' "Some k" v h m'] unfolding eq by (cases "r = 0") auto
  next
    case room
    then show ?thesis using dict_insert_safe [OF safe room(2) n, of "Some k" v h m] unfolding eq by auto
  qed
qed

lemma dictionary_unset_safe:
  assumes safe: "dict_safe d"
  shows "\<exists>d'. dictionary_unset (Some d) (Some k) = Some (Some d') \<and> dict_safe d' \<and> d_n d' \<le> d_n d"
proof -
  note S = dict_safeD [OF safe]
  obtain i where i: "dict_scan d (Some k) (dictionary_hash (Some k)) 0 = Some i"
    "i < d_size d \<longrightarrow> d_key d ! i = Some k"
    using dict_scan_safe [OF safe, of 0 k] by blast
  show ?thesis
  proof (cases "i < d_size d")
    case True
    then have "Suc (length (filter (\<lambda>k. k \<noteq> None) ((d_key d)[i := None]))) = length (filter (\<lambda>k. k \<noteq> None) (d_key d))"
      using i S by (intro filter_update_remove) auto
    then show ?thesis using True i S by (simp add: dictionary_unset_def dict_safe_def)
  next
    case False
    then show ?thesis using safe i by (simp add: dictionary_unset_def)
  qed
qed

lemma dictionary_get_safe:
  assumes safe: "dict_safe d"
  shows "\<exists>r. dictionary_get (Some d) (Some k) def = Some r"
  using dict_scan_safe [OF safe, of 0 k "dictionary_hash (Some k)"] dict_safeD(2) [OF safe]
  by (auto simp: dictionary_get_def)

lemma del_loop_safe:
  assumes "dict_safe d" and "i \<le> d_size d"
  shows "del_loop d i = Some ()"
  using assms(2)
proof (induction rule: inc_induct)
  case base
  then show ?case by (simp add: del_loop.simps)
next
  case (step i)
  then show ?case using dict_safeD(2,3) [OF assms(1)] by (subst del_loop.simps) simp
qed

text \<open>A session in which each call draws the allocation outcomes it needs.\<close>

fun dict_exec :: "dictionary \<Rightarrow> mem \<Rightarrow> (string, string option) map_op list \<Rightarrow> (dictionary \<times> mem) option" where
  "dict_exec d m [] = Some (d, m)"
| "dict_exec d m (Put k v # ops) = do {
     (_, dp, m') \<leftarrow> dictionary_set (Some d) (Some k) v m;
     d' \<leftarrow> dp;
     dict_exec d' m' ops
   }"
| "dict_exec d m (Del k # ops) = do {
     dp \<leftarrow> dictionary_unset (Some d) (Some k);
     d' \<leftarrow> dp;
     dict_exec d' m ops
   }"
| "dict_exec d m (Get k # ops) = do {
     _ \<leftarrow> dictionary_get (Some d) (Some k) CInvalid;
     dict_exec d m ops
   }"

lemma dict_exec_safe:
  assumes "dict_safe d" and "d_n d + int (length ops) \<le> INT_MAX"
  shows "\<exists>d' m'. dict_exec d m ops = Some (d', m') \<and> dict_safe d'"
  using assms
proof (induction ops arbitrary: d m)
  case (Cons op ops)
  show ?case
  proof (cases op)
    case (Put k v)
    have "d_n d < INT_MAX" using Cons.prems(2) by simp
    from dictionary_set_safe [OF Cons.prems(1) this, of k v m] obtain r d' m' where
      "dictionary_set (Some d) (Some k) v m = Some (r, Some d', m')" "dict_safe d'" "d_n d' \<le> d_n d + 1"
      by blast
    then show ?thesis using Cons.IH [of d' m'] Cons.prems(2) Put by simp
  next
    case (Del k)
    from dictionary_unset_safe [OF Cons.prems(1), of k] obtain d' where
      "dictionary_unset (Some d) (Some k) = Some (Some d')" "dict_safe d'" "d_n d' \<le> d_n d" by blast
    then show ?thesis using Cons.IH [of d' m] Cons.prems(2) Del by simp
  next
    case (Get k)
    then show ?thesis
      using dictionary_get_safe [OF Cons.prems(1), of k CInvalid] Cons.IH [of d m] Cons.prems by auto
  qed
qed simp

section \<open>Dumping\<close>

lemma drop_map_filter_slots:
  assumes "i < length ks" and "length vs = length ks"
  shows "List.map_filter (\<lambda>(k, v). map_option (\<lambda>k'. (k', v)) k) (zip (drop i ks) (drop i vs))
    = (case ks ! i of None \<Rightarrow> [] | Some k \<Rightarrow> [(k, vs ! i)])
      @ List.map_filter (\<lambda>(k, v). map_option (\<lambda>k'. (k', v)) k) (zip (drop (Suc i) ks) (drop (Suc i) vs))"
  using assms by (simp flip: Cons_nth_drop_Suc add: map_filter_simps split: option.splits)

lemma dump_loop_eq:
  assumes "dict_wf d" and "i \<le> d_size d"
  shows "dump_loop d i out = Some (out @ concat (map (\<lambda>(k, v). dump_entry k v)
    (List.map_filter (\<lambda>(k, v). map_option (\<lambda>k'. (k', v)) k) (zip (drop i (d_key d)) (drop i (d_val d))))))"
  using assms(2)
proof (induction arbitrary: out rule: inc_induct)
  case base
  then show ?case using dict_wfD(2,3) [OF assms(1)] by (simp add: dump_loop.simps map_filter_simps)
next
  case (step i)
  then show ?case
    using dict_wfD(2,3) [OF assms(1)] drop_map_filter_slots [of i "d_key d" "d_val d"]
    by (subst dump_loop.simps) (auto split: option.splits)
qed

section \<open>Properties\<close>

text \<open>Without NULL values in the operations and at the start there are none at the end.\<close>

lemma spec_run_no_null:
  assumes "None \<notin> ran m" "\<forall>k. Put k None \<notin> set ops"
  shows "None \<notin> ran (snd (spec_run m ops))"
  using assms
proof (induction m ops rule: spec_run.induct)
  case (2 m k v ops)
  then obtain w where "v = Some w" by (cases v) auto
  then have "None \<notin> ran (m(k \<mapsto> v))" using 2(2) by (auto simp: ran_def)
  then show ?case using 2(1,3) by (simp del: fun_upd_apply)
next
  case (3 m k ops)
  have "None \<notin> ran (m(k := None))" using 3(2) by (auto simp: ran_def)
  then show ?case using 3(1,3) by (simp del: fun_upd_apply)
qed (auto split: prod.splits)

text \<open>
  C4: Any session of \<open>dictionary_set\<close> with values that are not NULL, \<open>dictionary_unset\<close> and \<open>dictionary_get\<close> on
  a well-formed dictionary without NULL values, too short to overflow the entry counter and with enough
  memory, succeeds, answers every lookup as a finite map does, and leaves a well-formed dictionary that
  stands for the final map, again without NULL values. Growth, hash collisions and reused slots are
  covered. (Of a NULL value the header says that it deletes the key; the code stores it.)
\<close>

theorem dictionary_session:
  assumes "dict_wf d" "None \<notin> ran (dict_map d)" "\<forall>k. Put k None \<notin> set ops"
    and "card (dom (dict_map d)) + length ops \<le> nat INT_MAX"
  shows "\<exists>d'. map_run dict_put dict_del dict_get d ops = Some (fst (spec_run (dict_map d) ops), d')
    \<and> dict_wf d' \<and> dict_map d' = snd (spec_run (dict_map d) ops) \<and> None \<notin> ran (dict_map d')"
  using dict.session [OF assms(1,4)] spec_run_no_null [OF assms(2,3)] by auto

theorem dictionary_session_witness:
  "\<exists>d'. map_run dict_put dict_del dict_get (empty_dict 1)
      [Put ''a'' (Some ''1''), Put ''b'' (Some ''3''), Put ''a'' (Some ''2''), Get ''a'', Del ''a'', Get ''a'', Get ''b'']
    = Some ([Some (Some ''2''), None, Some (Some ''3'')], d') \<and> dict_wf d' \<and> dict_map d' = [''b'' \<mapsto> Some ''3'']"
  using dictionary_session [OF empty_dict(1), of 1
      "[Put ''a'' (Some ''1''), Put ''b'' (Some ''3''), Put ''a'' (Some ''2''), Get ''a'', Del ''a'', Get ''a'', Get ''b'']"]
  by (auto simp: empty_dict INT_MAX_def fun_upd_twist)

text \<open>
  \<open>dictionary_set\<close> with enough memory returns 0 and makes \<open>dictionary_get\<close> return the new value
  (NULL included) for that key and what it returned before for every other key, whatever the default.
\<close>

theorem dictionary_set_get:
  assumes "dict_wf d" and "d_n d < INT_MAX" and "all_ok m"
  shows "\<exists>d' m'. dictionary_set (Some d) (Some k) v m = Some (0, Some d', m') \<and> dict_wf d'
    \<and> (\<forall>k' def. dictionary_get (Some d') (Some k') def
          = (if k' = k then Some (cstr_of v) else dictionary_get (Some d) (Some k') def))"
proof -
  from dictionary_set_ok [OF assms, of k v] obtain d' m' where
    "dictionary_set (Some d) (Some k) v m = Some (0, Some d', m')" "dict_wf d'"
    "dict_map d' = (dict_map d)(k \<mapsto> v)" by blast
  then show ?thesis by (auto simp: dictionary_get_eq assms(1))
qed

theorem dictionary_set_get_witness:
  "\<exists>d' m'. dictionary_set (Some (empty_dict 128)) (Some ''db:ip'') (Some ''10.0.0.1'') []
      = Some (0, Some d', m') \<and> dict_wf d'
    \<and> dictionary_get (Some d') (Some ''db:ip'') CNull = Some (CStr ''10.0.0.1'')"
  using dictionary_set_get [OF empty_dict(1) [of 128], of "[]" "''db:ip''" "Some ''10.0.0.1''"]
  by (auto simp: empty_dict_def INT_MAX_def)

text \<open>
  C5: On a dictionary whose arrays exist, as \<open>dictionary_new\<close> makes it when its own allocations succeed, and
  whose counter the session cannot overflow: whatever later allocations fail, no session of
  \<open>dictionary_set\<close>, \<open>dictionary_unset\<close> and \<open>dictionary_get\<close> accesses an array out of range or loops, and the
  dictionary it leaves keeps its arrays and can be deleted with \<open>dictionary_del\<close>.
\<close>

theorem dictionary_memory_safe:
  assumes "dict_safe d" and "d_n d + int (length ops) \<le> INT_MAX"
  shows "\<exists>d' m'. dict_exec d m ops = Some (d', m') \<and> dict_safe d' \<and> dictionary_del (Some d') = Some ()"
  using dict_exec_safe [OF assms, of m] del_loop_safe [of _ 0] by auto

theorem dictionary_memory_safe_witness:
  "\<exists>d' m'. dict_exec (empty_dict 1) [True, False, False, True, False]
      [Put ''a'' (Some ''1''), Put ''b'' None, Put ''a'' None, Get ''a''] = Some (d', m')
    \<and> dict_safe d' \<and> dictionary_del (Some d') = Some ()"
  using dictionary_memory_safe [OF dict_wf_safe [OF empty_dict(1)], of 1
      "[Put ''a'' (Some ''1''), Put ''b'' None, Put ''a'' None, Get ''a'']"]
  by (simp add: empty_dict_def INT_MAX_def)

text \<open>
  When a full dictionary has to grow for a new key and one of the three allocations fails,
  \<open>dictionary_set\<close> returns -1 and leaves the dictionary exactly as it was.
\<close>

theorem dictionary_set_grow_failure:
  assumes "dict_wf d" and "dict_map d k = None" and "d_n d = int (d_size d)"
    and "\<not> (a \<and> b \<and> c)"
  shows "dictionary_set (Some d) (Some k) v (a # b # c # m) = Some (-1, Some d, m)"
  using assms(3,4) unfolding dictionary_set_absent [OF assms(1,2)] dictionary_grow_eq [OF assms(1)]
  by auto

theorem dictionary_set_grow_failure_witness:
  "dictionary_set (Some (fill_slot 0 ''a'' None (empty_dict 1))) (Some ''b'') None [True, False, True]
    = Some (-1, Some (fill_slot 0 ''a'' None (empty_dict 1)), [])"
proof (rule dictionary_set_grow_failure)
  show "d_n (fill_slot 0 ''a'' None (empty_dict 1)) = int (d_size (fill_slot 0 ''a'' None (empty_dict 1)))"
    by (simp add: fill_slot_def empty_dict_def)
qed (simp_all add: one_entry_dict)

text \<open>
  A failed copy of a new key goes unnoticed: \<open>dictionary_set\<close> returns 0 and counts one more
  entry, but the entries are what they were, the key is still not found, and the counter no longer
  agrees with the entries.
\<close>

theorem dictionary_set_lost_key:
  assumes wf: "dict_wf d" and new: "dict_map d k = None" and n: "d_n d < int (d_size d)" "d_n d < INT_MAX"
  shows "\<exists>d' m'. dictionary_set (Some d) (Some k) v (False # m) = Some (0, Some d', m')
    \<and> d_n d' = d_n d + 1 \<and> d_key d' = d_key d \<and> \<not> dict_wf d'
    \<and> dictionary_get (Some d') (Some k) def = Some def"
proof -
  note W = dict_wfD [OF wf]
  obtain j where j: "free_slot d (nat (d_n d)) = Some j" "j < d_size d" "d_key d ! j = None"
    using free_slot_exists [OF dict_wf_safe [OF wf] n(1)] by blast
  obtain v' m' where v': "xstrdup v m = (v', m')" by fastforce
  define d' where "d' = d\<lparr>d_val := (d_val d)[j := v'], d_hash := (d_hash d)[j := dictionary_hash (Some k)],
    d_n := d_n d + 1\<rparr>"
  have "(d_key d)[j := None] = d_key d" using j(3) by (metis list_update_id)
  then have eq: "dictionary_set (Some d) (Some k) v (False # m) = Some (0, Some d', m')"
    using n j W v' by (simp add: dictionary_set_absent [OF wf new] dict_insert_def d'_def)
  have "dict_safe d'" using W n by (simp add: dict_safe_def d'_def)
  from dict_scan_safe [OF this, of 0 k "dictionary_hash (Some k)"] new
  have "dictionary_get (Some d') (Some k) def = Some def"
    by (auto simp: dictionary_get_def dict_map_None_iff [OF wf] d'_def)
  moreover have "\<not> dict_wf d'" using W(5) by (simp add: dict_wf_def d'_def)
  ultimately show ?thesis using eq by (auto simp: d'_def)
qed

theorem dictionary_set_lost_key_witness:
  "\<exists>d' m'. dictionary_set (Some (empty_dict 1)) (Some ''k'') (Some ''v'') [False] = Some (0, Some d', m')
    \<and> d_n d' = 1 \<and> \<not> dict_wf d' \<and> dictionary_get (Some d') (Some ''k'') CInvalid = Some CInvalid"
proof -
  have "dict_map (empty_dict 1) ''k'' = None" "d_n (empty_dict 1) < int (d_size (empty_dict 1))"
    "d_n (empty_dict 1) < INT_MAX" and 0: "d_n (empty_dict 1) = 0"
    using empty_dict(2) [of 1] by (auto simp: empty_dict_def INT_MAX_def)
  from dictionary_set_lost_key [OF empty_dict(1) this(1-3), of "Some ''v''" "[]" CInvalid] 0
  show ?thesis by auto
qed

text \<open>
  \<open>dictionary_dump\<close> prints one line for each entry in slot order, with \<open>UNDEF\<close> for a NULL value,
  and the line \<open>empty dictionary\<close> when there is none.
\<close>

theorem dictionary_dump_entries:
  assumes "dict_wf d"
  shows "dictionary_dump (Some d) (Some out)
    = Some (Some (out @ (if dict_entries d = [] then ''empty dictionary'' @ [CHR 0x0A]
        else concat (map (\<lambda>(k, v). dump_entry k v) (dict_entries d)))))"
proof -
  have "dump_loop d 0 out = Some (out @ concat (map (\<lambda>(k, v). dump_entry k v) (dict_entries d)))"
    using dump_loop_eq [OF assms, of 0 out] by (simp add: dict_entries_def)
  moreover have "d_n d < 1 \<longleftrightarrow> dict_entries d = []"
    using length_dict_entries [OF assms] by (cases "dict_entries d") auto
  ultimately show ?thesis by (simp add: dictionary_dump_def)
qed

theorem dictionary_dump_entries_witness:
  "dictionary_dump (Some (fill_slot 1 ''imi:model'' None (empty_dict 2))) (Some ''>'')
    = Some (Some (''>           imi:model'' @ [CHR 0x09] @ ''[UNDEF]'' @ [CHR 0x0A]))"
proof -
  have "dict_wf (fill_slot 1 ''imi:model'' None (empty_dict 2))"
    by (simp add: one_entry_dict)
  from dictionary_dump_entries [OF this, of "''>''"] show ?thesis
    by (simp add: dict_entries_def fill_slot_def empty_dict_def dump_entry_def pad_left_def
        map_filter_simps numeral_eq_Suc)
qed

end
