(* ===== verification/C_Stdio.thy ===== *)
theory C_Stdio
  imports C_Prelude
begin

text \<open>Reading lines from a file or a terminal, shared by the ini parser, the settings database and the chat programs.\<close>

text \<open>
  An input stream: what is left to read and the end-of-file flag, which is set by an attempt to read
  beyond the last character. \<open>fgets\<close> reads at most \<open>sz - 1\<close> characters, up to a newline.
\<close>

record stream =
  st_rest :: string
  st_eof :: bool

fun fgets_chars :: "nat \<Rightarrow> string \<Rightarrow> string \<times> stream" where
  "fgets_chars 0 inp = ([], \<lparr>st_rest = inp, st_eof = False\<rparr>)"
| "fgets_chars (Suc k) [] = ([], \<lparr>st_rest = [], st_eof = True\<rparr>)"
| "fgets_chars (Suc k) (c # cs) =
     (if c = CHR 0x0A then ([c], \<lparr>st_rest = cs, st_eof = False\<rparr>)
      else case fgets_chars k cs of (r, st) \<Rightarrow> (c # r, st))"

fun fgets :: "int \<Rightarrow> string \<Rightarrow> (string \<times> stream) option" where
  "fgets sz inp =
     (if sz \<le> 0 then None
      else case fgets_chars (nat (sz - 1)) inp of (r, st) \<Rightarrow> if r = [] \<and> st_eof st then None else Some (r, st))"

lemma fgets_chars_facts:
  "fgets_chars k inp = (r, st) \<Longrightarrow> inp = r @ st_rest st \<and> length r \<le> k
    \<and> (st_eof st \<longrightarrow> length r < k) \<and> (r = [] \<longrightarrow> k = 0 \<or> st_eof st)"
  by (induction k inp arbitrary: r st rule: fgets_chars.induct) (auto split: if_splits prod.splits)

lemma fgets_facts:
  assumes "fgets sz inp = Some (chunk, st)" and "2 \<le> sz"
  shows "chunk \<noteq> []" "inp = chunk @ st_rest st" "int (length chunk) \<le> sz - 1"
    "st_eof st \<Longrightarrow> int (length chunk) < sz - 1"
proof -
  have r: "fgets_chars (nat (sz - 1)) inp = (chunk, st)" "\<not> (chunk = [] \<and> st_eof st)"
    using assms by (auto split: prod.splits if_splits)
  show "chunk \<noteq> []" "inp = chunk @ st_rest st" "int (length chunk) \<le> sz - 1"
    "st_eof st \<Longrightarrow> int (length chunk) < sz - 1"
    using fgets_chars_facts [OF r(1)] r(2) assms(2) by auto
qed

end
