(* ===== verification/Ini_Parser.thy ===== *)
theory Ini_Parser
  imports Dictionary C_Stdio
begin

text \<open>
  The ini-file parser of \<open>auto_imi_db_bin/src/iniparser.c\<close> on top of the string dictionary: queries
  and updates with case-folded keys, the two writers, the parser of one line and the loader of a
  file. The theory models the parts of the C library the code leans on (\<open>tolower\<close>, \<open>isspace\<close>,
  \<open>sscanf\<close> with literal, white-space and scan-set directives, \<open>fgets\<close> with its end-of-file flag,
  \<open>strtol\<close> with base 0) in the C locale; \<open>atof\<close> is a parameter.

  The fixed buffers are checked: a string too long for the array it is written to has no defined
  continuation. The messages given to the error callback are collected in a log.
\<close>

section \<open>The C library\<close>

definition isspace :: "char \<Rightarrow> bool" where
  "isspace c \<longleftrightarrow> c \<in> set [CHR '' '', CHR 0x09, CHR 0x0A, CHR 0x0B, CHR 0x0C, CHR 0x0D]"

text \<open>The conversions that \<open>sscanf\<close> assigns, in order; their number is what the call returns.\<close>

datatype directive = Lit char | Space | Scanset bool "char list"

fun in_scanset :: "bool \<Rightarrow> char list \<Rightarrow> char \<Rightarrow> bool" where
  "in_scanset neg cs c = (if neg then c \<notin> set cs else c \<in> set cs)"

fun sscanf :: "directive list \<Rightarrow> string \<Rightarrow> string list" where
  "sscanf [] inp = []"
| "sscanf (Lit c # ds) [] = []"
| "sscanf (Lit c # ds) (x # xs) = (if x = c then sscanf ds xs else [])"
| "sscanf (Space # ds) inp = sscanf ds (dropWhile isspace inp)"
| "sscanf (Scanset neg cs # ds) inp =
     (let t = takeWhile (in_scanset neg cs) inp
      in if t = [] then [] else t # sscanf ds (dropWhile (in_scanset neg cs) inp))"

text \<open>\<open>strtol (s, NULL, 0)\<close> for a 64-bit \<open>long\<close>: saturates at the ends of the range.\<close>

definition digit_value :: "char \<Rightarrow> nat option" where
  "digit_value c =
     (let x = of_char c :: nat in
      if 48 \<le> x \<and> x \<le> 57 then Some (x - 48)
      else if 97 \<le> x \<and> x \<le> 122 then Some (x - 87)
      else if 65 \<le> x \<and> x \<le> 90 then Some (x - 55)
      else None)"

definition is_digit :: "nat \<Rightarrow> char \<Rightarrow> bool" where
  "is_digit base c = (case digit_value c of None \<Rightarrow> False | Some x \<Rightarrow> x < base)"

definition digits_value :: "nat \<Rightarrow> string \<Rightarrow> int" where
  "digits_value base s =
     foldl (\<lambda>a c. a * int base + int (the (digit_value c))) 0 (takeWhile (is_digit base) s)"

definition strtol_magnitude :: "string \<Rightarrow> int" where
  "strtol_magnitude s =
     (case s of
        CHR ''0'' # x # h # t \<Rightarrow>
          (if (x = CHR ''x'' \<or> x = CHR ''X'') \<and> is_digit 16 h then digits_value 16 (h # t) else digits_value 8 s)
      | CHR ''0'' # _ \<Rightarrow> digits_value 8 s
      | _ \<Rightarrow> digits_value 10 s)"

definition clamp_long :: "int \<Rightarrow> int" where
  "clamp_long i = max (- (2 ^ 63)) (min (2 ^ 63 - 1) i)"

definition strtol :: "string \<Rightarrow> int" where
  "strtol s =
     (case dropWhile isspace s of
        CHR ''-'' # t \<Rightarrow> clamp_long (- strtol_magnitude t)
      | CHR ''+'' # t \<Rightarrow> clamp_long (strtol_magnitude t)
      | t \<Rightarrow> clamp_long (strtol_magnitude t))"

section \<open>Private helpers\<close>

definition ASCIILINESZ :: nat where
  "ASCIILINESZ = 1024"

datatype line_status =
  LINE_UNPROCESSED | LINE_ERROR | LINE_EMPTY | LINE_COMMENT | LINE_SECTION | LINE_VALUE

text \<open>At most \<open>len - 1\<close> characters, in lower case.\<close>

fun strlwc :: "string option \<Rightarrow> nat \<Rightarrow> string option" where
  "strlwc None len = None"
| "strlwc (Some s) len = (if len = 0 then None else Some (map tolower (take (len - 1) s)))"

definition rstrip :: "string \<Rightarrow> string" where
  "rstrip s = rev (dropWhile isspace (rev s))"

definition strstrip :: "string \<Rightarrow> string" where
  "strstrip s = rstrip (dropWhile isspace s)"

text \<open>A string written to a \<open>char\<close> array of the given size, with its NUL.\<close>

definition store :: "nat \<Rightarrow> string \<Rightarrow> string option" where
  "store sz s = (if length s < sz then Some s else None)"

section \<open>Queries and updates\<close>

definition iniparser_getstring :: "dictionary option \<Rightarrow> string option \<Rightarrow> cstr \<Rightarrow> cstr option" where
  "iniparser_getstring dp key def =
     (if dp = None \<or> key = None then Some def
      else dictionary_get dp (strlwc key (ASCIILINESZ + 1)) def)"

text \<open>Reading a number or a boolean through a NULL value is undefined.\<close>

definition iniparser_getlongint :: "dictionary option \<Rightarrow> string option \<Rightarrow> int \<Rightarrow> int option" where
  "iniparser_getlongint dp key notfound = do {
     str \<leftarrow> iniparser_getstring dp key CInvalid;
     (case str of CInvalid \<Rightarrow> Some notfound | CNull \<Rightarrow> None | CStr s \<Rightarrow> Some (strtol s))
   }"

definition iniparser_getint :: "dictionary option \<Rightarrow> string option \<Rightarrow> int \<Rightarrow> int option" where
  "iniparser_getint dp key notfound =
     map_option (\<lambda>i. sint (word_of_int i :: 32 word)) (iniparser_getlongint dp key notfound)"

definition iniparser_getdouble :: "(string \<Rightarrow> 'f) \<Rightarrow> dictionary option \<Rightarrow> string option \<Rightarrow> 'f \<Rightarrow> 'f option" where
  "iniparser_getdouble atof dp key notfound = do {
     str \<leftarrow> iniparser_getstring dp key CInvalid;
     (case str of CInvalid \<Rightarrow> Some notfound | CNull \<Rightarrow> None | CStr s \<Rightarrow> Some (atof s))
   }"

definition first_char :: "string \<Rightarrow> char" where
  "first_char s = (case s of [] \<Rightarrow> CHR 0x00 | c # _ \<Rightarrow> c)"

definition iniparser_getboolean :: "dictionary option \<Rightarrow> string option \<Rightarrow> int \<Rightarrow> int option" where
  "iniparser_getboolean dp key notfound = do {
     c \<leftarrow> iniparser_getstring dp key CInvalid;
     (case c of
        CInvalid \<Rightarrow> Some notfound
      | CNull \<Rightarrow> None
      | CStr s \<Rightarrow> Some (if first_char s \<in> set ''yY1tT'' then 1
                        else if first_char s \<in> set ''nN0fF'' then 0
                        else notfound))
   }"

definition iniparser_find_entry :: "dictionary option \<Rightarrow> string option \<Rightarrow> bool option" where
  "iniparser_find_entry ini entry = do {
     r \<leftarrow> iniparser_getstring ini entry CInvalid;
     Some (r \<noteq> CInvalid)
   }"

definition iniparser_set :: "dictionary option \<Rightarrow> string option \<Rightarrow> string option \<Rightarrow> mem
    \<Rightarrow> (int \<times> dictionary option \<times> mem) option" where
  "iniparser_set ini entry v m = dictionary_set ini (strlwc entry (ASCIILINESZ + 1)) v m"

definition iniparser_unset :: "dictionary option \<Rightarrow> string option \<Rightarrow> dictionary option option" where
  "iniparser_unset ini entry = dictionary_unset ini (strlwc entry (ASCIILINESZ + 1))"

definition iniparser_freedict :: "dictionary option \<Rightarrow> unit option" where
  "iniparser_freedict d = dictionary_del d"

section \<open>Sections and writers\<close>

text \<open>
  The loop \<open>for (i = 0; i < d->size; i++) { if (d->key[i] == NULL) continue; ... }\<close> that the queries
  and writers share, with its body as an argument.
\<close>

function each_key :: "dictionary \<Rightarrow> (nat \<Rightarrow> string \<Rightarrow> 'a \<Rightarrow> 'a option) \<Rightarrow> nat \<Rightarrow> 'a \<Rightarrow> 'a option" where
  "each_key d body i acc =
     (if i < d_size d then do {
        k \<leftarrow> nth_opt (d_key d) i;
        (case k of
           None \<Rightarrow> each_key d body (Suc i) acc
         | Some k' \<Rightarrow> do { acc' \<leftarrow> body i k' acc; each_key d body (Suc i) acc' })
      } else Some acc)"
  by pat_completeness auto
termination by (relation "measure (\<lambda>(d, body, i, acc). d_size d - i)") auto

declare each_key.simps [simp del]

definition is_section :: "string \<Rightarrow> bool" where
  "is_section k \<longleftrightarrow> CHR '':'' \<notin> set k"

definition iniparser_getnsec :: "dictionary option \<Rightarrow> int option" where
  "iniparser_getnsec dp =
     (case dp of
        None \<Rightarrow> Some (-1)
      | Some d \<Rightarrow> each_key d (\<lambda>i k nsec. Some (if is_section k then nsec + 1 else nsec)) 0 0)"

function secname_loop :: "dictionary \<Rightarrow> int \<Rightarrow> nat \<Rightarrow> int \<Rightarrow> string option option" where
  "secname_loop d n i foundsec =
     (if i < d_size d then do {
        k \<leftarrow> nth_opt (d_key d) i;
        (case k of
           None \<Rightarrow> secname_loop d n (Suc i) foundsec
         | Some k' \<Rightarrow>
             (if is_section k'
              then (if n < foundsec + 1 then Some (Some k') else secname_loop d n (Suc i) (foundsec + 1))
              else secname_loop d n (Suc i) foundsec))
      } else Some None)"
  by pat_completeness auto
termination by (relation "measure (\<lambda>(d, n, i, f). d_size d - i)") auto

declare secname_loop.simps [simp del]

definition iniparser_getsecname :: "dictionary option \<Rightarrow> int \<Rightarrow> string option option" where
  "iniparser_getsecname dp n =
     (case dp of
        None \<Rightarrow> Some None
      | Some d \<Rightarrow> if n < 0 then Some None else secname_loop d n 0 0)"

definition iniparser_dump :: "dictionary option \<Rightarrow> string option \<Rightarrow> string option option" where
  "iniparser_dump dp f =
     (case (dp, f) of
        (Some d, Some out) \<Rightarrow>
          map_option Some (each_key d (\<lambda>i k out. do {
            v \<leftarrow> nth_opt (d_val d) i;
            Some (case v of
                    Some v' \<Rightarrow> out @ ''['' @ k @ '']=['' @ v' @ '']'' @ [CHR 0x0A]
                  | None \<Rightarrow> out @ ''['' @ k @ '']=UNDEF'' @ [CHR 0x0A])
          }) 0 out)
      | _ \<Rightarrow> Some f)"

definition strncmp_eq :: "string \<Rightarrow> string \<Rightarrow> nat \<Rightarrow> bool" where
  "strncmp_eq a b k \<longleftrightarrow> take k a = take k b"

definition pad_right :: "nat \<Rightarrow> string \<Rightarrow> string" where
  "pad_right w s = s @ replicate (w - length s) (CHR '' '')"

definition value_line :: "string \<Rightarrow> string \<Rightarrow> string" where
  "value_line k v = pad_right 30 k @ '' = '' @ v @ [CHR 0x0A]"

fun empty_val :: "string option \<Rightarrow> string" where
  "empty_val None = []"
| "empty_val (Some v) = v"

definition iniparser_dumpsection_ini :: "dictionary option \<Rightarrow> string option \<Rightarrow> string option
    \<Rightarrow> string option option" where
  "iniparser_dumpsection_ini dp sp f =
     (case (dp, f) of
        (Some d, Some out) \<Rightarrow> do {
          found \<leftarrow> iniparser_find_entry dp sp;
          (if \<not> found then Some f
           else do {
             s \<leftarrow> sp;
             keym \<leftarrow> store (ASCIILINESZ + 1) (s @ '':'');
             out \<leftarrow> each_key d (\<lambda>j k out.
               if strncmp_eq k keym (length s + 1)
               then do {
                 v \<leftarrow> nth_opt (d_val d) j;
                 Some (out @ value_line (drop (length s + 1) k) (empty_val v))
               }
               else Some out) 0 (out @ [CHR 0x0A] @ ''['' @ s @ '']'' @ [CHR 0x0A]);
             Some (Some (out @ [CHR 0x0A]))
           })
        }
      | _ \<Rightarrow> Some f)"

text \<open>The sections \<open>i, i + 1, \<dots>, nsec - 1\<close>, each written after looking its name up again.\<close>

function dump_sections :: "dictionary option \<Rightarrow> int \<Rightarrow> int \<Rightarrow> string option \<Rightarrow> string option option" where
  "dump_sections dp i nsec f =
     (if i < nsec then do {
        secname \<leftarrow> iniparser_getsecname dp i;
        f' \<leftarrow> iniparser_dumpsection_ini dp secname f;
        dump_sections dp (i + 1) nsec f'
      } else Some f)"
  by pat_completeness auto
termination by (relation "measure (\<lambda>(dp, i, nsec, f). nat (nsec - i))") auto

declare dump_sections.simps [simp del]

definition iniparser_dump_ini :: "dictionary option \<Rightarrow> string option \<Rightarrow> string option option" where
  "iniparser_dump_ini dp f =
     (case (dp, f) of
        (Some d, Some out) \<Rightarrow> do {
          nsec \<leftarrow> iniparser_getnsec dp;
          (if nsec < 1
           then map_option Some (each_key d (\<lambda>i k out. do {
                  vp \<leftarrow> nth_opt (d_val d) i;
                  v \<leftarrow> vp;
                  Some (out @ k @ '' = '' @ v @ [CHR 0x0A])
                }) 0 out)
           else do {
             f' \<leftarrow> dump_sections dp 0 nsec f;
             out' \<leftarrow> f';
             Some (Some (out' @ [CHR 0x0A]))
           })
        }
      | _ \<Rightarrow> Some f)"

text \<open>The prefix \<open>section:\<close> in lower case, as \<open>strlwc\<close> and the assignment to \<open>keym[seclen]\<close> leave it.\<close>

definition section_prefix :: "string \<Rightarrow> string option" where
  "section_prefix s = (if length s \<le> ASCIILINESZ then Some (map tolower s @ '':'') else None)"

definition iniparser_getsecnkeys :: "dictionary option \<Rightarrow> string option \<Rightarrow> int option" where
  "iniparser_getsecnkeys dp sp =
     (case dp of
        None \<Rightarrow> Some 0
      | Some d \<Rightarrow> do {
          found \<leftarrow> iniparser_find_entry dp sp;
          (if \<not> found then Some 0
           else do {
             s \<leftarrow> sp;
             keym \<leftarrow> section_prefix s;
             each_key d (\<lambda>j k nkeys. Some (if strncmp_eq k keym (length s + 1) then nkeys + 1 else nkeys)) 0 0
           })
        })"

text \<open>The caller's array: writing beyond it is undefined.\<close>

definition iniparser_getseckeys :: "dictionary option \<Rightarrow> string option \<Rightarrow> string list option
    \<Rightarrow> string list option option" where
  "iniparser_getseckeys dp sp keysp =
     (case (dp, keysp) of
        (Some d, Some keys) \<Rightarrow> do {
          found \<leftarrow> iniparser_find_entry dp sp;
          (if \<not> found then Some None
           else do {
             s \<leftarrow> sp;
             keym \<leftarrow> section_prefix s;
             (_, keys') \<leftarrow> each_key d (\<lambda>j k (i, keys).
               if strncmp_eq k keym (length s + 1)
               then do { keys' \<leftarrow> upd_opt keys i k; Some (Suc i, keys') }
               else Some (i, keys)) 0 (0, keys);
             Some (Some keys')
           })
        }
      | _ \<Rightarrow> Some None)"

section \<open>Parsing one line\<close>

text \<open>The six formats of \<open>iniparser_line\<close>, directive by directive.\<close>

definition fmt_section :: "directive list" where
  "fmt_section = [Lit (CHR ''[''), Scanset True '']'']"

definition fmt_key :: "directive list" where
  "fmt_key = [Scanset True ''='', Space, Lit (CHR ''=''), Space]"

definition fmt_dquoted :: "directive list" where
  "fmt_dquoted = fmt_key @ [Lit (CHR 0x22), Scanset True [CHR 0x22], Lit (CHR 0x22)]"

definition fmt_squoted :: "directive list" where
  "fmt_squoted = fmt_key @ [Lit (CHR 0x27), Scanset True [CHR 0x27], Lit (CHR 0x27)]"

definition fmt_plain :: "directive list" where
  "fmt_plain = fmt_key @ [Scanset True '';#'']"

definition fmt_empty_comment :: "directive list" where
  "fmt_empty_comment = fmt_key @ [Scanset False '';#'']"

definition fmt_empty :: "directive list" where
  "fmt_empty = [Scanset True ''='', Space, Scanset False ''='']"

text \<open>The three output arrays of the parser; they keep their contents from line to line.\<close>

record line_out =
  lo_section :: string
  lo_key :: string
  lo_value :: string

text \<open>One \<open>sscanf\<close> into \<open>key\<close> and \<open>value\<close>: what was matched is stored, also when less than two matched.\<close>

fun scan_pair :: "directive list \<Rightarrow> string \<Rightarrow> line_out \<Rightarrow> (nat \<times> line_out) option" where
  "scan_pair fmt line lo =
     (case sscanf fmt line of
        [] \<Rightarrow> Some (0, lo)
      | [k] \<Rightarrow> do { k' \<leftarrow> store (ASCIILINESZ + 1) k; Some (1, lo\<lparr>lo_key := k'\<rparr>) }
      | k # v # _ \<Rightarrow> do {
          k' \<leftarrow> store (ASCIILINESZ + 1) k;
          v' \<leftarrow> store (ASCIILINESZ + 1) v;
          Some (2, lo\<lparr>lo_key := k', lo_value := v'\<rparr>)
        })"

text \<open>\<open>strlwc (s, s, len)\<close> on an array of the parser.\<close>

definition strlwc_in_place :: "string \<Rightarrow> nat \<Rightarrow> string" where
  "strlwc_in_place s len = (case strlwc (Some s) len of None \<Rightarrow> s | Some t \<Rightarrow> t)"

definition fold_key :: "nat \<Rightarrow> line_out \<Rightarrow> line_out" where
  "fold_key len lo = lo\<lparr>lo_key := strlwc_in_place (strstrip (lo_key lo)) len\<rparr>"

text \<open>Two formats tried in turn, as the operands of \<open>||\<close>.\<close>

definition scan_either :: "directive list \<Rightarrow> directive list \<Rightarrow> string \<Rightarrow> line_out \<Rightarrow> (bool \<times> line_out) option" where
  "scan_either fmt1 fmt2 line lo = do {
     (n1, lo) \<leftarrow> scan_pair fmt1 line lo;
     (if n1 = 2 then Some (True, lo)
      else do { (n2, lo) \<leftarrow> scan_pair fmt2 line lo; Some (n2 = 2, lo) })
   }"

definition line_section :: "string \<Rightarrow> line_out \<Rightarrow> (line_status \<times> line_out) option" where
  "line_section line lo = do {
     sec \<leftarrow> (case sscanf fmt_section line of [] \<Rightarrow> Some (lo_section lo) | t # _ \<Rightarrow> store (ASCIILINESZ + 1) t);
     Some (LINE_SECTION, lo\<lparr>lo_section := strlwc_in_place (strstrip sec) (length line)\<rparr>)
   }"

definition line_value :: "string \<Rightarrow> line_out \<Rightarrow> (line_status \<times> line_out) option" where
  "line_value line lo = do {
     (quoted, lo) \<leftarrow> scan_either fmt_dquoted fmt_squoted line lo;
     (if quoted then Some (LINE_VALUE, fold_key (length line) lo)
      else do {
        (cnt, lo) \<leftarrow> scan_pair fmt_plain line lo;
        (if cnt = 2
         then let lo = fold_key (length line) lo;
                  v = strstrip (lo_value lo);
                  v = (if v = [CHR 0x22, CHR 0x22] \<or> v = [CHR 0x27, CHR 0x27] then [] else v)
              in Some (LINE_VALUE, lo\<lparr>lo_value := v\<rparr>)
         else do {
           (special, lo) \<leftarrow> scan_either fmt_empty_comment fmt_empty line lo;
           (if special then Some (LINE_VALUE, (fold_key (length line) lo)\<lparr>lo_value := []\<rparr>)
            else Some (LINE_ERROR, lo))
         })
      })
   }"

text \<open>
  A line whose copy cannot be allocated counts as empty (\<open>strstrip (NULL)\<close> is 0).
\<close>

definition iniparser_line :: "string \<Rightarrow> line_out \<Rightarrow> mem \<Rightarrow> (line_status \<times> line_out \<times> mem) option" where
  "iniparser_line input_line lo m =
     (case xstrdup (Some input_line) m of (linep, m) \<Rightarrow>
      let line = (case linep of None \<Rightarrow> [] | Some l \<Rightarrow> strstrip l) in
      map_option (\<lambda>(sta, lo). (sta, lo, m))
        (if line = [] then Some (LINE_EMPTY, lo)
         else if hd line = CHR ''#'' \<or> hd line = CHR '';'' then Some (LINE_COMMENT, lo)
         else if hd line = CHR ''['' \<and> last line = CHR '']'' then line_section line lo
         else line_value line lo))"

section \<open>Loading a file\<close>

datatype ini_error = CannotOpen | LineTooLong nat | SyntaxError nat string | MemoryFailure

record loader =
  ld_line :: string
  ld_last :: nat
  ld_lineno :: nat
  ld_errs :: nat
  ld_mem_err :: int
  ld_out :: line_out
  ld_dict :: "dictionary option"
  ld_mem :: mem
  ld_log :: "ini_error list"

text \<open>The \<open>switch\<close> over the status of a line, the reset of the line and of \<open>last\<close>.\<close>

definition load_switch :: "loader \<Rightarrow> loader option" where
  "load_switch ld = do {
     (sta, lo, m) \<leftarrow> iniparser_line (ld_line ld) (ld_out ld) (ld_mem ld);
     (let ld = ld\<lparr>ld_out := lo, ld_mem := m\<rparr> in do {
       ld \<leftarrow> (case sta of
          LINE_SECTION \<Rightarrow> do {
            (r, d, m) \<leftarrow> dictionary_set (ld_dict ld) (Some (lo_section lo)) None m;
            Some (ld\<lparr>ld_mem_err := r, ld_dict := d, ld_mem := m\<rparr>)
          }
        | LINE_VALUE \<Rightarrow> do {
            tmp \<leftarrow> store (ASCIILINESZ * 2 + 2) (lo_section lo @ '':'' @ lo_key lo);
            (r, d, m) \<leftarrow> dictionary_set (ld_dict ld) (Some tmp) (Some (lo_value lo)) m;
            Some (ld\<lparr>ld_mem_err := r, ld_dict := d, ld_mem := m\<rparr>)
          }
        | LINE_ERROR \<Rightarrow> Some (ld\<lparr>ld_errs := ld_errs ld + 1,
              ld_log := ld_log ld @ [SyntaxError (ld_lineno ld) (ld_line ld)]\<rparr>)
        | _ \<Rightarrow> Some ld);
       Some (ld\<lparr>ld_line := [], ld_last := 0\<rparr>)
     })
   }"

text \<open>
  What follows the loop: a dictionary with syntax errors is deleted and NULL is returned.
\<close>

definition load_end :: "loader \<Rightarrow> loader option" where
  "load_end ld =
     (if ld_errs ld \<noteq> 0 then do { _ \<leftarrow> dictionary_del (ld_dict ld); Some (ld\<lparr>ld_dict := None\<rparr>) }
      else Some ld)"

partial_function (option) load_loop :: "loader \<Rightarrow> string \<Rightarrow> loader option" where
  "load_loop ld inp =
     (case fgets (int ASCIILINESZ - int (ld_last ld)) inp of
        None \<Rightarrow> load_end ld
      | Some (chunk, st) \<Rightarrow>
          (let line = cstring (take (ld_last ld) (ld_line ld) @ chunk);
               len = int (length line) - 1;
               ld = ld\<lparr>ld_lineno := ld_lineno ld + 1, ld_line := line\<rparr>
           in if len \<le> 0 then load_loop ld (st_rest st)
              else if last line \<noteq> CHR 0x0A \<and> \<not> st_eof st
              then do {
                _ \<leftarrow> dictionary_del (ld_dict ld);
                Some (ld\<lparr>ld_dict := None, ld_log := ld_log ld @ [LineTooLong (ld_lineno ld)]\<rparr>)
              }
              else (let line = rstrip line; ld = ld\<lparr>ld_line := line\<rparr>
                in if line \<noteq> [] \<and> last line = CHR 0x5C
                   then load_loop (ld\<lparr>ld_last := length line - 1\<rparr>) (st_rest st)
                   else do {
                     ld \<leftarrow> load_switch (ld\<lparr>ld_last := 0\<rparr>);
                     (if ld_mem_err ld < 0 then load_end (ld\<lparr>ld_log := ld_log ld @ [MemoryFailure]\<rparr>)
                      else load_loop ld (st_rest st))
                   })))"

declare load_loop.simps [code]

definition load_init :: "dictionary option \<Rightarrow> mem \<Rightarrow> loader" where
  "load_init d m = \<lparr>ld_line = [], ld_last = 0, ld_lineno = 0, ld_errs = 0, ld_mem_err = 0,
     ld_out = \<lparr>lo_section = [], lo_key = [], lo_value = []\<rparr>, ld_dict = d, ld_mem = m, ld_log = []\<rparr>"

text \<open>The file is its contents, or \<open>None\<close> if it cannot be opened.\<close>

definition iniparser_load :: "string option \<Rightarrow> mem \<Rightarrow> (dictionary option \<times> ini_error list \<times> mem) option" where
  "iniparser_load ininame m =
     (case ininame of
        None \<Rightarrow> Some (None, [CannotOpen], m)
      | Some contents \<Rightarrow>
          (case dictionary_new 0 m of
             (None, m) \<Rightarrow> Some (None, [], m)
           | (Some d, m) \<Rightarrow>
               map_option (\<lambda>ld. (ld_dict ld, ld_log ld, ld_mem ld)) (load_loop (load_init (Some d) m) contents)))"

text \<open>
  The function that receives the messages, a static variable: the default one, which prints to the standard
  error output, or the one that was set. The loader's log is what this function receives.
\<close>

datatype 'f error_callback = Default_Callback | User_Callback 'f

definition iniparser_set_error_callback :: "'f option \<Rightarrow> 'f error_callback" where
  "iniparser_set_error_callback errback = (case errback of None \<Rightarrow> Default_Callback | Some f \<Rightarrow> User_Callback f)"

section \<open>Loops over the entries\<close>

fun fold_opt :: "('x \<Rightarrow> 'a \<Rightarrow> 'a option) \<Rightarrow> 'x list \<Rightarrow> 'a \<Rightarrow> 'a option" where
  "fold_opt g [] acc = Some acc"
| "fold_opt g (x # xs) acc = g x acc \<bind> fold_opt g xs"

lemma fold_opt_total: "fold_opt (\<lambda>x a. Some (h x a)) xs acc = Some (fold h xs acc)"
  by (induction xs arbitrary: acc) auto

definition entries_from :: "dictionary \<Rightarrow> nat \<Rightarrow> (string \<times> string option) list" where
  "entries_from d i = List.map_filter (\<lambda>(k, v). map_option (\<lambda>k'. (k', v)) k)
     (zip (drop i (d_key d)) (drop i (d_val d)))"

lemma entries_from_0: "entries_from d 0 = dict_entries d"
  by (simp add: entries_from_def dict_entries_def)

lemma entries_from_end: "dict_wf d \<Longrightarrow> entries_from d (d_size d) = []"
  by (simp add: entries_from_def dict_wfD map_filter_simps)

lemma entries_from_step:
  assumes "dict_wf d" and "i < d_size d"
  shows "entries_from d i
    = (case d_key d ! i of None \<Rightarrow> [] | Some k \<Rightarrow> [(k, d_val d ! i)]) @ entries_from d (Suc i)"
  using drop_map_filter_slots [of i "d_key d" "d_val d"] dict_wfD(2,3) [OF assms(1)] assms(2)
  by (simp add: entries_from_def)

lemma each_key_entries:
  assumes wf: "dict_wf d"
    and body: "\<And>i k acc. i < d_size d \<Longrightarrow> d_key d ! i = Some k \<Longrightarrow> body i k acc = g (k, d_val d ! i) acc"
  shows "each_key d body 0 acc = fold_opt g (dict_entries d) acc"
proof -
  have "each_key d body i acc = fold_opt g (entries_from d i) acc" if "i \<le> d_size d" for i
    using that
  proof (induction arbitrary: acc rule: inc_induct)
    case base
    then show ?case by (simp add: each_key.simps entries_from_end [OF wf])
  next
    case (step i)
    then have "body i k = g (k, d_val d ! i)" if "d_key d ! i = Some k" for k
      using body that by auto
    moreover have "each_key d body (Suc i) = fold_opt g (entries_from d (Suc i))"
      using step.IH by (rule ext)
    ultimately show ?case
      using step.hyps dict_wfD(3) [OF wf]
      by (subst each_key.simps) (auto simp: entries_from_step [OF wf] split: option.splits)
  qed
  then show ?thesis by (simp add: entries_from_0)
qed

text \<open>The sections, in the order of the slots.\<close>

definition dict_sections :: "dictionary \<Rightarrow> string list" where
  "dict_sections d = filter is_section (map fst (dict_entries d))"

lemma fold_count: "fold (\<lambda>x n. if P x then n + 1 else n) xs (a::int) = a + int (length (filter P xs))"
  by (induction xs arbitrary: a) auto

lemma iniparser_getnsec_eq:
  assumes "dict_wf d"
  shows "iniparser_getnsec (Some d) = Some (int (length (dict_sections d)))"
proof -
  have "iniparser_getnsec (Some d)
      = fold_opt (\<lambda>e nsec. Some (if is_section (fst e) then nsec + 1 else nsec)) (dict_entries d) 0"
    unfolding iniparser_getnsec_def option.case by (rule each_key_entries [OF assms]) simp
  then show ?thesis
    by (simp add: fold_opt_total fold_count dict_sections_def filter_map o_def)
qed

lemma secname_loop_eq:
  assumes wf: "dict_wf d" and "i \<le> d_size d" and "f \<le> n"
  shows "secname_loop d n i f = Some
    (let secs = filter is_section (map fst (entries_from d i)) in
     if nat (n - f) < length secs then Some (secs ! nat (n - f)) else None)"
  using assms(2,3)
proof (induction arbitrary: f rule: inc_induct)
  case base
  then show ?case by (simp add: secname_loop.simps entries_from_end [OF wf])
next
  case (step i)
  have "nat (n - f) = Suc (nat (n - (f + 1)))" if "\<not> n < f + 1" using that by linarith
  then show ?case
    using step dict_wfD(3) [OF wf] by (subst secname_loop.simps)
      (auto simp: Let_def entries_from_step [OF wf] split: option.splits)
qed

lemma iniparser_getsecname_eq:
  assumes "dict_wf d"
  shows "iniparser_getsecname (Some d) n
    = Some (if 0 \<le> n \<and> n < int (length (dict_sections d)) then Some (dict_sections d ! nat n) else None)"
  using secname_loop_eq [OF assms, of 0 0 n]
  by (auto simp: iniparser_getsecname_def dict_sections_def entries_from_0 Let_def)

section \<open>Keys up to letter case\<close>

definition ini_fold :: "string \<Rightarrow> string" where
  "ini_fold k = map tolower (take ASCIILINESZ k)"

lemma strlwc_ini_fold [simp]: "strlwc (Some k) (ASCIILINESZ + 1) = Some (ini_fold k)"
  by (simp add: ini_fold_def)

lemma iniparser_getstring_eq:
  assumes "dict_wf d"
  shows "iniparser_getstring (Some d) (Some k) def
    = Some (case dict_map d (ini_fold k) of None \<Rightarrow> def | Some v \<Rightarrow> cstr_of v)"
  unfolding iniparser_getstring_def strlwc_ini_fold using dictionary_get_eq [OF assms] by simp

lemma iniparser_find_entry_eq:
  assumes "dict_wf d"
  shows "iniparser_find_entry (Some d) (Some k) = Some (dict_map d (ini_fold k) \<noteq> None)"
proof -
  have "cstr_of v \<noteq> CInvalid" for v by (cases v) auto
  then show ?thesis by (auto simp: iniparser_find_entry_def iniparser_getstring_eq [OF assms] split: option.splits)
qed

definition ini_put :: "string \<Rightarrow> string option \<Rightarrow> dictionary \<Rightarrow> dictionary option" where
  "ini_put k v d =
     (case iniparser_set (Some d) (Some k) v [] of
        Some (r, d', _) \<Rightarrow> (if r = 0 then d' else None)
      | None \<Rightarrow> None)"

definition ini_del :: "string \<Rightarrow> dictionary \<Rightarrow> dictionary option" where
  "ini_del k d = Option.bind (iniparser_unset (Some d) (Some k)) id"

definition ini_get :: "string \<Rightarrow> dictionary \<Rightarrow> string option option option" where
  "ini_get k d = map_option (case_cstr (Some None) (\<lambda>s. Some (Some s)) None)
     (iniparser_getstring (Some d) (Some k) CInvalid)"

interpretation ini: folded_store dict_wf dict_map "nat INT_MAX" dict_put dict_del dict_get
  ini_fold ini_put ini_del ini_get
  by unfold_locales
    (simp_all add: ini_put_def ini_del_def ini_get_def dict_put_def dict_del_def dict_get_def
      iniparser_set_def iniparser_unset_def iniparser_getstring_def ini_fold_def)

section \<open>The keys of a section\<close>

definition section_entries :: "dictionary \<Rightarrow> string \<Rightarrow> (string \<times> string option) list" where
  "section_entries d s = filter (\<lambda>(k, v). take (length s + 1) k = s @ '':'') (dict_entries d)"

lemma fold_opt_fill:
  assumes "i + length (filter P es) \<le> length keys"
  shows "fold_opt (\<lambda>e (i, keys). if P e then upd_opt keys i (f e) \<bind> (\<lambda>keys'. Some (Suc i, keys'))
      else Some (i, keys)) es (i, keys)
    = Some (i + length (filter P es),
        take i keys @ map f (filter P es) @ drop (i + length (filter P es)) keys)"
  using assms
proof (induction es arbitrary: i keys)
  case (Cons e es)
  show ?case
  proof (cases "P e")
    case True
    then have "i < length keys" using Cons.prems by simp
    then have "take (Suc i) (keys[i := f e]) = take i keys @ [f e]"
      by (simp add: take_Suc_conv_app_nth)
    then show ?thesis using Cons.IH [of "Suc i" "keys[i := f e]"] Cons.prems True by simp
  next
    case False
    then show ?thesis using Cons by simp
  qed
qed simp

lemma iniparser_getsecnkeys_eq:
  assumes wf: "dict_wf d" and "length s \<le> ASCIILINESZ"
  shows "iniparser_getsecnkeys (Some d) (Some s)
    = Some (if dict_map d (ini_fold s) = None then 0 else int (length (section_entries d (ini_fold s))))"
proof -
  have p: "section_prefix s = Some (ini_fold s @ '':'')" and l: "length (ini_fold s) = length s"
    using assms(2) by (auto simp: section_prefix_def ini_fold_def)
  have "each_key d (\<lambda>j k nkeys. Some (if strncmp_eq k (ini_fold s @ '':'') (length s + 1) then nkeys + 1 else nkeys)) 0 0
      = fold_opt (\<lambda>e nkeys. Some (if take (length s + 1) (fst e) = ini_fold s @ '':'' then nkeys + 1 else nkeys))
          (dict_entries d) (0::int)"
    by (rule each_key_entries [OF wf]) (simp add: strncmp_eq_def l)
  then show ?thesis
    by (simp add: iniparser_getsecnkeys_def iniparser_find_entry_eq [OF wf] p fold_opt_total fold_count
        section_entries_def l case_prod_unfold)
qed

lemma iniparser_getseckeys_eq:
  assumes wf: "dict_wf d" and "length s \<le> ASCIILINESZ" and found: "dict_map d (ini_fold s) \<noteq> None"
    and room: "length (section_entries d (ini_fold s)) \<le> length keys"
  shows "iniparser_getseckeys (Some d) (Some s) (Some keys)
    = Some (Some (map fst (section_entries d (ini_fold s)) @ drop (length (section_entries d (ini_fold s))) keys))"
proof -
  have p: "section_prefix s = Some (ini_fold s @ '':'')" and l: "length (ini_fold s) = length s"
    using assms(2) by (auto simp: section_prefix_def ini_fold_def)
  define P where "P = (\<lambda>e :: string \<times> string option. take (length s + 1) (fst e) = ini_fold s @ '':'')"
  have P: "section_entries d (ini_fold s) = filter P (dict_entries d)"
    by (simp add: section_entries_def P_def l case_prod_unfold)
  have "each_key d (\<lambda>j k (i, keys). if strncmp_eq k (ini_fold s @ '':'') (length s + 1)
         then do { keys' \<leftarrow> upd_opt keys i k; Some (Suc i, keys') } else Some (i, keys)) 0 (0, keys)
      = fold_opt (\<lambda>e (i, keys). if P e then upd_opt keys i (fst e) \<bind> (\<lambda>keys'. Some (Suc i, keys'))
          else Some (i, keys)) (dict_entries d) (0, keys)"
    by (rule each_key_entries [OF wf]) (auto simp: strncmp_eq_def P_def l)
  also have "\<dots> = Some (length (section_entries d (ini_fold s)),
      map fst (section_entries d (ini_fold s)) @ drop (length (section_entries d (ini_fold s))) keys)"
    using fold_opt_fill [of 0 P "dict_entries d" keys fst] room by (simp add: P)
  finally show ?thesis
    using found by (simp add: iniparser_getseckeys_def iniparser_find_entry_eq [OF wf] p)
qed

section \<open>What the writers print\<close>

definition section_text :: "dictionary \<Rightarrow> string \<Rightarrow> string" where
  "section_text d s = [CHR 0x0A] @ ''['' @ s @ '']'' @ [CHR 0x0A]
     @ concat (map (\<lambda>(k, v). value_line (drop (length s + 1) k) (empty_val v)) (section_entries d s)) @ [CHR 0x0A]"

lemma fold_append: "fold (\<lambda>e out. if P e then out @ f e else out) es out = out @ concat (map f (filter P es))"
  by (induction es arbitrary: out) auto

lemma iniparser_dumpsection_ini_eq:
  assumes wf: "dict_wf d" and "length s < ASCIILINESZ"
  shows "iniparser_dumpsection_ini (Some d) (Some s) (Some out)
    = Some (Some (if dict_map d (ini_fold s) = None then out else out @ section_text d s))"
proof -
  define P where "P = (\<lambda>e :: string \<times> string option. take (length s + 1) (fst e) = s @ '':'')"
  have P: "section_entries d s = filter P (dict_entries d)"
    by (simp add: section_entries_def P_def case_prod_unfold)
  have "each_key d (\<lambda>j k out. if strncmp_eq k (s @ '':'') (length s + 1)
         then do { v \<leftarrow> nth_opt (d_val d) j; Some (out @ value_line (drop (length s + 1) k) (empty_val v)) }
         else Some out) 0 out'
      = fold_opt (\<lambda>e out. Some (if P e then out @ value_line (drop (length s + 1) (fst e)) (empty_val (snd e)) else out))
          (dict_entries d) out'" for out'
    by (rule each_key_entries [OF wf]) (auto simp: strncmp_eq_def P_def dict_wfD(2) [OF wf])
  also have "\<dots> out' = Some (out' @ concat (map (\<lambda>(k, v). value_line (drop (length s + 1) k) (empty_val v))
      (section_entries d s)))" for out'
    unfolding fold_opt_total fold_append P by (simp add: case_prod_unfold)
  finally show ?thesis
    using assms(2) by (simp add: iniparser_dumpsection_ini_def iniparser_find_entry_eq [OF wf] store_def section_text_def)
qed

definition printable_section :: "string \<Rightarrow> bool" where
  "printable_section s \<longleftrightarrow> length s < ASCIILINESZ \<and> map tolower s = s"

lemma ini_fold_printable: "printable_section s \<Longrightarrow> ini_fold s = s"
  by (simp add: printable_section_def ini_fold_def)

lemma dict_sections_mapped:
  assumes "dict_wf d" and "s \<in> set (dict_sections d)"
  shows "dict_map d s \<noteq> None"
  using assms(2) by (auto simp: dict_sections_def dict_map_def map_of_eq_None_iff)

lemma dump_sections_eq:
  assumes wf: "dict_wf d" and ok: "\<forall>s \<in> set (dict_sections d). printable_section s"
    and "i \<le> length (dict_sections d)"
  shows "dump_sections (Some d) (int i) (int (length (dict_sections d))) (Some out)
    = Some (Some (out @ concat (map (section_text d) (drop i (dict_sections d)))))"
  using assms(3)
proof (induction arbitrary: out rule: inc_induct)
  case base
  then show ?case by (simp add: dump_sections.simps)
next
  case (step i)
  define s where "s = dict_sections d ! i"
  have s: "printable_section s" "dict_map d s \<noteq> None"
    using step.hyps ok dict_sections_mapped [OF wf, of s] by (auto simp: s_def)
  then have "iniparser_dumpsection_ini (Some d) (Some s) (Some out) = Some (Some (out @ section_text d s))"
    using iniparser_dumpsection_ini_eq [OF wf, of s out] by (auto simp: ini_fold_printable printable_section_def)
  then show ?case
    using step by (subst dump_sections.simps)
      (simp add: iniparser_getsecname_eq [OF wf] add.commute flip: s_def Cons_nth_drop_Suc)
qed

lemma iniparser_dump_ini_eq:
  assumes wf: "dict_wf d" and ok: "\<forall>s \<in> set (dict_sections d). printable_section s"
    and some: "dict_sections d \<noteq> []"
  shows "iniparser_dump_ini (Some d) (Some out)
    = Some (Some (out @ concat (map (section_text d) (dict_sections d)) @ [CHR 0x0A]))"
  using some dump_sections_eq [OF wf ok, of 0 out]
  by (simp add: iniparser_dump_ini_def iniparser_getnsec_eq [OF wf])

section \<open>Properties\<close>

text \<open>
  C9: Any session of \<open>iniparser_set\<close>, \<open>iniparser_unset\<close> and \<open>iniparser_getstring\<close> on a well-formed
  dictionary, with enough memory and too short to overflow the counter, behaves as a finite map in
  which keys that differ only in letter case (or beyond their first 1024 characters) are one key.
\<close>

theorem iniparser_session:
  assumes "dict_wf d" and "card (dom (dict_map d)) + length ops \<le> nat INT_MAX"
  defines "ops' \<equiv> map (map_map_op ini_fold id) ops"
  shows "\<exists>d'. map_run ini_put ini_del ini_get d ops = Some (fst (spec_run (dict_map d) ops'), d')
    \<and> dict_wf d' \<and> dict_map d' = snd (spec_run (dict_map d) ops')"
  unfolding ops'_def by (rule ini.folded_session [OF assms(1,2)])

theorem iniparser_session_witness:
  "\<exists>d'. map_run ini_put ini_del ini_get (empty_dict 1) [Put ''Db:IP'' (Some ''x''), Get ''dB:ip'', Get ''db:mac'']
      = Some ([Some (Some ''x''), None], d') \<and> dict_wf d' \<and> dict_map d' = [''db:ip'' \<mapsto> Some ''x'']"
proof -
  have f: "ini_fold ''Db:IP'' = ''db:ip''" "ini_fold ''dB:ip'' = ''db:ip''" "ini_fold ''db:mac'' = ''db:mac''"
    by code_simp+
  show ?thesis
    using iniparser_session [OF empty_dict(1), of 1 "[Put ''Db:IP'' (Some ''x''), Get ''dB:ip'', Get ''db:mac'']"]
    by (simp add: empty_dict INT_MAX_def f)
qed

text \<open>
  \<open>iniparser_getnsec\<close> counts the entries without a colon, and \<open>iniparser_getsecname\<close> enumerates
  them in slot order for the numbers from 0 up to that count and answers NULL for every other number.
\<close>

theorem iniparser_sections_enumerated:
  assumes "dict_wf d"
  shows "iniparser_getnsec (Some d) = Some (int (length (dict_sections d)))
    \<and> iniparser_getsecname (Some d) n
      = Some (if 0 \<le> n \<and> n < int (length (dict_sections d)) then Some (dict_sections d ! nat n) else None)"
  using iniparser_getnsec_eq [OF assms] iniparser_getsecname_eq [OF assms] by simp

theorem iniparser_sections_enumerated_witness:
  "iniparser_getnsec (Some (fill_slot 1 ''db'' None (empty_dict 2))) = Some 1
    \<and> iniparser_getsecname (Some (fill_slot 1 ''db'' None (empty_dict 2))) 0 = Some (Some ''db'')"
proof -
  have "dict_sections (fill_slot 1 ''db'' None (empty_dict 2)) = [''db'']"
    by (simp add: dict_sections_def dict_entries_def fill_slot_def empty_dict_def is_section_def
        map_filter_simps numeral_2_eq_2)
  with iniparser_sections_enumerated [of "fill_slot 1 ''db'' None (empty_dict 2)" 0]
  show ?thesis by (simp add: one_entry_dict)
qed

text \<open>
  The protocol of the two key queries: for a section that exists, \<open>iniparser_getseckeys\<close> on an
  array with the number of slots that \<open>iniparser_getsecnkeys\<close> returned stays inside the array and
  fills it with exactly the keys of the section in slot order, letter case of the argument ignored.
\<close>

theorem iniparser_seckeys_protocol:
  assumes "dict_wf d" and "length s \<le> ASCIILINESZ" and "dict_map d (ini_fold s) \<noteq> None"
    and "iniparser_getsecnkeys (Some d) (Some s) = Some (int (length keys))"
  shows "iniparser_getseckeys (Some d) (Some s) (Some keys) = Some (Some (map fst (section_entries d (ini_fold s))))"
  using iniparser_getsecnkeys_eq [OF assms(1,2)] iniparser_getseckeys_eq [OF assms(1-3), of keys] assms(3,4)
  by simp

theorem iniparser_seckeys_protocol_witness:
  "iniparser_getseckeys (Some (fill_slot 1 ''db'' None (empty_dict 2))) (Some ''DB'') (Some []) = Some (Some [])"
proof -
  let ?d = "fill_slot 1 ''db'' None (empty_dict 2)"
  have f: "ini_fold ''DB'' = ''db''" by code_simp
  have e: "section_entries ?d ''db'' = []"
    by (simp add: section_entries_def dict_entries_def fill_slot_def empty_dict_def map_filter_simps numeral_2_eq_2)
  have l: "length ''DB'' \<le> ASCIILINESZ" by (simp add: ASCIILINESZ_def)
  have "iniparser_getsecnkeys (Some ?d) (Some ''DB'') = Some (int (length []))"
    using iniparser_getsecnkeys_eq [OF one_entry_dict(1) l, of 1 2 "''db''" None]
    by (simp add: f e one_entry_dict del: One_nat_def)
  then show ?thesis
    using iniparser_seckeys_protocol [OF one_entry_dict(1) l, of 1 2 "''db''" None "[]"]
    by (simp add: f e one_entry_dict del: One_nat_def)
qed

text \<open>
  For an entry whose value is NULL, as every section is, the conversions to a number or a
  boolean dereference NULL.
\<close>

theorem iniparser_null_value:
  assumes "dict_wf d" and "dict_map d (ini_fold k) = Some None"
  shows "iniparser_getlongint (Some d) (Some k) n = None \<and> iniparser_getint (Some d) (Some k) n = None
    \<and> iniparser_getboolean (Some d) (Some k) n = None \<and> iniparser_getdouble atof (Some d) (Some k) x = None"
  using iniparser_getstring_eq [OF assms(1)] assms(2)
  by (simp add: iniparser_getlongint_def iniparser_getint_def iniparser_getboolean_def iniparser_getdouble_def)

theorem iniparser_null_value_witness:
  "iniparser_getint (Some (fill_slot 0 ''db'' None (empty_dict 1))) (Some ''db'') 7 = None"
  using iniparser_null_value [OF one_entry_dict(1), of 0 1 "''db''" None "''db''" 7 "\<lambda>_. ()" "()"]
  by (simp add: one_entry_dict ini_fold_def tolower_def ASCIILINESZ_def)

text \<open>
  \<open>iniparser_dumpsection_ini\<close> finds a section whatever the letter case of its argument, but
  prints only the keys whose stored prefix equals the argument as given: with all keys stored in
  lower case and an upper-case letter in the argument it prints a header and no keys.
\<close>

theorem iniparser_dumpsection_case:
  assumes "dict_wf d" and "length s < ASCIILINESZ" and "dict_map d (ini_fold s) \<noteq> None"
    and "\<forall>(k, v) \<in> set (dict_entries d). map tolower k = k" and "map tolower s \<noteq> s"
  shows "iniparser_dumpsection_ini (Some d) (Some s) (Some out)
    = Some (Some (out @ [CHR 0x0A] @ ''['' @ s @ '']'' @ [CHR 0x0A, CHR 0x0A]))"
proof -
  have "take (length s + 1) k \<noteq> s @ '':''" if "map tolower k = k" for k
  proof
    assume "take (length s + 1) k = s @ '':''"
    then have "take (length s) k = s" by (metis append_eq_conv_conj le_add1 min.absorb1 take_take)
    then have "map tolower s = s" using that by (metis take_map)
    then show False using assms(5) by simp
  qed
  then have "section_entries d s = []" using assms(4) by (auto simp: section_entries_def filter_empty_conv)
  then show ?thesis using iniparser_dumpsection_ini_eq [OF assms(1,2)] assms(3) by (simp add: section_text_def)
qed

theorem iniparser_dumpsection_case_witness:
  "iniparser_dumpsection_ini (Some (fill_slot 0 ''db'' None (empty_dict 1))) (Some ''DB'') (Some [])
    = Some (Some ([CHR 0x0A] @ ''[DB]'' @ [CHR 0x0A, CHR 0x0A]))"
proof -
  let ?d = "fill_slot 0 ''db'' None (empty_dict 1)"
  have f: "ini_fold ''DB'' = ''db''" "map tolower ''DB'' = ''db''" by code_simp+
  have e: "dict_entries ?d = [(''db'', None)]"
    by (simp add: dict_entries_def fill_slot_def empty_dict_def map_filter_simps)
  have "map tolower ''db'' = ''db''" by code_simp
  then have "\<forall>(k, v) \<in> set (dict_entries ?d). map tolower k = k" by (simp only: e) simp
  moreover have "map tolower ''DB'' \<noteq> ''DB''" unfolding f(2) by simp
  moreover have "dict_map ?d (ini_fold ''DB'') \<noteq> None" "length ''DB'' < ASCIILINESZ"
    by (simp_all add: f(1) one_entry_dict ASCIILINESZ_def)
  ultimately show ?thesis
    using iniparser_dumpsection_case [OF one_entry_dict(1), of 0 1 "''DB''" "''db''" None "[]"] by simp
qed

end
