(* ===== verification/Ini_Load.thy ===== *)
theory Ini_Load
  imports Ini_Parser
begin

text \<open>
  Correctness of \<open>iniparser_line\<close> and \<open>iniparser_load\<close> (\<open>auto_imi_db_bin/src/iniparser.c\<close>): what the
  loader makes of a file built from blank lines, section headers and \<open>key = value\<close> lines, that
  loading what \<open>iniparser_dump_ini\<close> wrote gives the entries back, and that the loader is memory safe
  and ends on every file.
\<close>

section \<open>Lines\<close>

lemma rstrip_Nil [simp]: "rstrip [] = []"
  by (simp add: rstrip_def)

lemma rstrip_space [simp]: "isspace c \<Longrightarrow> rstrip (s @ [c]) = rstrip s"
  by (simp add: rstrip_def)

lemma rstrip_nonspace [simp]: "\<not> isspace c \<Longrightarrow> rstrip (s @ [c]) = s @ [c]"
  by (simp add: rstrip_def)

lemma rstrip_last: "s \<noteq> [] \<Longrightarrow> \<not> isspace (last s) \<Longrightarrow> rstrip s = s"
  by (metis append_butlast_last_id rstrip_nonspace)

lemma rstrip_spaces [simp]: "(\<forall>c \<in> set t. isspace c) \<Longrightarrow> rstrip (s @ t) = rstrip s"
  by (induction t rule: rev_induct) (auto simp flip: append_assoc)

lemma strstrip_tight: "s \<noteq> [] \<Longrightarrow> \<not> isspace (hd s) \<Longrightarrow> \<not> isspace (last s) \<Longrightarrow> strstrip s = s"
  by (cases s) (auto simp: strstrip_def rstrip_last)

lemma strstrip_padded:
  "s \<noteq> [] \<Longrightarrow> \<not> isspace (hd s) \<Longrightarrow> \<not> isspace (last s) \<Longrightarrow> \<forall>c \<in> set t. isspace c \<Longrightarrow> strstrip (s @ t) = s"
proof -
  assume s: "s \<noteq> []" "\<not> isspace (hd s)" "\<not> isspace (last s)" "\<forall>c \<in> set t. isspace c"
  then have "dropWhile isspace (s @ t) = s @ t" by (cases s) auto
  then show "strstrip (s @ t) = s" using s by (simp add: strstrip_def rstrip_last)
qed

lemma isspace_blank [simp]: "isspace (CHR '' '')" "isspace (CHR 0x0A)"
  "\<not> isspace (CHR ''='')" "\<not> isspace (CHR ''['')" "\<not> isspace (CHR '']'')"
  by (auto simp: isspace_def)

lemma fgets_line:
  assumes "CHR 0x0A \<notin> set l" and "length l < k"
  shows "fgets_chars k (l @ CHR 0x0A # rest) = (l @ [CHR 0x0A], \<lparr>st_rest = rest, st_eof = False\<rparr>)"
  using assms
proof (induction l arbitrary: k)
  case Nil
  then show ?case by (cases k) auto
next
  case (Cons c l)
  then show ?case by (cases k) auto
qed

text \<open>A string the readers take as one line.\<close>

definition line_ok :: "string \<Rightarrow> bool" where
  "line_ok l \<longleftrightarrow> CHR 0x0A \<notin> set l \<and> CHR 0x00 \<notin> set l \<and> length l + 2 \<le> ASCIILINESZ"

lemma cstring_line: "CHR 0x00 \<notin> set l \<Longrightarrow> cstring (l @ [CHR 0x0A]) = l @ [CHR 0x0A]"
  unfolding cstring_def by (subst takeWhile_eq_all_conv) auto

lemma load_blank:
  assumes "ld_last ld = 0"
  shows "load_loop ld (CHR 0x0A # rest)
    = load_loop (ld\<lparr>ld_lineno := ld_lineno ld + 1, ld_line := [CHR 0x0A]\<rparr>) rest"
  using fgets_line [of "[]" "1023" rest] assms
  by (subst load_loop.simps) (simp add: ASCIILINESZ_def cstring_def)

lemma load_line:
  assumes "ld_last ld = 0" and "line_ok l" and "l \<noteq> []" and "rstrip l = [] \<or> last (rstrip l) \<noteq> CHR 0x5C"
  shows "load_loop ld (l @ CHR 0x0A # rest) =
    load_switch (ld\<lparr>ld_lineno := ld_lineno ld + 1, ld_line := rstrip l, ld_last := 0\<rparr>) \<bind>
      (\<lambda>ld. if ld_mem_err ld < 0 then load_end (ld\<lparr>ld_log := ld_log ld @ [MemoryFailure]\<rparr>) else load_loop ld rest)"
  using fgets_line [of l "1023" rest] assms
  by (subst load_loop.simps) (auto simp: line_ok_def ASCIILINESZ_def cstring_line Let_def cong: if_cong)

section \<open>Parsing well-formed lines\<close>

text \<open>Names that can stand as a section or key, and values that are read back as they are.\<close>

definition tight :: "string \<Rightarrow> bool" where
  "tight s \<longleftrightarrow> s \<noteq> [] \<and> \<not> isspace (hd s) \<and> \<not> isspace (last s)"

definition section_ok :: "string \<Rightarrow> bool" where
  "section_ok s \<longleftrightarrow> tight s \<and> map tolower s = s \<and> CHR '']'' \<notin> set s \<and> line_ok (''['' @ s @ '']'')"

definition key_ok :: "string \<Rightarrow> bool" where
  "key_ok k \<longleftrightarrow> tight k \<and> map tolower k = k \<and> CHR ''='' \<notin> set k \<and> hd k \<notin> set ''#;[''"

definition value_ok :: "string \<Rightarrow> bool" where
  "value_ok v \<longleftrightarrow> v = [] \<or> (tight v \<and> CHR '';'' \<notin> set v \<and> CHR ''#'' \<notin> set v
     \<and> hd v \<noteq> CHR 0x22 \<and> hd v \<noteq> CHR 0x27 \<and> last v \<noteq> CHR 0x5C)"

definition pair_ok :: "string \<Rightarrow> string \<Rightarrow> bool" where
  "pair_ok k v \<longleftrightarrow> key_ok k \<and> value_ok v \<and> line_ok (pad_right 30 k @ '' = '' @ v)"

lemma line_section_ok:
  assumes "section_ok s"
  shows "line_section (''['' @ s @ '']'') lo = Some (LINE_SECTION, lo\<lparr>lo_section := s\<rparr>)"
proof -
  have s: "s \<noteq> []" "CHR '']'' \<notin> set s" "strstrip s = s" "map tolower s = s" "length s \<le> ASCIILINESZ"
    using assms by (auto simp: section_ok_def tight_def strstrip_tight line_ok_def)
  have "takeWhile (in_scanset True '']'') (s @ '']'') = s" using s(2) by (auto simp: takeWhile_tail)
  then have "sscanf fmt_section (''['' @ s @ '']'') = [s]" using s by (simp add: fmt_section_def)
  then show ?thesis using s by (simp add: line_section_def store_def strlwc_in_place_def)
qed

lemma iniparser_line_section:
  assumes "section_ok s" and "xstrdup (Some (''['' @ s @ '']'')) m = (Some (''['' @ s @ '']''), m')"
  shows "iniparser_line (''['' @ s @ '']'') lo m = Some (LINE_SECTION, lo\<lparr>lo_section := s\<rparr>, m')"
proof -
  have "strstrip (''['' @ s @ '']'') = ''['' @ s @ '']''"
    by (rule strstrip_tight) auto
  then show ?thesis
    unfolding iniparser_line_def assms(2) using line_section_ok [OF assms(1), of lo] by simp
qed

text \<open>The key part of a line: everything before the first equals sign.\<close>

lemma sscanf_key:
  assumes "K \<noteq> []" and "CHR ''='' \<notin> set K"
  shows "sscanf (fmt_key @ ds) (K @ ''='' @ t) = K # sscanf ds (dropWhile isspace t)"
proof -
  have "takeWhile (in_scanset True ''='') (K @ ''='' @ t) = K"
    "dropWhile (in_scanset True ''='') (K @ ''='' @ t) = ''='' @ t"
    using assms(2) by (auto simp: takeWhile_tail dropWhile_append3)
  then show ?thesis using assms(1) by (simp add: fmt_key_def isspace_blank)
qed

text \<open>A value line without its newline, split at the equals sign.\<close>

lemma pair_line_split: "pad_right 30 k @ '' = '' @ v = (k @ replicate (30 - length k) (CHR '' '') @ '' '') @ ''='' @ '' '' @ v"
  by (simp add: pad_right_def)

lemma pair_ok_facts:
  assumes "pair_ok k v"
  defines "K \<equiv> k @ replicate (30 - length k) (CHR '' '') @ '' ''"
  shows "K \<noteq> []" "CHR ''='' \<notin> set K" "store (ASCIILINESZ + 1) K = Some K" "strstrip K = k"
    "map tolower k = k" "hd K = hd k" "store (ASCIILINESZ + 1) v = Some v" "length K + 2 + length v < ASCIILINESZ"
    "length k < length K"
proof -
  have k: "tight k" "map tolower k = k" "CHR ''='' \<notin> set k" "length K + 2 + length v < ASCIILINESZ"
    using assms unfolding pair_ok_def pair_line_split by (auto simp: key_ok_def line_ok_def)
  then show "map tolower k = k" "length K + 2 + length v < ASCIILINESZ" by simp_all
  show "K \<noteq> []" "length k < length K" by (simp_all add: K_def)
  show "CHR ''='' \<notin> set K" using k(3) by (simp add: K_def)
  show "store (ASCIILINESZ + 1) K = Some K" "store (ASCIILINESZ + 1) v = Some v"
    using k(4) by (simp_all add: store_def)
  show "hd K = hd k" using k(1) by (simp add: K_def tight_def)
  show "strstrip K = k" unfolding K_def using k(1) by (intro strstrip_padded) (auto simp: tight_def)
qed

lemma fold_key_pair:
  assumes "strstrip K = k" and "map tolower k = k" and "length k < len"
  shows "fold_key len (lo\<lparr>lo_key := K\<rparr>) = lo\<lparr>lo_key := k\<rparr>"
    and "fold_key len (lo\<lparr>lo_key := K, lo_value := v\<rparr>) = lo\<lparr>lo_key := k, lo_value := v\<rparr>"
  using assms by (simp_all add: fold_key_def strlwc_in_place_def take_all)

lemma line_value_full:
  assumes ok: "pair_ok k v" and v: "v \<noteq> []"
  shows "line_value (pad_right 30 k @ '' = '' @ v) lo = Some (LINE_VALUE, lo\<lparr>lo_key := k, lo_value := v\<rparr>)"
proof -
  define K where "K = k @ replicate (30 - length k) (CHR '' '') @ '' ''"
  note F = pair_ok_facts [OF ok, folded K_def]
  have V: "\<not> isspace (hd v)" "strstrip v = v" "hd v \<noteq> CHR 0x22" "hd v \<noteq> CHR 0x27"
    "CHR '';'' \<notin> set v" "CHR ''#'' \<notin> set v"
    using ok v by (auto simp: pair_ok_def value_ok_def tight_def strstrip_tight)
  have dw: "dropWhile isspace ('' '' @ v) = v" using V(1) v by (cases v) auto
  have q: "sscanf (fmt_key @ [Lit c, s, l]) (K @ ''='' @ '' '' @ v) = [K]" if "hd v \<noteq> c" for c s l
    unfolding sscanf_key [OF F(1,2)] dw using that v by (cases v) auto
  have tw: "takeWhile (in_scanset True '';#'') v = v"
    using V(5,6) by (auto simp: takeWhile_eq_all_conv)
  have p: "sscanf fmt_plain (K @ ''='' @ '' '' @ v) = [K, v]"
    using v by (simp add: fmt_plain_def sscanf_key [OF F(1,2)] dw tw del: append.simps in_scanset.simps)
  have "v \<noteq> [CHR 0x22, CHR 0x22]" "v \<noteq> [CHR 0x27, CHR 0x27]" using V by auto
  moreover have "length k < length (K @ ''='' @ '' '' @ v)" using F(9) by simp
  ultimately show ?thesis
    unfolding pair_line_split K_def [symmetric] line_value_def scan_either_def fmt_dquoted_def fmt_squoted_def
    using F(3,7) V(2) by (simp add: q V p fold_key_pair [OF F(4,5)] del: append.simps)
qed

lemma line_value_empty:
  assumes ok: "pair_ok k []"
  shows "line_value (rstrip (pad_right 30 k @ '' = '')) lo = Some (LINE_VALUE, lo\<lparr>lo_key := k, lo_value := []\<rparr>)"
proof -
  define K where "K = k @ replicate (30 - length k) (CHR '' '') @ '' ''"
  note F = pair_ok_facts [OF ok, folded K_def]
  have line: "rstrip (pad_right 30 k @ '' = '') = K @ ''='' @ []"
    using pair_line_split [of k "[]"] rstrip_space [of "CHR '' ''" "K @ ''=''"]
      rstrip_nonspace [of "CHR ''=''" K] by (simp add: K_def)
  have q: "sscanf (fmt_key @ d # ds) (K @ ''='' @ []) = [K]" if "d \<noteq> Space" for d ds
    using that by (cases d) (simp_all add: sscanf_key [OF F(1,2)] del: append.simps append_Nil2)
  have tw: "takeWhile (in_scanset True ''='') (K @ ''='') = K"
    "dropWhile (in_scanset True ''='') (K @ ''='') = ''=''"
    using F(2) by (auto simp: takeWhile_tail dropWhile_append3)
  then have e: "sscanf fmt_empty (K @ ''='' @ []) = [K, ''='']"
    using F(1) by (simp add: fmt_empty_def)
  have "length k < length (K @ ''='' @ [])" "store (ASCIILINESZ + 1) ''='' = Some ''=''"
    using F(9) by (simp_all add: store_def ASCIILINESZ_def)
  then show ?thesis
    unfolding line line_value_def scan_either_def fmt_dquoted_def fmt_squoted_def fmt_plain_def fmt_empty_comment_def
    using F(3) by (simp add: q e fold_key_pair [OF F(4,5)] del: append.simps append_Nil2)
qed

lemma rstrip_pair_line:
  assumes ok: "pair_ok k v"
  defines "l \<equiv> rstrip (pad_right 30 k @ '' = '' @ v)"
  shows "l \<noteq> []" "hd l = hd k" "\<not> isspace (last l)" "last l \<noteq> CHR 0x5C"
    "line_value l lo = Some (LINE_VALUE, lo\<lparr>lo_key := k, lo_value := v\<rparr>)"
proof -
  define K where "K = k @ replicate (30 - length k) (CHR '' '') @ '' ''"
  note F = pair_ok_facts [OF ok, folded K_def]
  have "l \<noteq> [] \<and> hd l = hd k \<and> \<not> isspace (last l) \<and> last l \<noteq> CHR 0x5C
      \<and> line_value l lo = Some (LINE_VALUE, lo\<lparr>lo_key := k, lo_value := v\<rparr>)"
  proof (cases "v = []")
    case True
    have "l = K @ ''=''"
      using True pair_line_split [of k "[]"] rstrip_space [of "CHR '' ''" "K @ ''=''"]
        rstrip_nonspace [of "CHR ''=''" K] by (simp add: K_def l_def)
    then show ?thesis using F(1,6) line_value_empty [of k lo] ok True by (simp add: l_def)
  next
    case False
    then have v: "\<not> isspace (last v)" "last v \<noteq> CHR 0x5C"
      using ok by (auto simp: pair_ok_def value_ok_def tight_def)
    have l: "l = K @ ''='' @ '' '' @ v"
      unfolding l_def pair_line_split K_def [symmetric] using v False by (intro rstrip_last) auto
    then have "l \<noteq> []" "hd l = hd k" "last l = last v" using F(1,6) False by simp_all
    moreover from l have "line_value l lo = Some (LINE_VALUE, lo\<lparr>lo_key := k, lo_value := v\<rparr>)"
      using line_value_full [OF ok False, of lo] by (simp add: K_def pad_right_def)
    ultimately show ?thesis using v by simp
  qed
  then show "l \<noteq> []" "hd l = hd k" "\<not> isspace (last l)" "last l \<noteq> CHR 0x5C"
    "line_value l lo = Some (LINE_VALUE, lo\<lparr>lo_key := k, lo_value := v\<rparr>)" by simp_all
qed

lemma iniparser_line_pair:
  assumes ok: "pair_ok k v"
    and dup: "\<And>l. xstrdup (Some l) m = (Some l, m')"
  shows "iniparser_line (rstrip (pad_right 30 k @ '' = '' @ v)) lo m
    = Some (LINE_VALUE, lo\<lparr>lo_key := k, lo_value := v\<rparr>, m')"
proof -
  define l where "l = rstrip (pad_right 30 k @ '' = '' @ v)"
  note L = rstrip_pair_line [OF ok, folded l_def]
  have k: "\<not> isspace (hd k)" "hd k \<notin> set ''#;[''" using ok by (auto simp: pair_ok_def key_ok_def tight_def)
  then have "strstrip l = l" using L by (intro strstrip_tight) auto
  then show ?thesis
    unfolding l_def [symmetric] iniparser_line_def dup using L k by simp
qed

section \<open>Loading a file of items\<close>

datatype ini_item = Blank | Sec string | Val string string

fun item_text :: "ini_item \<Rightarrow> string" where
  "item_text Blank = [CHR 0x0A]"
| "item_text (Sec s) = ''['' @ s @ '']'' @ [CHR 0x0A]"
| "item_text (Val k v) = value_line k v"

fun item_ok :: "ini_item \<Rightarrow> bool" where
  "item_ok Blank = True"
| "item_ok (Sec s) = section_ok s"
| "item_ok (Val k v) = pair_ok k v"

text \<open>What an item means: the current section and the entries so far.\<close>

fun item_exec :: "ini_item \<Rightarrow> string \<times> (string \<rightharpoonup> string option) \<Rightarrow> string \<times> (string \<rightharpoonup> string option)" where
  "item_exec Blank (sec, M) = (sec, M)"
| "item_exec (Sec s) (sec, M) = (s, M(s \<mapsto> None))"
| "item_exec (Val k v) (sec, M) = (sec, M(sec @ '':'' @ k \<mapsto> Some v))"

definition loaded :: "loader \<Rightarrow> string \<times> (string \<rightharpoonup> string option) \<Rightarrow> bool" where
  "loaded ld sM \<longleftrightarrow> ld_last ld = 0 \<and> ld_errs ld = 0 \<and> ld_log ld = [] \<and> ld_mem_err ld = 0
     \<and> lo_section (ld_out ld) = fst sM \<and> length (fst sM) \<le> ASCIILINESZ \<and> all_ok (ld_mem ld)
     \<and> (\<exists>d. ld_dict ld = Some d \<and> dict_wf d \<and> dict_map d = snd sM)"

lemma xstrdup_uniform: "all_ok m \<Longrightarrow> \<exists>m'. all_ok m' \<and> (\<forall>l. xstrdup (Some l) m = (Some l, m'))"
  using malloc_all_ok [of m] by auto

text \<open>One entry stored from a parsed line.\<close>

lemma load_switch_set:
  assumes "loaded ld sM" and "card (dom (snd sM)) < nat INT_MAX"
    and line: "iniparser_line (ld_line ld) (ld_out ld) (ld_mem ld) = Some (sta, lo, m)" "all_ok m"
    and sta: "sta = LINE_SECTION \<and> k = lo_section lo \<and> v = None
      \<or> sta = LINE_VALUE \<and> k = lo_section lo @ '':'' @ lo_key lo \<and> v = Some (lo_value lo)
          \<and> length (lo_key lo) \<le> ASCIILINESZ"
    and sec: "length (lo_section lo) \<le> ASCIILINESZ"
  shows "\<exists>ld'. load_switch ld = Some ld' \<and> loaded ld' (lo_section lo, (snd sM)(k \<mapsto> v))"
proof -
  obtain d where d: "ld_dict ld = Some d" "dict_wf d" "dict_map d = snd sM"
    using assms(1) by (auto simp: loaded_def)
  then have "d_n d < INT_MAX" using card_dom_dict_map [OF d(2)] assms(2) by simp
  from dictionary_set_ok [OF d(2) this line(2), of k v] obtain d' m' where
    "dictionary_set (Some d) (Some k) v m = Some (0, Some d', m')" "dict_wf d'"
    "dict_map d' = (dict_map d)(k \<mapsto> v)" "all_ok m'" by blast
  then show ?thesis
    using assms(1) line sta sec d by (auto simp: load_switch_def loaded_def store_def)
qed

lemma loaded_line_no:
  "loaded (ld\<lparr>ld_lineno := n, ld_line := l, ld_last := 0\<rparr>) sM \<longleftrightarrow> loaded (ld\<lparr>ld_last := 0\<rparr>) sM"
  by (simp add: loaded_def)

lemma load_item:
  assumes ld: "loaded ld sM" and "item_ok it" and "card (dom (snd sM)) < nat INT_MAX"
  shows "\<exists>ld'. load_loop ld (item_text it @ rest) = load_loop ld' rest \<and> loaded ld' (item_exec it sM)"
proof (cases it)
  case Blank
  then show ?thesis
    using load_blank [of ld rest] ld by (cases sM) (auto simp: loaded_def)
next
  case (Sec s)
  define ld1 where "ld1 = ld\<lparr>ld_lineno := ld_lineno ld + 1, ld_line := ''['' @ s @ '']'', ld_last := 0\<rparr>"
  have s: "section_ok s" "line_ok (''['' @ s @ '']'')" using Sec assms(2) by (auto simp: section_ok_def)
  have r: "rstrip (''['' @ s @ '']'') = ''['' @ s @ '']''" by (rule rstrip_last) auto
  obtain m' where m': "all_ok m'" "\<And>l. xstrdup (Some l) (ld_mem ld1) = (Some l, m')"
    using xstrdup_uniform [of "ld_mem ld"] ld by (auto simp: loaded_def ld1_def)
  have "\<exists>ld'. load_switch ld1 = Some ld' \<and> loaded ld' (s, (snd sM)(s \<mapsto> None))"
    using load_switch_set [of ld1 sM LINE_SECTION "(ld_out ld1)\<lparr>lo_section := s\<rparr>" m' s None]
      iniparser_line_section [OF s(1) m'(2), of "ld_out ld1"] m'(1) ld assms(3) s(2)
    by (simp add: ld1_def loaded_def line_ok_def)
  then show ?thesis
    using load_line [of ld "''['' @ s @ '']''" rest] ld s(2) r Sec
    by (cases sM) (auto simp: loaded_def ld1_def)
next
  case (Val k v)
  define l where "l = pad_right 30 k @ '' = '' @ v"
  define ld1 where "ld1 = ld\<lparr>ld_lineno := ld_lineno ld + 1, ld_line := rstrip l, ld_last := 0\<rparr>"
  have kv: "pair_ok k v" "line_ok l" "l \<noteq> []" using Val assms(2) by (auto simp: pair_ok_def l_def)
  obtain m' where m': "all_ok m'" "\<And>l. xstrdup (Some l) (ld_mem ld1) = (Some l, m')"
    using xstrdup_uniform [of "ld_mem ld"] ld by (auto simp: loaded_def ld1_def)
  have "length k \<le> ASCIILINESZ" using pair_ok_facts(8,9) [OF kv(1)] by simp
  then have "\<exists>ld'. load_switch ld1 = Some ld'
      \<and> loaded ld' (fst sM, (snd sM)(fst sM @ '':'' @ k \<mapsto> Some v))"
    using load_switch_set [of ld1 sM LINE_VALUE "(ld_out ld1)\<lparr>lo_key := k, lo_value := v\<rparr>" m'
        "fst sM @ '':'' @ k" "Some v"]
      iniparser_line_pair [OF kv(1) m'(2), of "ld_out ld1", folded l_def] m'(1) ld assms(3)
    by (simp add: ld1_def loaded_def)
  moreover have "item_text it @ rest = l @ CHR 0x0A # rest" by (simp add: Val value_line_def l_def)
  ultimately show ?thesis
    using load_line [of ld l rest] ld kv rstrip_pair_line(4) [OF kv(1), folded l_def] Val
    by (cases sM) (auto simp: loaded_def ld1_def)
qed

lemma item_exec_card:
  "finite (dom (snd sM)) \<Longrightarrow> card (dom (snd (item_exec it sM))) \<le> Suc (card (dom (snd sM)))
    \<and> finite (dom (snd (item_exec it sM)))"
  by (cases sM; cases it) (auto simp: card_insert_if)

lemma load_items:
  assumes "loaded ld sM" and "\<forall>it \<in> set items. item_ok it"
    and "card (dom (snd sM)) + length items \<le> nat INT_MAX"
  shows "\<exists>ld'. load_loop ld (concat (map item_text items)) = Some ld' \<and> loaded ld' (fold item_exec items sM)"
  using assms
proof (induction items arbitrary: ld sM)
  case Nil
  then have "load_loop ld [] = Some ld"
    by (subst load_loop.simps) (simp add: loaded_def ASCIILINESZ_def load_end_def eval_nat_numeral)
  then show ?case using Nil by simp
next
  case (Cons it items)
  from load_item [OF Cons.prems(1), of it "concat (map item_text items)"] Cons.prems(2,3)
  obtain ld' where ld': "load_loop ld (item_text it @ concat (map item_text items))
      = load_loop ld' (concat (map item_text items))" "loaded ld' (item_exec it sM)" by auto
  have "finite (dom (snd sM))"
    using Cons.prems(1) finite_dom_dict_map unfolding loaded_def by metis
  then have "card (dom (snd (item_exec it sM))) + length items \<le> nat INT_MAX"
    using item_exec_card [of sM it] Cons.prems(3) by simp
  with Cons.IH [OF ld'(2)] Cons.prems(2) ld'(1) show ?case by simp
qed

lemma iniparser_load_items:
  assumes "\<forall>it \<in> set items. item_ok it" and "length items \<le> nat INT_MAX" and "all_ok m"
  shows "\<exists>d m'. iniparser_load (Some (concat (map item_text items))) m = Some (Some d, [], m')
    \<and> dict_wf d \<and> dict_map d = snd (fold item_exec items ([], Map.empty))"
proof -
  define d0 where "d0 = empty_dict DICTMINSZ"
  obtain m' where m': "dictionary_new 0 m = (Some d0, m')" "all_ok m'"
    using dictionary_new_all_ok [OF assms(3), of 0] by (auto simp: d0_def)
  have "dict_wf d0" "dict_map d0 = Map.empty"
    using empty_dict [of DICTMINSZ] by (auto simp: d0_def DICTMINSZ_def)
  then have "loaded (load_init (Some d0) m') ([], Map.empty)"
    using m'(2) by (simp add: loaded_def load_init_def)
  from load_items [OF this assms(1)] assms(2) obtain ld' where
    "load_loop (load_init (Some d0) m') (concat (map item_text items)) = Some ld'"
    "loaded ld' (fold item_exec items ([], Map.empty))" by auto
  then show ?thesis using m'(1) by (auto simp: iniparser_load_def loaded_def)
qed

section \<open>Loading what the writer wrote\<close>

text \<open>
  The dictionaries that survive: every entry is a section or a \<open>section:key\<close> pair whose section is
  an entry too, and the names and values can be written and read back.
\<close>

definition section_of :: "string \<Rightarrow> string" where
  "section_of k = takeWhile (\<lambda>c. c \<noteq> CHR '':'') k"

definition key_of :: "string \<Rightarrow> string" where
  "key_of k = tl (dropWhile (\<lambda>c. c \<noteq> CHR '':'') k)"

fun entry_ok :: "dictionary \<Rightarrow> string \<times> string option \<Rightarrow> bool" where
  "entry_ok d (k, v) =
     (if is_section k then v = None \<and> section_ok k
      else dict_map d (section_of k) \<noteq> None \<and> (case v of None \<Rightarrow> False | Some w \<Rightarrow> pair_ok (key_of k) w))"

definition ini_dict :: "dictionary \<Rightarrow> bool" where
  "ini_dict d \<longleftrightarrow> dict_wf d \<and> list_all (entry_ok d) (dict_entries d)"

lemma split_key: "\<not> is_section k \<Longrightarrow> k = section_of k @ '':'' @ key_of k"
proof -
  assume "\<not> is_section k"
  then have "dropWhile (\<lambda>c. c \<noteq> CHR '':'') k \<noteq> []" by (auto simp: is_section_def)
  then have "dropWhile (\<lambda>c. c \<noteq> CHR '':'') k = CHR '':'' # key_of k"
    unfolding key_of_def using hd_dropWhile [of "\<lambda>c. c \<noteq> CHR '':''" k]
    by (cases "dropWhile (\<lambda>c. c \<noteq> CHR '':'') k") auto
  then show ?thesis
    using takeWhile_dropWhile_id [of "\<lambda>c. c \<noteq> CHR '':''" k] by (simp add: section_of_def)
qed

lemma section_of_append: "is_section s \<Longrightarrow> section_of (s @ '':'' @ k) = s"
  unfolding section_of_def is_section_def by (auto simp: takeWhile_tail)

lemma key_of_append: "is_section s \<Longrightarrow> key_of (s @ '':'' @ k) = k"
  unfolding key_of_def is_section_def by (subst dropWhile_append2) auto

lemma section_prefix_iff:
  assumes "is_section s"
  shows "take (length s + 1) k = s @ '':'' \<longleftrightarrow> \<not> is_section k \<and> section_of k = s"
proof
  assume *: "take (length s + 1) k = s @ '':''"
  then have k: "k = s @ '':'' @ drop (length s + 1) k"
    using append_take_drop_id [of "length s + 1" k] by simp
  have "\<not> is_section (s @ '':'' @ drop (length s + 1) k)" by (simp add: is_section_def)
  then show "\<not> is_section k \<and> section_of k = s"
    using section_of_append [OF assms, of "drop (length s + 1) k"] k by metis
next
  assume "\<not> is_section k \<and> section_of k = s"
  then have "k = s @ '':'' @ key_of k" using split_key [of k] by simp
  moreover have "take (length s + 1) (s @ '':'' @ key_of k) = s @ '':''" by simp
  ultimately show "take (length s + 1) k = s @ '':''" by metis
qed

definition section_items :: "dictionary \<Rightarrow> string \<Rightarrow> ini_item list" where
  "section_items d s = [Blank, Sec s]
     @ map (\<lambda>(k, v). Val (key_of k) (empty_val v)) (filter (\<lambda>(k, v). \<not> is_section k \<and> section_of k = s) (dict_entries d))
     @ [Blank]"

definition dict_items :: "dictionary \<Rightarrow> ini_item list" where
  "dict_items d = concat (map (section_items d) (dict_sections d)) @ [Blank]"

lemma section_entries_eq:
  assumes "is_section s"
  shows "section_entries d s = filter (\<lambda>(k, v). \<not> is_section k \<and> section_of k = s) (dict_entries d)"
  unfolding section_entries_def using section_prefix_iff [OF assms] by (intro filter_cong) auto

lemma section_text_items:
  assumes "is_section s"
  shows "section_text d s = concat (map item_text (section_items d s))"
proof -
  have "value_line (drop (length s + 1) k) (empty_val v) = item_text (Val (key_of k) (empty_val v))"
    if "(k, v) \<in> set (section_entries d s)" for k v
  proof -
    have "\<not> is_section k" "section_of k = s"
      using that by (auto simp: section_entries_eq [OF assms])
    then show ?thesis using split_key [of k] by (metis append_eq_conv_conj append.assoc item_text.simps(3)
        length_append_singleton Suc_eq_plus1)
  qed
  then have eq: "map (\<lambda>(k, v). value_line (drop (length s + 1) k) (empty_val v)) (section_entries d s)
      = map (item_text \<circ> (\<lambda>(k, v). Val (key_of k) (empty_val v))) (section_entries d s)"
    by (intro map_cong) auto
  show ?thesis
    unfolding section_text_def eq by (simp add: section_items_def section_entries_eq [OF assms])
qed

lemma ini_dict_sections:
  assumes "ini_dict d" and "s \<in> set (dict_sections d)"
  shows "is_section s" "section_ok s" "printable_section s"
proof -
  obtain v where "(s, v) \<in> set (dict_entries d)" "is_section s"
    using assms(2) by (auto simp: dict_sections_def)
  then show "is_section s" "section_ok s"
    using assms(1) by (auto simp: ini_dict_def list_all_iff dest!: bspec)
  then show "printable_section s"
    by (auto simp: printable_section_def section_ok_def line_ok_def)
qed

lemma concat_map_concat: "concat (map f (concat xss)) = concat (map (\<lambda>xs. concat (map f xs)) xss)"
  by (induction xss) auto

lemma iniparser_dump_ini_items:
  assumes "ini_dict d" and "dict_sections d \<noteq> []"
  shows "iniparser_dump_ini (Some d) (Some []) = Some (Some (concat (map item_text (dict_items d))))"
proof -
  have "concat (map (section_text d) (dict_sections d))
      = concat (map (\<lambda>s. concat (map item_text (section_items d s))) (dict_sections d))"
    using ini_dict_sections(1) [OF assms(1)] section_text_items
    by (intro arg_cong [of _ _ concat] map_cong) auto
  moreover have "dict_wf d" using assms(1) by (simp add: ini_dict_def)
  ultimately show ?thesis
    using iniparser_dump_ini_eq [of d "[]"] ini_dict_sections(3) [OF assms(1)] assms(2)
    by (simp add: dict_items_def concat_map_concat o_def)
qed

text \<open>The assignments a list of items makes.\<close>

fun item_assigns :: "string \<Rightarrow> ini_item list \<Rightarrow> (string \<times> string option) list" where
  "item_assigns sec [] = []"
| "item_assigns sec (Blank # items) = item_assigns sec items"
| "item_assigns sec (Sec s # items) = (s, None) # item_assigns s items"
| "item_assigns sec (Val k v # items) = (sec @ '':'' @ k, Some v) # item_assigns sec items"

lemma fold_item_exec: "snd (fold item_exec items (sec, M)) = M ++ map_of (rev (item_assigns sec items))"
  by (induction sec items arbitrary: M rule: item_assigns.induct)
    (auto simp: map_add_def fun_eq_iff split: option.splits)

lemma item_assigns_section:
  "item_assigns sec (section_items d s @ items)
    = (s, None) # map (\<lambda>(k, v). (s @ '':'' @ key_of k, Some (empty_val v)))
        (filter (\<lambda>(k, v). \<not> is_section k \<and> section_of k = s) (dict_entries d)) @ item_assigns s items"
proof -
  have "item_assigns s (map (\<lambda>(k, v). Val (key_of k) (empty_val v)) es @ its)
      = map (\<lambda>(k, v). (s @ '':'' @ key_of k, Some (empty_val v))) es @ item_assigns s its" for es its
    by (induction es) auto
  then show ?thesis by (simp add: section_items_def)
qed

lemma map_of_graph:
  assumes "set xs = {(k, v). m k = Some v}"
  shows "map_of xs = m"
proof
  fix k show "map_of xs k = m k"
  proof (cases "m k")
    case None
    then have "k \<notin> fst ` set xs" using assms by auto
    then show ?thesis using None by (simp add: map_of_eq_None_iff)
  next
    case (Some v)
    then have "(k, v) \<in> set xs" using assms by simp
    then obtain w where "map_of xs k = Some w" using weak_map_of_SomeI by fast
    then show ?thesis using map_of_SomeD assms by fastforce
  qed
qed

lemma set_item_assigns_sections:
  "set (item_assigns sec (concat (map (section_items d) secs) @ [Blank]))
    = (\<Union>s \<in> set secs. insert (s, None) ((\<lambda>(k, v). (s @ '':'' @ key_of k, Some (empty_val v)))
        ` {(k, v) \<in> set (dict_entries d). \<not> is_section k \<and> section_of k = s}))"
  by (induction secs arbitrary: sec) (simp_all add: item_assigns_section, auto)

lemma is_section_section_of [simp]: "is_section (section_of k)"
  by (auto simp: is_section_def section_of_def dest: set_takeWhileD)

lemma dict_items_assigns:
  assumes ok: "ini_dict d"
  shows "set (item_assigns sec (dict_items d)) = set (dict_entries d)"
proof -
  have E: "entry_ok d (k, v)" if "(k, v) \<in> set (dict_entries d)" for k v
    using ok that by (auto simp: ini_dict_def list_all_iff dest!: bspec)
  have rejoin: "(section_of k @ '':'' @ key_of k, Some (empty_val v)) = (k, v)"
    if "(k, v) \<in> set (dict_entries d)" "\<not> is_section k" for k v
    using E [OF that(1)] that(2) split_key [OF that(2)] by (auto split: option.splits)
  have secs: "section_of k \<in> set (dict_sections d)" if "(k, v) \<in> set (dict_entries d)" "\<not> is_section k" for k v
    using E [OF that(1)] that(2)
    by (auto simp: dict_sections_def dict_map_def dest!: map_of_SomeD intro!: rev_image_eqI)
  show ?thesis
  proof (intro subset_antisym subsetI)
    fix e assume "e \<in> set (item_assigns sec (dict_items d))"
    then consider s where "s \<in> set (dict_sections d)" "e = (s, None)"
      | k v where "(k, v) \<in> set (dict_entries d)" "\<not> is_section k" "e = (section_of k @ '':'' @ key_of k, Some (empty_val v))"
      unfolding dict_items_def set_item_assigns_sections by auto
    then show "e \<in> set (dict_entries d)"
    proof cases
      case 1
      then show ?thesis using E by (fastforce simp: dict_sections_def)
    next
      case 2
      then show ?thesis using rejoin by simp
    qed
  next
    fix e assume e: "e \<in> set (dict_entries d)"
    obtain k v where kv: "e = (k, v)" by fastforce
    show "e \<in> set (item_assigns sec (dict_items d))"
    proof (cases "is_section k")
      case True
      then have "k \<in> set (dict_sections d)" "v = None"
        using E e kv by (force simp: dict_sections_def)+
      then show ?thesis unfolding dict_items_def set_item_assigns_sections kv by blast
    next
      case False
      then have "section_of k \<in> set (dict_sections d)" "e = (section_of k @ '':'' @ key_of k, Some (empty_val v))"
        using secs [of k v] rejoin [of k v] e kv by simp_all
      moreover have "(k, v) \<in> {(k', v) \<in> set (dict_entries d). \<not> is_section k' \<and> section_of k' = section_of k}"
        using e kv False by simp
      ultimately show ?thesis
        unfolding dict_items_def set_item_assigns_sections
        by (intro UN_I [of "section_of k"] insertI2 image_eqI [of _ _ "(k, v)"]) simp_all
    qed
  qed
qed

lemma dict_items_ok:
  assumes "ini_dict d"
  shows "\<forall>it \<in> set (dict_items d). item_ok it"
proof -
  have "item_ok (Val (key_of k) (empty_val v))"
    if "(k, v) \<in> set (dict_entries d)" "\<not> is_section k" for k v
    using assms that by (auto simp: ini_dict_def list_all_iff dest!: bspec split: option.splits)
  then show ?thesis
    using ini_dict_sections(2) [OF assms] by (auto simp: dict_items_def section_items_def)
qed

lemma dict_items_exec:
  assumes "ini_dict d"
  shows "snd (fold item_exec (dict_items d) ([], Map.empty)) = dict_map d"
proof -
  have wf: "dict_wf d" using assms by (simp add: ini_dict_def)
  have "set (rev (item_assigns [] (dict_items d))) = {(k, v). dict_map d k = Some v}"
    using dict_items_assigns [OF assms, of "[]"] distinct_dict_entries [OF wf]
    by (auto simp: dict_map_def)
  then show ?thesis by (simp add: fold_item_exec map_of_graph)
qed

section \<open>Safety and termination on every file\<close>

lemma sscanf_length: "t \<in> set (sscanf ds inp) \<Longrightarrow> length t \<le> length inp"
proof (induction ds inp rule: sscanf.induct)
  case (4 ds inp)
  then show ?case using length_dropWhile_le [of isspace inp] by fastforce
next
  case (5 neg cs ds inp)
  then show ?case
    using length_dropWhile_le [of "in_scanset neg cs" inp] length_takeWhile_le [of "in_scanset neg cs" inp]
    by (fastforce simp: Let_def split: if_splits simp del: in_scanset.simps)
qed (auto split: if_splits)

lemma rstrip_length: "length (rstrip s) \<le> length s"
  unfolding rstrip_def using length_dropWhile_le [of isspace "rev s"] by simp

lemma strstrip_length: "length (strstrip s) \<le> length s"
  unfolding strstrip_def using rstrip_length [of "dropWhile isspace s"] length_dropWhile_le [of isspace s]
  by linarith

lemma strlwc_in_place_length: "length (strlwc_in_place s len) \<le> length s"
  by (simp add: strlwc_in_place_def)

text \<open>The arrays of the parser never hold more than a line.\<close>

definition out_ok :: "line_out \<Rightarrow> bool" where
  "out_ok lo \<longleftrightarrow> length (lo_section lo) \<le> ASCIILINESZ \<and> length (lo_key lo) \<le> ASCIILINESZ"

lemma scan_pair_safe:
  assumes "length line \<le> ASCIILINESZ" and "out_ok lo"
  shows "\<exists>n lo'. scan_pair fmt line lo = Some (n, lo') \<and> out_ok lo'"
  using sscanf_length [of _ fmt line] assms
  by (force simp: store_def out_ok_def split: list.splits)

lemma scan_either_safe:
  assumes "length line \<le> ASCIILINESZ" and "out_ok lo"
  shows "\<exists>b lo'. scan_either f g line lo = Some (b, lo') \<and> out_ok lo'"
proof -
  obtain n1 lo1 where 1: "scan_pair f line lo = Some (n1, lo1)" "out_ok lo1"
    using scan_pair_safe [OF assms] by blast
  obtain n2 lo2 where "scan_pair g line lo1 = Some (n2, lo2)" "out_ok lo2"
    using scan_pair_safe [OF assms(1) 1(2)] by blast
  with 1 show ?thesis by (auto simp: scan_either_def)
qed

lemma fold_key_safe: "out_ok lo \<Longrightarrow> out_ok (fold_key len lo)"
  using strlwc_in_place_length [of "strstrip (lo_key lo)" len] strstrip_length [of "lo_key lo"]
  by (simp add: out_ok_def fold_key_def)

lemma line_value_safe:
  assumes "length line \<le> ASCIILINESZ" and "out_ok lo"
  shows "\<exists>sta lo'. line_value line lo = Some (sta, lo') \<and> out_ok lo'"
proof -
  obtain b lo1 where 1: "scan_either fmt_dquoted fmt_squoted line lo = Some (b, lo1)" "out_ok lo1"
    using scan_either_safe [OF assms] by blast
  obtain n lo2 where 2: "scan_pair fmt_plain line lo1 = Some (n, lo2)" "out_ok lo2"
    using scan_pair_safe [OF assms(1) 1(2)] by blast
  obtain b' lo3 where 3: "scan_either fmt_empty_comment fmt_empty line lo2 = Some (b', lo3)" "out_ok lo3"
    using scan_either_safe [OF assms(1) 2(2)] by blast
  have v: "out_ok (lo\<lparr>lo_value := w\<rparr>) \<longleftrightarrow> out_ok lo" for lo w by (simp add: out_ok_def)
  show ?thesis
    using 1 2 3 fold_key_safe by (auto simp: line_value_def Let_def v simp del: scan_pair.simps)
qed

lemma line_section_safe:
  assumes "length line \<le> ASCIILINESZ" and "out_ok lo"
  shows "\<exists>sta lo'. line_section line lo = Some (sta, lo') \<and> out_ok lo'"
proof -
  have "\<exists>sec. (case sscanf fmt_section line of [] \<Rightarrow> Some (lo_section lo) | t # _ \<Rightarrow> store (ASCIILINESZ + 1) t)
      = Some sec \<and> length sec \<le> ASCIILINESZ"
  proof (cases "sscanf fmt_section line")
    case Nil
    then show ?thesis using assms(2) by (simp add: out_ok_def)
  next
    case (Cons t ts)
    then show ?thesis using sscanf_length [of t fmt_section line] assms(1) by (simp add: store_def)
  qed
  then obtain sec where sec: "(case sscanf fmt_section line of [] \<Rightarrow> Some (lo_section lo)
      | t # _ \<Rightarrow> store (ASCIILINESZ + 1) t) = Some sec" "length sec \<le> ASCIILINESZ" by blast
  have "length (strlwc_in_place (strstrip sec) (length line)) \<le> ASCIILINESZ"
    using sec(2) strstrip_length [of sec] strlwc_in_place_length [of "strstrip sec" "length line"] by linarith
  then show ?thesis using assms(2) by (simp add: line_section_def sec(1) out_ok_def)
qed

lemma iniparser_line_safe:
  assumes "length l \<le> ASCIILINESZ" and "out_ok lo"
  shows "\<exists>sta lo' m'. iniparser_line l lo m = Some (sta, lo', m') \<and> out_ok lo'"
proof -
  obtain lp m' where lp: "xstrdup (Some l) m = (lp, m')" by fastforce
  define line where "line = (case lp of None \<Rightarrow> [] | Some l \<Rightarrow> strstrip l)"
  have "length line \<le> ASCIILINESZ"
    using lp assms(1) strstrip_length [of l] by (auto simp: line_def split: if_splits option.splits prod.splits)
  then show ?thesis
    unfolding iniparser_line_def lp prod.case Let_def line_def [symmetric]
    using line_value_safe [of line lo] line_section_safe [of line lo] assms(2) by auto
qed

definition ld_safe :: "loader \<Rightarrow> nat \<Rightarrow> bool" where
  "ld_safe ld remaining \<longleftrightarrow> ld_last ld + 3 \<le> ASCIILINESZ \<and> out_ok (ld_out ld)
     \<and> (\<exists>d. ld_dict ld = Some d \<and> dict_safe d \<and> d_n d + int remaining \<le> INT_MAX)"

lemma load_switch_safe:
  assumes "ld_safe ld (Suc n)" and "length (ld_line ld) \<le> ASCIILINESZ"
  shows "\<exists>ld'. load_switch ld = Some ld' \<and> ld_safe ld' n"
proof -
  obtain d where d: "ld_dict ld = Some d" "dict_safe d" "d_n d < INT_MAX" "d_n d + 1 + int n \<le> INT_MAX"
    and lo: "out_ok (ld_out ld)"
    using assms(1) by (auto simp: ld_safe_def)
  obtain sta lo' m' where l: "iniparser_line (ld_line ld) (ld_out ld) (ld_mem ld) = Some (sta, lo', m')" "out_ok lo'"
    using iniparser_line_safe [OF assms(2) lo] by blast
  have set: "\<exists>r d' m''. dictionary_set (Some d) (Some k) v m' = Some (r, Some d', m'') \<and> dict_safe d'
      \<and> d_n d' + int n \<le> INT_MAX" for k v
    using dictionary_set_safe [OF d(2,3), of k v m'] d(4) by fastforce
  have "length (lo_section lo' @ '':'' @ lo_key lo') < ASCIILINESZ * 2 + 2"
    using l(2) by (simp add: out_ok_def)
  then have st: "store (ASCIILINESZ * 2 + 2) (lo_section lo' @ '':'' @ lo_key lo')
      = Some (lo_section lo' @ '':'' @ lo_key lo')" by (simp add: store_def)
  from set [of "lo_section lo'" None] set [of "lo_section lo' @ '':'' @ lo_key lo'" "Some (lo_value lo')"] d l st
  show ?thesis
    by (cases sta) (auto simp: load_switch_def ld_safe_def ASCIILINESZ_def)
qed

lemma ld_safe_mono: "ld_safe ld n \<Longrightarrow> n' \<le> n \<Longrightarrow> ld_safe ld n'"
  by (force simp: ld_safe_def)

lemma ld_safe_update [simp]:
  "ld_safe (ld\<lparr>ld_lineno := a, ld_line := b\<rparr>) n = ld_safe ld n"
  "ld_safe (ld\<lparr>ld_log := l\<rparr>) n = ld_safe ld n"
  by (simp_all add: ld_safe_def)

lemma load_end_safe:
  assumes "ld_safe ld n"
  shows "\<exists>ld'. load_end ld = Some ld' \<and> (\<forall>d. ld_dict ld' = Some d \<longrightarrow> dict_safe d)"
  using assms del_loop_safe [of _ 0] by (auto simp: load_end_def ld_safe_def)

lemma cstring_length: "length (cstring s) \<le> length s"
  by (simp add: cstring_def length_takeWhile_le)

text \<open>The line a continued line leaves is short enough for the next \<open>fgets\<close> to make progress.\<close>

lemma continued_line_short:
  assumes "fgets (int ASCIILINESZ - int (ld_last ld)) inp = Some (chunk, st)" and "ld_last ld + 3 \<le> ASCIILINESZ"
  defines "line \<equiv> cstring (take (ld_last ld) (ld_line ld) @ chunk)"
  shows "length line < ASCIILINESZ"
    and "\<not> (last line \<noteq> CHR 0x0A \<and> \<not> st_eof st) \<Longrightarrow> line \<noteq> [] \<Longrightarrow> length (rstrip line) + 2 \<le> ASCIILINESZ"
proof -
  have "2 \<le> int ASCIILINESZ - int (ld_last ld)" using assms(2) by linarith
  note F = fgets_facts [OF assms(1) this]
  have l: "length line \<le> ld_last ld + length chunk"
    unfolding line_def by (rule order_trans [OF cstring_length]) simp
  then show "length line < ASCIILINESZ" using F(3) assms(2) by linarith
  assume fin: "\<not> (last line \<noteq> CHR 0x0A \<and> \<not> st_eof st)" "line \<noteq> []"
  show "length (rstrip line) + 2 \<le> ASCIILINESZ"
  proof (cases "st_eof st")
    case True
    then show ?thesis using F(4) l assms(2) rstrip_length [of line] by linarith
  next
    case False
    then have "line = butlast line @ [CHR 0x0A]" using fin by (metis append_butlast_last_id)
    then have "length (rstrip line) = length (rstrip (butlast line))" by (metis isspace_blank(2) rstrip_space)
    moreover have "Suc (length (butlast line)) = length line" using fin(2) by (cases line) auto
    ultimately show ?thesis using l F(3) assms(2) rstrip_length [of "butlast line"] by linarith
  qed
qed

lemma load_loop_read:
  assumes "fgets (int ASCIILINESZ - int (ld_last ld)) inp = Some (chunk, st)"
  defines "line \<equiv> cstring (take (ld_last ld) (ld_line ld) @ chunk)"
  defines "ld1 \<equiv> ld\<lparr>ld_lineno := ld_lineno ld + 1, ld_line := line\<rparr>"
  defines "ld2 \<equiv> ld1\<lparr>ld_line := rstrip line\<rparr>"
  assumes "dictionary_del (ld_dict ld) = Some ()" and "load_switch (ld2\<lparr>ld_last := 0\<rparr>) = Some ld3"
  shows "load_loop ld inp =
       (if int (length line) - 1 \<le> 0 then load_loop ld1 (st_rest st)
        else if last line \<noteq> CHR 0x0A \<and> \<not> st_eof st
        then Some (ld1\<lparr>ld_dict := None, ld_log := ld_log ld1 @ [LineTooLong (ld_lineno ld1)]\<rparr>)
        else if rstrip line \<noteq> [] \<and> last (rstrip line) = CHR 0x5C
        then load_loop (ld2\<lparr>ld_last := length (rstrip line) - 1\<rparr>) (st_rest st)
        else if ld_mem_err ld3 < 0 then load_end (ld3\<lparr>ld_log := ld_log ld3 @ [MemoryFailure]\<rparr>)
        else load_loop ld3 (st_rest st))"
  using assms(5,6) by (subst load_loop.simps, cases "rstrip line = []")
    (simp_all add: assms(1) Let_def ld2_def ld1_def line_def [symmetric] del: fgets.simps)

lemma load_loop_total:
  assumes "ld_safe ld (length inp)"
  shows "\<exists>ld'. load_loop ld inp = Some ld' \<and> (\<forall>d. ld_dict ld' = Some d \<longrightarrow> dict_safe d)"
  using assms
proof (induction "length inp" arbitrary: ld inp rule: less_induct)
  case less
  define sz where "sz = int ASCIILINESZ - int (ld_last ld)"
  have last: "ld_last ld + 3 \<le> ASCIILINESZ" using less.prems by (simp add: ld_safe_def)
  show ?case
  proof (cases "fgets sz inp")
    case None
    then show ?thesis using load_end_safe [OF less.prems]
      by (subst load_loop.simps) (simp add: sz_def del: fgets.simps)
  next
    case (Some r)
    then obtain chunk st where r: "fgets sz inp = Some (chunk, st)" by (cases r) simp
    have "2 \<le> sz" using last by (simp add: sz_def)
    then have rest: "length (st_rest st) < length inp" using fgets_facts(1,2) [OF r] by (cases chunk) auto
    define line where "line = cstring (take (ld_last ld) (ld_line ld) @ chunk)"
    define ld1 where "ld1 = ld\<lparr>ld_lineno := ld_lineno ld + 1, ld_line := line\<rparr>"
    define ld2 where "ld2 = ld1\<lparr>ld_line := rstrip line\<rparr>"
    note short = continued_line_short [OF r [unfolded sz_def] last, folded line_def]
    have "ld_safe ld (Suc (length (st_rest st)))" using ld_safe_mono [OF less.prems] rest by simp
    then have s1: "ld_safe ld1 (length (st_rest st))" and s2: "ld_safe (ld2\<lparr>ld_last := 0\<rparr>) (Suc (length (st_rest st)))"
      by (auto simp: ld1_def ld2_def ld_safe_def ASCIILINESZ_def)
    have "length (ld_line (ld2\<lparr>ld_last := 0\<rparr>)) \<le> ASCIILINESZ"
      using short(1) rstrip_length [of line] by (simp add: ld2_def)
    then obtain ld3 where ld3: "load_switch (ld2\<lparr>ld_last := 0\<rparr>) = Some ld3" "ld_safe ld3 (length (st_rest st))"
      using load_switch_safe [OF s2] by blast
    have cont: "ld_safe (ld2\<lparr>ld_last := length (rstrip line) - 1\<rparr>) (length (st_rest st))"
      if "\<not> (last line \<noteq> CHR 0x0A \<and> \<not> st_eof st)" "line \<noteq> []"
      using short(2) [OF that] s1 by (auto simp: ld2_def ld1_def ld_safe_def ASCIILINESZ_def)
    have "dictionary_del (ld_dict ld) = Some ()"
      using less.prems del_loop_safe [of _ 0] by (auto simp: ld_safe_def)
    from load_loop_read [OF r [unfolded sz_def] this, folded line_def, folded ld1_def, folded ld2_def, OF ld3(1)]
    show ?thesis
      using less.hyps [OF rest s1] less.hyps [OF rest ld3(2)] less.hyps [OF rest cont]
        load_end_safe [of "ld3\<lparr>ld_log := ld_log ld3 @ [MemoryFailure]\<rparr>"] ld3(2)
      by (cases "line = []") (auto split: if_splits)
  qed
qed

section \<open>Properties\<close>

text \<open>
  C8: On a file made of blank lines, section headers and \<open>key = value\<close> lines in the form in which the writer
  prints them (names in lower case and without surrounding blanks, the key padded to 30 characters, the value
  without quotes, comment characters or a final backslash, each line short enough for the buffer), with enough
  memory, \<open>iniparser_load\<close> reports no error and returns a well-formed dictionary with exactly the entries the
  lines denote, later lines overriding earlier ones.
\<close>

theorem iniparser_load_correct:
  assumes "\<forall>it \<in> set items. item_ok it" and "length items \<le> nat INT_MAX" and "all_ok m"
  shows "\<exists>d m'. iniparser_load (Some (concat (map item_text items))) m = Some (Some d, [], m')
    \<and> dict_wf d \<and> dict_map d = snd (fold item_exec items ([], Map.empty))"
  by (rule iniparser_load_items [OF assms])

lemmas item_ok_simps = section_ok_def pair_ok_def key_ok_def value_ok_def tight_def line_ok_def pad_right_def
  isspace_def tolower_def ASCIILINESZ_def

theorem iniparser_load_correct_witness:
  "\<exists>d m'. iniparser_load (Some (concat (map item_text [Sec ''db'', Val ''ip'' ''1'', Blank, Val ''ip'' ''2'']))) []
      = Some (Some d, [], m') \<and> dict_wf d \<and> dict_map d = [''db'' \<mapsto> None, ''db:ip'' \<mapsto> Some ''2'']"
  using iniparser_load_correct [of "[Sec ''db'', Val ''ip'' ''1'', Blank, Val ''ip'' ''2'']" "[]"]
  by (simp add: item_ok_simps INT_MAX_def)

text \<open>
  C6: Loading what \<open>iniparser_dump_ini\<close> wrote gives the same entries back and reports no error, for every
  well-formed dictionary that satisfies four conditions: it has at least one section; every entry with a key
  belongs to a section that is itself an entry, and has a value that is not NULL; every name and value can be
  written on a line (lower case, no leading or trailing blanks, no comment, quote or bracket characters in the
  wrong places, no final backslash, short enough for the line buffer); and the loading has enough memory.
\<close>

theorem iniparser_roundtrip:
  assumes "ini_dict d" and "dict_sections d \<noteq> []" and "length (dict_items d) \<le> nat INT_MAX" and "all_ok m"
  shows "\<exists>text d' m'. iniparser_dump_ini (Some d) (Some []) = Some (Some text)
    \<and> iniparser_load (Some text) m = Some (Some d', [], m') \<and> dict_wf d' \<and> dict_map d' = dict_map d"
  using iniparser_load_items [OF dict_items_ok [OF assms(1)] assms(3,4)]
  by (simp add: iniparser_dump_ini_items [OF assms(1,2)] dict_items_exec [OF assms(1)])

text \<open>A dictionary of two slots with the section \<open>db\<close> and its key \<open>ip\<close>.\<close>

definition sample_dict :: dictionary where
  "sample_dict = fill_slot 1 ''db:ip'' (Some ''10.0.0.1'') (fill_slot 0 ''db'' None (empty_dict 2))"

lemma sample_dict:
  shows "dict_wf sample_dict" and "dict_entries sample_dict = [(''db'', None), (''db:ip'', Some ''10.0.0.1'')]"
proof -
  show "dict_wf sample_dict" unfolding sample_dict_def
    by (intro fill_slot(1) one_entry_dict) (simp_all add: one_entry_dict, simp_all add: fill_slot_def empty_dict_def)
  show "dict_entries sample_dict = [(''db'', None), (''db:ip'', Some ''10.0.0.1'')]"
    by (simp add: sample_dict_def dict_entries_def fill_slot_def empty_dict_def map_filter_simps numeral_2_eq_2)
qed

theorem iniparser_roundtrip_witness:
  "\<exists>text d' m'. iniparser_dump_ini (Some sample_dict) (Some []) = Some (Some text)
    \<and> iniparser_load (Some text) [] = Some (Some d', [], m') \<and> dict_wf d' \<and> dict_map d' = dict_map sample_dict"
proof (rule iniparser_roundtrip)
  show "ini_dict sample_dict"
    by (simp add: ini_dict_def sample_dict dict_map_def item_ok_simps section_of_def key_of_def is_section_def)
  show "dict_sections sample_dict \<noteq> []" "length (dict_items sample_dict) \<le> nat INT_MAX"
    by (simp_all add: dict_sections_def sample_dict is_section_def dict_items_def section_items_def INT_MAX_def)
qed simp

text \<open>
  C7: Once the dictionary itself is allocated, \<open>iniparser_load\<close> returns on every file content (of
  fewer than \<open>INT_MAX\<close> characters) and whatever allocations fail later: no fixed-size array
  overflows, no access is out of range, the loop ends, and a returned dictionary is safe to use.
\<close>

theorem iniparser_load_safe:
  assumes "int (length contents) \<le> INT_MAX"
  shows "\<exists>dp log m'. iniparser_load (Some contents) (True # True # True # True # m) = Some (dp, log, m')
    \<and> (\<forall>d. dp = Some d \<longrightarrow> dict_safe d)"
proof -
  define d where "d = empty_dict DICTMINSZ"
  have new: "dictionary_new 0 (True # True # True # True # m) = (Some d, m)"
    by (simp add: dictionary_new_def d_def empty_dict_def DICTMINSZ_def)
  have "dict_safe d" "d_n d = 0"
    using dict_wf_safe [OF empty_dict(1), of DICTMINSZ] by (simp_all add: d_def DICTMINSZ_def empty_dict_def)
  then have "ld_safe (load_init (Some d) m) (length contents)"
    using assms by (simp add: ld_safe_def load_init_def out_ok_def ASCIILINESZ_def)
  from load_loop_total [OF this] show ?thesis
    by (auto simp: iniparser_load_def new)
qed

theorem iniparser_load_safe_witness:
  "\<exists>dp log m'. iniparser_load (Some ''[a] no newline'') [True, True, True, True, False] = Some (dp, log, m')
    \<and> (\<forall>d. dp = Some d \<longrightarrow> dict_safe d)"
  by (rule iniparser_load_safe) (simp add: INT_MAX_def)

text \<open>
  When the copy of a line cannot be allocated, \<open>iniparser_line\<close> reports an empty line whatever
  the line holds, so the loader silently skips it.
\<close>

theorem iniparser_line_out_of_memory:
  "iniparser_line l lo (False # m) = Some (LINE_EMPTY, lo, m)"
  by (simp add: iniparser_line_def)

end
