(* ===== verification/Linked_Heap.thy ===== *)
theory Linked_Heap
  imports C_Prelude
begin

text \<open>
  Singly linked lists in a heap of nodes. A heap maps addresses to nodes; an address that is not
  allocated, or was freed, is not in the heap, so that following it has no value. The theory is
  shared by the timer list (\<open>miio_timer.c\<close>), the device list (\<open>20180208/list.c\<close>) and the message
  queue (\<open>20180320queue/src/queue.c\<close>).
\<close>

type_synonym addr = nat
type_synonym 'n heap = "addr \<rightharpoonup> 'n"

text \<open>\<open>chain nxt h p as q\<close>: from pointer \<open>p\<close> the links pass the nodes \<open>as\<close> and arrive at \<open>q\<close>.\<close>

fun chain :: "('n \<Rightarrow> addr option) \<Rightarrow> 'n heap \<Rightarrow> addr option \<Rightarrow> addr list \<Rightarrow> addr option \<Rightarrow> bool" where
  "chain nxt h p [] q \<longleftrightarrow> p = q"
| "chain nxt h p (a # as) q \<longleftrightarrow> p = Some a \<and> (\<exists>n. h a = Some n \<and> chain nxt h (nxt n) as q)"

lemma chain_append: "chain nxt h p (xs @ ys) q \<longleftrightarrow> (\<exists>r. chain nxt h p xs r \<and> chain nxt h r ys q)"
  by (induction xs arbitrary: p) auto

lemma chain_cong:
  assumes "\<And>a. a \<in> set xs \<Longrightarrow> map_option nxt (h' a) = map_option nxt (h a)"
  shows "chain nxt h' p xs q \<longleftrightarrow> chain nxt h p xs q"
  using assms
proof (induction xs arbitrary: p)
  case (Cons a xs)
  then have "map_option nxt (h' a) = map_option nxt (h a)" by simp
  then show ?case using Cons by (cases "h a"; cases "h' a") auto
qed simp

lemma chain_other [simp]: "a \<notin> set xs \<Longrightarrow> chain nxt (h(a := x)) p xs q \<longleftrightarrow> chain nxt h p xs q"
  by (rule chain_cong) auto

lemma chain_unique: "chain nxt h p xs None \<Longrightarrow> chain nxt h p ys None \<Longrightarrow> xs = ys"
proof (induction xs arbitrary: p ys)
  case Nil
  then show ?case by (cases ys) auto
next
  case (Cons a xs)
  then obtain n ys' where "ys = a # ys'" "h a = Some n" "chain nxt h (nxt n) ys' None" "chain nxt h (nxt n) xs None"
    by (cases ys) auto
  with Cons.IH show ?case by simp
qed

lemma chain_suffix: "chain nxt h p (xs @ a # ys) q \<Longrightarrow> chain nxt h (Some a) (a # ys) q"
  by (induction xs arbitrary: p) auto

lemma chain_distinct: "chain nxt h p xs None \<Longrightarrow> distinct xs"
proof (induction xs arbitrary: p)
  case (Cons a xs)
  have "a \<notin> set xs"
  proof
    assume "a \<in> set xs"
    then obtain ys zs where xs: "xs = ys @ a # zs" by (auto simp: in_set_conv_decomp)
    then have "chain nxt h (Some a) (a # zs) None"
      using Cons.prems chain_suffix [of nxt h p "a # ys" a zs] by simp
    moreover have "chain nxt h (Some a) (a # xs) None" using Cons.prems by auto
    ultimately have "a # xs = a # zs" using chain_unique by blast
    then show False using xs by simp
  qed
  then show ?case using Cons by auto
qed simp

lemma chain_in_heap: "chain nxt h p xs q \<Longrightarrow> a \<in> set xs \<Longrightarrow> \<exists>n. h a = Some n"
  by (induction xs arbitrary: p) auto

lemma chain_head: "chain nxt h p xs None \<Longrightarrow> p = (case xs of [] \<Rightarrow> None | a # _ \<Rightarrow> Some a)"
  by (cases xs) auto

text \<open>Nodes whose link can be rewritten.\<close>

locale linked_nodes =
  fixes nxt :: "'n \<Rightarrow> addr option"
    and with_nxt :: "addr option \<Rightarrow> 'n \<Rightarrow> 'n"
  assumes nxt_with: "nxt (with_nxt p n) = p"
begin

text \<open>Redirecting the last link of a segment.\<close>

lemma chain_relink:
  assumes "chain nxt h p (xs @ [a]) q" and "a \<notin> set xs" and "h a = Some n"
  shows "chain nxt (h(a \<mapsto> with_nxt r n)) p (xs @ [a]) r"
  using assms by (auto simp: chain_append nxt_with)

text \<open>Taking a node out of the list, and putting one behind another.\<close>

lemma chain_remove:
  assumes "chain nxt h p (xs @ a # b # ys) None" and "h a = Some n" and "h b = Some m"
  shows "chain nxt ((h(a \<mapsto> with_nxt (nxt m) n))(b := None)) p (xs @ a # ys) None"
proof -
  have "distinct (xs @ a # b # ys)" by (rule chain_distinct [OF assms(1)])
  then show ?thesis using assms by (auto simp: chain_append nxt_with)
qed

lemma chain_insert:
  assumes "chain nxt h p (xs @ a # ys) None" and "h a = Some n" and "b \<notin> set (xs @ a # ys)"
  shows "chain nxt ((h(b \<mapsto> with_nxt (nxt n) m))(a \<mapsto> with_nxt (Some b) n)) p (xs @ a # b # ys) None"
proof -
  have "distinct (xs @ a # ys)" by (rule chain_distinct [OF assms(1)])
  then show ?thesis using assms by (auto simp: chain_append nxt_with)
qed

end

end
