(* ===== verification/Imi_Timer.thy ===== *)
theory Imi_Timer
  imports Linked_Heap
begin

text \<open>
  The list of event timers of \<open>auto_imi_db_bin/src/miio_timer.c\<close> and \<open>miio_timer.h\<close>. The nodes live
  in a heap, the POSIX timers they own in a table of the kernel. What \<open>timer_gettime\<close>,
  \<open>timer_create\<close> and \<open>timer_settime\<close> answer is an argument of the operations: each makes at most one
  call of each kind. Addresses are handed out in increasing order and never reused, so an access to a
  freed node is always noticed.
\<close>

section \<open>Data\<close>

datatype timer_mode_e = TIMER_MODE_LOOP | TIMER_MODE_SINGLE

record imi_node =
  in_id :: int
  in_func :: nat
  in_interval :: int
  in_value :: int
  in_timer :: nat
  in_next :: "addr option"

text \<open>The kernel's view of a timer: seconds to the next expiration and interval.\<close>

record timer_sys =
  ts_heap :: "imi_node heap"
  ts_fresh :: addr
  ts_kernel :: "nat \<rightharpoonup> int \<times> int"
  ts_mem :: mem

definition zero_node :: imi_node where
  "zero_node = \<lparr>in_id = 0, in_func = 0, in_interval = 0, in_value = 0, in_timer = 0, in_next = None\<rparr>"

text \<open>\<open>malloc\<close> of a node that is then cleared by \<open>bzero\<close>, and \<open>free\<close>.\<close>

definition node_alloc :: "timer_sys \<Rightarrow> addr option \<times> timer_sys" where
  "node_alloc st =
     (case malloc_ok (ts_mem st) of (ok, m) \<Rightarrow>
        if ok then (Some (ts_fresh st), st\<lparr>ts_heap := (ts_heap st)(ts_fresh st \<mapsto> zero_node),
                      ts_fresh := Suc (ts_fresh st), ts_mem := m\<rparr>)
        else (None, st\<lparr>ts_mem := m\<rparr>))"

definition node_free :: "addr \<Rightarrow> timer_sys \<Rightarrow> timer_sys option" where
  "node_free a st = (case ts_heap st a of None \<Rightarrow> None | Some _ \<Rightarrow> Some (st\<lparr>ts_heap := (ts_heap st)(a := None)\<rparr>))"

definition node_write :: "addr \<Rightarrow> (imi_node \<Rightarrow> imi_node) \<Rightarrow> timer_sys \<Rightarrow> timer_sys option" where
  "node_write a f st =
     (case ts_heap st a of None \<Rightarrow> None | Some n \<Rightarrow> Some (st\<lparr>ts_heap := (ts_heap st)(a \<mapsto> f n)\<rparr>))"

definition timer_delete :: "nat \<Rightarrow> timer_sys \<Rightarrow> timer_sys" where
  "timer_delete t st = st\<lparr>ts_kernel := (ts_kernel st)(t := None)\<rparr>"

section \<open>Operations\<close>

partial_function (option) find_loop :: "imi_node heap \<Rightarrow> addr option \<Rightarrow> int \<Rightarrow> addr option option" where
  "find_loop h pos timer_id =
     (case pos of
        None \<Rightarrow> Some None
      | Some a \<Rightarrow> do {
          n \<leftarrow> h a;
          (if in_id n = timer_id then Some (Some a) else find_loop h (in_next n) timer_id)
        })"

declare find_loop.simps [code]

definition list_for_entry :: "timer_sys \<Rightarrow> addr \<Rightarrow> int \<Rightarrow> addr option option" where
  "list_for_entry st head timer_id = do {
     n \<leftarrow> ts_heap st head;
     find_loop (ts_heap st) (in_next n) timer_id
   }"

text \<open>\<open>gettime\<close> is the pair of seconds that \<open>timer_gettime\<close> stores, or \<open>None\<close> if it fails.\<close>

definition check_timer_status :: "timer_sys \<Rightarrow> addr option \<Rightarrow> int \<Rightarrow> (int \<times> int) option \<Rightarrow> int option" where
  "check_timer_status st headp timer_id gettime =
     (case headp of
        None \<Rightarrow> Some (-1)
      | Some head \<Rightarrow> do {
          node \<leftarrow> list_for_entry st head timer_id;
          (case node of
             None \<Rightarrow> Some (-1)
           | Some a \<Rightarrow> do {
               _ \<leftarrow> ts_heap st a;
               Some (case gettime of
                       None \<Rightarrow> -1
                     | Some (value_sec, interval_sec) \<Rightarrow>
                         if value_sec = 0 \<and> interval_sec = 0 then -2 else 0)
             })
        })"

definition timer_init :: "timer_sys \<Rightarrow> addr option \<times> timer_sys" where
  "timer_init st = node_alloc st"

definition list_add :: "addr option \<Rightarrow> addr option \<Rightarrow> timer_sys \<Rightarrow> timer_sys option" where
  "list_add headp nodep st =
     (case (headp, nodep) of
        (Some head, Some node) \<Rightarrow> do {
          hn \<leftarrow> ts_heap st head;
          (if in_next hn = None then node_write head (\<lambda>n. n\<lparr>in_next := Some node\<rparr>) st
           else do {
             st \<leftarrow> node_write node (\<lambda>n. n\<lparr>in_next := in_next hn\<rparr>) st;
             node_write head (\<lambda>n. n\<lparr>in_next := Some node\<rparr>) st
           })
        }
      | _ \<Rightarrow> Some st)"

text \<open>\<open>create\<close> is the timer that \<open>timer_create\<close> makes, \<open>settime\<close> whether \<open>timer_settime\<close> succeeds.\<close>

definition create_event_timer_node :: "addr option \<Rightarrow> int \<Rightarrow> timer_mode_e \<Rightarrow> int \<Rightarrow> nat \<Rightarrow> nat option \<Rightarrow> bool
    \<Rightarrow> timer_sys \<Rightarrow> (int \<times> timer_sys) option" where
  "create_event_timer_node nodep timer_id mode sec time_out_func create settime st =
     (case nodep of
        None \<Rightarrow> Some (-1, st)
      | Some a \<Rightarrow> do {
          st \<leftarrow> node_write a (\<lambda>n. n\<lparr>in_id := timer_id, in_func := time_out_func\<rparr>) st;
          (case create of
             None \<Rightarrow> Some (-1, st)
           | Some t \<Rightarrow> (let interval = (case mode of TIMER_MODE_LOOP \<Rightarrow> sec | TIMER_MODE_SINGLE \<Rightarrow> 0) in do {
               st \<leftarrow> node_write a (\<lambda>n. n\<lparr>in_timer := t, in_interval := interval, in_value := sec\<rparr>)
                      (st\<lparr>ts_kernel := (ts_kernel st)(t \<mapsto> (0, 0))\<rparr>);
               (if settime then Some (0, st\<lparr>ts_kernel := (ts_kernel st)(t \<mapsto> (sec, interval))\<rparr>)
                else Some (-1, timer_delete t st))
             }))
        })"

definition create_event_timer :: "addr option \<Rightarrow> int \<Rightarrow> timer_mode_e \<Rightarrow> int \<Rightarrow> nat \<Rightarrow> (int \<times> int) option
    \<Rightarrow> nat option \<Rightarrow> bool \<Rightarrow> timer_sys \<Rightarrow> (int \<times> timer_sys) option" where
  "create_event_timer headp timer_id mode sec time_out_func gettime create settime st =
     (if headp = None then Some (-1, st)
      else do {
        ret \<leftarrow> check_timer_status st headp timer_id gettime;
        (if ret \<noteq> -1 then Some (-1, st)
         else case node_alloc st of
           (None, st) \<Rightarrow> Some (-1, st)
         | (Some node, st) \<Rightarrow> do {
             (r, st) \<leftarrow> create_event_timer_node (Some node) timer_id mode sec time_out_func create settime st;
             (if r \<noteq> 0 then do { st \<leftarrow> node_free node st; Some (-1, st) }
              else do { st \<leftarrow> list_add headp (Some node) st; Some (0, st) })
           })
      })"

definition refresh_event_timer :: "addr option \<Rightarrow> int \<Rightarrow> int \<Rightarrow> bool \<Rightarrow> timer_sys \<Rightarrow> (int \<times> timer_sys) option" where
  "refresh_event_timer headp timer_id sec settime st =
     (case headp of
        None \<Rightarrow> Some (-1, st)
      | Some head \<Rightarrow> do {
          node \<leftarrow> list_for_entry st head timer_id;
          (case node of
             None \<Rightarrow> Some (-1, st)
           | Some a \<Rightarrow> do {
               st \<leftarrow> node_write a (\<lambda>n. n\<lparr>in_interval := sec, in_value := sec\<rparr>) st;
               n \<leftarrow> ts_heap st a;
               (if settime then Some (0, st\<lparr>ts_kernel := (ts_kernel st)(in_timer n \<mapsto> (sec, sec))\<rparr>)
                else Some (-1, st))
             })
        })"

partial_function (option) del_node_loop :: "addr option \<Rightarrow> addr option \<Rightarrow> int \<Rightarrow> timer_sys \<Rightarrow> (int \<times> timer_sys) option" where
  "del_node_loop prevp pos timer_id st =
     (case pos of
        None \<Rightarrow> Some (-1, st)
      | Some a \<Rightarrow> do {
          n \<leftarrow> ts_heap st a;
          prev \<leftarrow> prevp;
          (if in_id n = timer_id
           then (if in_next n = None
                 then do {
                   st \<leftarrow> node_write prev (\<lambda>p. p\<lparr>in_next := None\<rparr>) st;
                   st \<leftarrow> node_free a st;
                   Some (0, st)
                 }
                 else do {
                   st \<leftarrow> node_write prev (\<lambda>p. p\<lparr>in_next := in_next n\<rparr>) st;
                   st \<leftarrow> node_write a (\<lambda>p. p\<lparr>in_next := None\<rparr>) st;
                   st \<leftarrow> node_free a st;
                   Some (0, st)
                 })
           else do {
             pn \<leftarrow> ts_heap st prev;
             del_node_loop (in_next pn) (in_next n) timer_id st
           })
        })"

declare del_node_loop.simps [code]

definition delete_designation_node :: "addr \<Rightarrow> int \<Rightarrow> timer_sys \<Rightarrow> (int \<times> timer_sys) option" where
  "delete_designation_node head timer_id st = do {
     n \<leftarrow> ts_heap st head;
     del_node_loop (Some head) (in_next n) timer_id st
   }"

definition delete_designation_timer :: "addr option \<Rightarrow> int \<Rightarrow> timer_sys \<Rightarrow> (int \<times> timer_sys) option" where
  "delete_designation_timer headp timer_id st =
     (case headp of
        None \<Rightarrow> Some (-1, st)
      | Some head \<Rightarrow> do {
          node \<leftarrow> list_for_entry st head timer_id;
          (case node of
             None \<Rightarrow> Some (-1, st)
           | Some a \<Rightarrow> do {
               n \<leftarrow> ts_heap st a;
               delete_designation_node head timer_id (timer_delete (in_timer n) st)
             })
        })"

text \<open>
  The loop of \<open>delete_all_timer\<close>: after \<open>free (pos)\<close> it moves \<open>prev\<close> on, and the \<open>for\<close> statement then
  reads \<open>pos->next\<close>.
\<close>

partial_function (option) del_all_loop :: "addr option \<Rightarrow> addr option \<Rightarrow> timer_sys \<Rightarrow> timer_sys option" where
  "del_all_loop prevp pos st =
     (case pos of
        None \<Rightarrow> Some st
      | Some a \<Rightarrow> do {
          n \<leftarrow> ts_heap st a;
          prev \<leftarrow> prevp;
          st \<leftarrow> node_write prev (\<lambda>p. p\<lparr>in_next := in_next n\<rparr>) (timer_delete (in_timer n) st);
          st \<leftarrow> (if in_next n = None then Some st else node_write a (\<lambda>p. p\<lparr>in_next := None\<rparr>) st);
          st \<leftarrow> node_free a st;
          pn \<leftarrow> ts_heap st prev;
          n' \<leftarrow> ts_heap st a;
          del_all_loop (in_next pn) (in_next n') st
        })"

declare del_all_loop.simps [code]

definition delete_all_timer :: "addr option \<Rightarrow> timer_sys \<Rightarrow> (int \<times> timer_sys) option" where
  "delete_all_timer headp st =
     (case headp of
        None \<Rightarrow> Some (-1, st)
      | Some head \<Rightarrow> do {
          n \<leftarrow> ts_heap st head;
          st \<leftarrow> del_all_loop (Some head) (in_next n) st;
          Some (0, st)
        })"

interpretation imi: linked_nodes in_next "\<lambda>p n. n\<lparr>in_next := p\<rparr>"
  by unfold_locales simp

section \<open>The list of timers\<close>

text \<open>
  A well-formed timer list: the head node, then the timers \<open>as\<close>, one node per identifier, each with a
  kernel timer of its own.
\<close>

definition timer_ids :: "timer_sys \<Rightarrow> addr list \<Rightarrow> int list" where
  "timer_ids st as = map (\<lambda>a. in_id (the (ts_heap st a))) as"

definition timer_handles :: "timer_sys \<Rightarrow> addr list \<Rightarrow> nat list" where
  "timer_handles st as = map (\<lambda>a. in_timer (the (ts_heap st a))) as"

definition timers_wf :: "timer_sys \<Rightarrow> addr \<Rightarrow> addr list \<Rightarrow> bool" where
  "timers_wf st head as \<longleftrightarrow> chain in_next (ts_heap st) (Some head) (head # as) None
     \<and> (\<forall>a. ts_fresh st \<le> a \<longrightarrow> ts_heap st a = None)
     \<and> distinct (timer_ids st as) \<and> distinct (timer_handles st as)
     \<and> set (timer_handles st as) \<subseteq> dom (ts_kernel st)"

lemma timers_wfD:
  assumes "timers_wf st head as"
  obtains hn where "ts_heap st head = Some hn" "chain in_next (ts_heap st) (in_next hn) as None"
    "distinct (head # as)" "\<And>a. a \<in> set (head # as) \<Longrightarrow> a < ts_fresh st"
proof -
  have c: "chain in_next (ts_heap st) (Some head) (head # as) None" and f: "\<forall>a. ts_fresh st \<le> a \<longrightarrow> ts_heap st a = None"
    using assms by (auto simp: timers_wf_def)
  then obtain hn where "ts_heap st head = Some hn" "chain in_next (ts_heap st) (in_next hn) as None" by auto
  moreover have "a < ts_fresh st" if "a \<in> set (head # as)" for a
    using chain_in_heap [OF c that] f by (metis not_le option.distinct(1))
  ultimately show thesis using that chain_distinct [OF c] by blast
qed

lemma timers_wf_distinct: "timers_wf st head as \<Longrightarrow> distinct (head # as)"
  by (elim timers_wfD)

lemma timers_wf_fresh: "timers_wf st head as \<Longrightarrow> a \<in> set (head # as) \<Longrightarrow> a < ts_fresh st"
  by (elim timers_wfD)

lemma find_loop_chain:
  assumes "chain in_next h p as None"
  shows "find_loop h p i = Some (find (\<lambda>a. in_id (the (h a)) = i) as)"
  using assms
proof (induction as arbitrary: p)
  case Nil
  then show ?case by (subst find_loop.simps) simp
next
  case (Cons a as)
  then obtain n where "p = Some a" "h a = Some n" "chain in_next h (in_next n) as None" by auto
  then show ?case using Cons.IH by (subst find_loop.simps) simp
qed

lemma list_for_entry_eq:
  assumes "timers_wf st head as"
  shows "list_for_entry st head i = Some (find (\<lambda>a. in_id (the (ts_heap st a)) = i) as)"
  using assms by (elim timers_wfD) (simp add: list_for_entry_def find_loop_chain)

lemma list_for_entry_absent:
  assumes "timers_wf st head as" and "i \<notin> set (timer_ids st as)"
  shows "list_for_entry st head i = Some None"
  using assms(2) by (auto simp: list_for_entry_eq [OF assms(1)] find_None_iff timer_ids_def)

lemma find_append_None: "find P xs = None \<Longrightarrow> find P (xs @ ys) = find P ys"
  by (induction xs) auto

lemma list_for_entry_present:
  assumes "timers_wf st head (xs @ a # ys)" and "ts_heap st a = Some n" and "in_id n = i"
  shows "list_for_entry st head i = Some (Some a)"
proof -
  have "i \<notin> set (timer_ids st xs)"
    using assms by (auto simp: timers_wf_def timer_ids_def)
  then have "find (\<lambda>a. in_id (the (ts_heap st a)) = i) xs = None"
    by (auto simp: find_None_iff timer_ids_def)
  then show ?thesis
    using assms(2,3) by (simp add: list_for_entry_eq [OF assms(1)] find_append_None)
qed

section \<open>Creating a timer\<close>

definition timer_interval :: "timer_mode_e \<Rightarrow> int \<Rightarrow> int" where
  "timer_interval mode sec = (case mode of TIMER_MODE_LOOP \<Rightarrow> sec | TIMER_MODE_SINGLE \<Rightarrow> 0)"

definition new_timer_node :: "int \<Rightarrow> timer_mode_e \<Rightarrow> int \<Rightarrow> nat \<Rightarrow> nat \<Rightarrow> imi_node" where
  "new_timer_node i mode sec f t = \<lparr>in_id = i, in_func = f, in_interval = timer_interval mode sec,
     in_value = sec, in_timer = t, in_next = None\<rparr>"

text \<open>The state after a successful creation: the new node stands right behind the head.\<close>

definition timer_added :: "addr \<Rightarrow> imi_node \<Rightarrow> imi_node \<Rightarrow> int \<times> int \<Rightarrow> mem \<Rightarrow> timer_sys \<Rightarrow> timer_sys" where
  "timer_added head hn n k m st = st\<lparr>
     ts_heap := (ts_heap st)(ts_fresh st \<mapsto> n\<lparr>in_next := in_next hn\<rparr>, head \<mapsto> hn\<lparr>in_next := Some (ts_fresh st)\<rparr>),
     ts_fresh := Suc (ts_fresh st), ts_kernel := (ts_kernel st)(in_timer n \<mapsto> k), ts_mem := m\<rparr>"

lemma create_event_timer_eq:
  assumes wf: "timers_wf st head as" and hn: "ts_heap st head = Some hn"
    and ret: "check_timer_status st (Some head) i gettime = Some (-1)"
    and mem: "malloc_ok (ts_mem st) = (True, m)"
  shows "create_event_timer (Some head) i mode sec f gettime (Some t) True st
    = Some (0, timer_added head hn (new_timer_node i mode sec f t) (sec, timer_interval mode sec) m st)"
proof -
  have "head < ts_fresh st" using wf by (elim timers_wfD) auto
  then show ?thesis
    using hn ret mem
    by (auto simp: create_event_timer_def node_alloc_def create_event_timer_node_def node_write_def
        list_add_def timer_added_def new_timer_node_def timer_interval_def zero_node_def fun_upd_twist Let_def)
qed

lemma timer_added_wf:
  fixes k :: "int \<times> int" and m :: mem
  assumes wf: "timers_wf st head as" and hn: "ts_heap st head = Some hn"
    and i: "in_id n \<notin> set (timer_ids st as)" and t: "in_timer n \<notin> dom (ts_kernel st)"
  defines "st' \<equiv> timer_added head hn n k m st"
  shows "timers_wf st' head (ts_fresh st # as)"
    and "timer_ids st' (ts_fresh st # as) = in_id n # timer_ids st as"
proof -
  note D = timers_wf_distinct [OF wf] timers_wf_fresh [OF wf]
  have a: "ts_fresh st \<notin> set (head # as)" using D(2) by blast
  have W: "chain in_next (ts_heap st) (Some head) ([] @ head # as) None"
    "distinct (timer_ids st as)" "distinct (timer_handles st as)" "set (timer_handles st as) \<subseteq> dom (ts_kernel st)"
    using wf by (auto simp: timers_wf_def)
  have same: "the (ts_heap st' b) = the (ts_heap st b)" if "b \<in> set as" for b
    using that D(1) a by (auto simp: st'_def timer_added_def)
  have new: "ts_heap st' (ts_fresh st) = Some (n\<lparr>in_next := in_next hn\<rparr>)"
    using a by (simp add: st'_def timer_added_def)
  show ids: "timer_ids st' (ts_fresh st # as) = in_id n # timer_ids st as"
    using same new by (simp add: timer_ids_def)
  have hs: "timer_handles st' (ts_fresh st # as) = in_timer n # timer_handles st as"
    using same new by (simp add: timer_handles_def)
  have "chain in_next (ts_heap st') (Some head) (head # ts_fresh st # as) None"
    using imi.chain_insert [OF W(1) hn, of "ts_fresh st" n] a by (simp add: st'_def timer_added_def)
  moreover have "\<forall>b. ts_fresh st' \<le> b \<longrightarrow> ts_heap st' b = None"
    using wf D(2) [of head] by (auto simp: st'_def timer_added_def timers_wf_def)
  moreover have "in_timer n \<notin> set (timer_handles st as)" using t W(4) by auto
  ultimately show "timers_wf st' head (ts_fresh st # as)"
    unfolding timers_wf_def ids hs using W i by (auto simp: st'_def timer_added_def)
qed

section \<open>Removing a timer\<close>

lemma del_node_loop_chain:
  assumes "chain in_next (ts_heap st) (Some prev) (prev # xs @ a # ys) None"
    and "\<forall>b \<in> set xs. in_id (the (ts_heap st b)) \<noteq> i" and "ts_heap st a = Some n" and "in_id n = i"
    and "ts_heap st prev = Some pn"
  shows "\<exists>p pm. last (prev # xs) = p \<and> ts_heap st p = Some pm
    \<and> del_node_loop (Some prev) (in_next pn) i st
      = Some (0, st\<lparr>ts_heap := (ts_heap st)(p \<mapsto> pm\<lparr>in_next := in_next n\<rparr>, a := None)\<rparr>)"
  using assms
proof (induction xs arbitrary: prev pn)
  case Nil
  then have d: "distinct (prev # a # ys)" and pa: "in_next pn = Some a"
    using chain_distinct by fastforce+
  then show ?case
    using Nil by (subst del_node_loop.simps) (auto simp: node_write_def node_free_def fun_upd_twist)
next
  case (Cons b xs)
  then obtain bn where bn: "in_next pn = Some b" "ts_heap st b = Some bn"
    "chain in_next (ts_heap st) (Some b) (b # xs @ a # ys) None" by auto
  have "\<forall>b \<in> set xs. in_id (the (ts_heap st b)) \<noteq> i" using Cons.prems(2) by simp
  from Cons.IH [OF bn(3) this Cons.prems(3,4) bn(2)]
  obtain p pm where p: "last (b # xs) = p" "ts_heap st p = Some pm"
    "del_node_loop (Some b) (in_next bn) i st
      = Some (0, st\<lparr>ts_heap := (ts_heap st)(p \<mapsto> pm\<lparr>in_next := in_next n\<rparr>, a := None)\<rparr>)" by blast
  moreover have "del_node_loop (Some prev) (in_next pn) i st = del_node_loop (Some b) (in_next bn) i st"
    using Cons.prems(2,5) bn by (subst del_node_loop.simps) simp
  moreover have "last (prev # b # xs) = last (b # xs)" by simp
  ultimately show ?case by metis
qed

definition timer_removed :: "addr \<Rightarrow> imi_node \<Rightarrow> addr \<Rightarrow> imi_node \<Rightarrow> timer_sys \<Rightarrow> timer_sys" where
  "timer_removed p pm a n st = st\<lparr>ts_heap := (ts_heap st)(p \<mapsto> pm\<lparr>in_next := in_next n\<rparr>, a := None),
     ts_kernel := (ts_kernel st)(in_timer n := None)\<rparr>"

lemma delete_designation_timer_eq:
  assumes wf: "timers_wf st head (xs @ a # ys)" and a: "ts_heap st a = Some n" "in_id n = i"
  shows "\<exists>p pm. last (head # xs) = p \<and> ts_heap st p = Some pm
    \<and> delete_designation_timer (Some head) i st = Some (0, timer_removed p pm a n st)"
proof -
  obtain hn where hn: "ts_heap st head = Some hn" using wf by (elim timers_wfD)
  let ?st = "timer_delete (in_timer n) st"
  have c: "chain in_next (ts_heap ?st) (Some head) (head # xs @ a # ys) None"
    using wf by (simp add: timers_wf_def timer_delete_def)
  have "i \<notin> (\<lambda>b. in_id (the (ts_heap st b))) ` set xs"
    using wf a by (auto simp: timers_wf_def timer_ids_def)
  then have x: "\<forall>b \<in> set xs. in_id (the (ts_heap ?st b)) \<noteq> i"
    by (auto simp: timer_delete_def)
  from del_node_loop_chain [OF c x, of n hn] a hn obtain p pm where
    "last (head # xs) = p" "ts_heap st p = Some pm"
    "del_node_loop (Some head) (in_next hn) i ?st
      = Some (0, ?st\<lparr>ts_heap := (ts_heap ?st)(p \<mapsto> pm\<lparr>in_next := in_next n\<rparr>, a := None)\<rparr>)"
    by (auto simp: timer_delete_def)
  then show ?thesis
    using list_for_entry_present [OF wf a] a hn
    by (auto simp: delete_designation_timer_def delete_designation_node_def timer_removed_def timer_delete_def)
qed

lemma timer_removed_wf:
  assumes wf: "timers_wf st head (xs @ a # ys)" and a: "ts_heap st a = Some n"
    and p: "last (head # xs) = p" "ts_heap st p = Some pm"
  defines "st' \<equiv> timer_removed p pm a n st"
  shows "timers_wf st' head (xs @ ys)" and "timer_ids st' (xs @ ys) = timer_ids st (xs @ ys)"
proof -
  obtain zs where zs: "head # xs = zs @ [p]" using p(1) by (metis append_butlast_last_id list.distinct(1))
  have "head # xs @ a # ys = zs @ p # a # ys"
    using arg_cong [OF zs, of "\<lambda>l. l @ a # ys"] by simp
  then have W: "chain in_next (ts_heap st) (Some head) (zs @ p # a # ys) None"
    using wf by (metis timers_wf_def)
  have d: "distinct (zs @ p # a # ys)" by (rule chain_distinct [OF W])
  have "chain in_next (ts_heap st') (Some head) (zs @ p # ys) None"
    using imi.chain_remove [OF W p(2) a] by (simp add: st'_def timer_removed_def)
  moreover have "head # xs @ ys = zs @ p # ys"
    using arg_cong [OF zs, of "\<lambda>l. l @ ys"] by simp
  ultimately have c: "chain in_next (ts_heap st') (Some head) (head # xs @ ys) None" by metis
  have "a \<notin> set (xs @ ys)" using timers_wf_distinct [OF wf] by simp
  then have same: "in_id (the (ts_heap st' b)) = in_id (the (ts_heap st b))"
      "in_timer (the (ts_heap st' b)) = in_timer (the (ts_heap st b))" if "b \<in> set (xs @ ys)" for b
    using that p(2) by (auto simp: st'_def timer_removed_def)
  show ids: "timer_ids st' (xs @ ys) = timer_ids st (xs @ ys)"
    using same by (auto simp: timer_ids_def)
  have hs: "timer_handles st' (xs @ ys) = timer_handles st (xs @ ys)"
    using same by (auto simp: timer_handles_def)
  have "\<forall>b. ts_fresh st' \<le> b \<longrightarrow> ts_heap st' b = None"
    using wf p(2) by (auto simp: st'_def timer_removed_def timers_wf_def)
  moreover have "in_timer n \<notin> set (timer_handles st (xs @ ys))"
    using wf a by (auto simp: timers_wf_def timer_handles_def)
  moreover have "distinct (timer_ids st (xs @ ys))" "distinct (timer_handles st (xs @ ys))"
    "set (timer_handles st (xs @ ys)) \<subseteq> dom (ts_kernel st)"
    using wf by (auto simp: timers_wf_def timer_ids_def timer_handles_def)
  ultimately show "timers_wf st' head (xs @ ys)"
    unfolding timers_wf_def ids hs using c by (auto simp: st'_def timer_removed_def)
qed

lemma timer_create_wf:
  assumes "timers_wf st head as" and "i \<notin> set (timer_ids st as)" and "malloc_ok (ts_mem st) = (True, m)"
    and "t \<notin> dom (ts_kernel st)"
  shows "\<exists>st'. create_event_timer (Some head) i mode sec f gettime (Some t) True st = Some (0, st')
    \<and> timers_wf st' head (ts_fresh st # as)
    \<and> timer_ids st' (ts_fresh st # as) = i # timer_ids st as
    \<and> ts_kernel st' = (ts_kernel st)(t \<mapsto> (sec, case mode of TIMER_MODE_LOOP \<Rightarrow> sec | TIMER_MODE_SINGLE \<Rightarrow> 0))"
proof -
  obtain hn where hn: "ts_heap st head = Some hn" using assms(1) by (elim timers_wfD)
  have "check_timer_status st (Some head) i gettime = Some (-1)"
    by (simp add: check_timer_status_def list_for_entry_absent [OF assms(1,2)])
  note eq = create_event_timer_eq [OF assms(1) hn this assms(3), of mode sec f t]
  have n: "in_id (new_timer_node i mode sec f t) = i" "in_timer (new_timer_node i mode sec f t) = t"
    by (simp_all add: new_timer_node_def)
  show ?thesis
    using timer_added_wf [OF assms(1) hn, of "new_timer_node i mode sec f t" "(sec, timer_interval mode sec)" m]
      assms(2,4) eq n by (auto simp: timer_added_def timer_interval_def)
qed

lemma timer_delete_all_crash:
  assumes "timers_wf st head (a # as)"
  shows "delete_all_timer (Some head) st = None"
proof -
  obtain hn where hn: "ts_heap st head = Some hn" "in_next hn = Some a"
    using assms by (elim timers_wfD) auto
  obtain n where n: "ts_heap st a = Some n" "head \<noteq> a"
    using assms timers_wf_distinct [OF assms] by (auto simp: timers_wf_def)
  show ?thesis
    using hn n by (subst delete_all_timer_def)
      (simp add: del_all_loop.simps node_write_def node_free_def timer_delete_def)
qed

lemma timer_init_wf:
  assumes "ts_heap st = Map.empty" and "all_ok (ts_mem st)"
  shows "\<exists>head st'. timer_init st = (Some head, st') \<and> timers_wf st' head [] \<and> ts_kernel st' = ts_kernel st
    \<and> all_ok (ts_mem st')"
  using assms malloc_all_ok [OF assms(2)]
  by (auto simp: timer_init_def node_alloc_def timers_wf_def zero_node_def timer_ids_def timer_handles_def)

section \<open>Properties\<close>

text \<open>A list with a head node only, and one with a single timer behind it.\<close>

definition timers_empty :: timer_sys where
  "timers_empty = \<lparr>ts_heap = [0 \<mapsto> zero_node], ts_fresh = 1, ts_kernel = Map.empty, ts_mem = []\<rparr>"

definition timers_one :: timer_sys where
  "timers_one = timer_added 0 zero_node (new_timer_node 0 TIMER_MODE_LOOP 60 7 3) (60, 60) [] timers_empty"

lemma timers_empty_wf: "timers_wf timers_empty 0 []"
  by (simp add: timers_wf_def timers_empty_def zero_node_def timer_ids_def timer_handles_def)

lemma timers_one_wf: "timers_wf timers_one 0 [1]"
  using timer_added_wf(1) [OF timers_empty_wf, of zero_node "new_timer_node 0 TIMER_MODE_LOOP 60 7 3"]
  by (simp add: timers_one_def timers_empty_def timer_ids_def)

text \<open>
  When memory, \<open>timer_create\<close> or \<open>timer_settime\<close> fails, \<open>create_event_timer\<close> returns -1 and
  leaves the heap and the kernel timers as they were: no node and no timer is lost.
\<close>

theorem create_event_timer_failure:
  assumes "timers_wf st head as" and "i \<notin> set (timer_ids st as)"
    and "fst (malloc_ok (ts_mem st)) = False \<or> create = None \<or> \<not> settime" and "\<forall>t. create = Some t \<longrightarrow> t \<notin> dom (ts_kernel st)"
  shows "\<exists>st'. create_event_timer (Some head) i mode sec f gettime create settime st = Some (-1, st')
    \<and> ts_heap st' = ts_heap st \<and> ts_kernel st' = ts_kernel st"
proof -
  have chk: "check_timer_status st (Some head) i gettime = Some (-1)"
    by (simp add: check_timer_status_def list_for_entry_absent [OF assms(1,2)])
  obtain ok m where m: "malloc_ok (ts_mem st) = (ok, m)" by fastforce
  have h: "(ts_heap st)(ts_fresh st := None) = ts_heap st"
    using assms(1) by (auto simp: timers_wf_def fun_upd_idem_iff)
  show ?thesis
  proof (cases "ok \<and> create \<noteq> None")
    case True
    then obtain t where t: "create = Some t" by auto
    then have "(ts_kernel st)(t := None) = ts_kernel st"
      using assms(4) by (auto simp: fun_upd_idem_iff)
    moreover have "\<not> settime" using True assms(3) m by auto
    ultimately show ?thesis
      using True t chk m h by (auto simp: create_event_timer_def node_alloc_def create_event_timer_node_def
          node_write_def node_free_def timer_delete_def Let_def)
  next
    case False
    then show ?thesis
      using chk m h by (auto simp: create_event_timer_def node_alloc_def create_event_timer_node_def
          node_write_def node_free_def)
  qed
qed

theorem create_event_timer_failure_witness:
  "\<exists>st'. create_event_timer (Some 0) 0 TIMER_MODE_SINGLE 5 7 None (Some 3) False timers_empty = Some (-1, st')
    \<and> ts_heap st' = ts_heap timers_empty \<and> ts_kernel st' = ts_kernel timers_empty"
  by (rule create_event_timer_failure [OF timers_empty_wf]) (simp_all add: timers_empty_def timer_ids_def)

text \<open>An identifier that is in the list and whose timer answers.\<close>

lemma create_event_timer_existing:
  assumes "timers_wf st head as" and "i \<in> set (timer_ids st as)" and "gettime \<noteq> None"
  shows "create_event_timer (Some head) i mode sec f gettime create settime st = Some (-1, st)"
proof -
  have "find (\<lambda>a. in_id (the (ts_heap st a)) = i) as \<noteq> None"
    using assms(2) by (auto simp: timer_ids_def find_None_iff)
  then obtain b where b: "find (\<lambda>a. in_id (the (ts_heap st a)) = i) as = Some b" by blast
  then have "b \<in> set as" by (auto simp: find_Some_iff)
  then obtain n where "ts_heap st b = Some n"
    using assms(1) chain_in_heap [of in_next "ts_heap st" "Some head" "head # as" None b] by (auto simp: timers_wf_def)
  then have "\<exists>r. check_timer_status st (Some head) i gettime = Some r \<and> r \<noteq> -1"
    using b assms(3) by (auto simp: check_timer_status_def list_for_entry_eq [OF assms(1)] split: if_splits prod.splits)
  then show ?thesis by (auto simp: create_event_timer_def)
qed

text \<open>
  C13: \<open>create_event_timer\<close> on a well-formed list. An identifier that is in the list, and whose timer answers,
  is refused with -1 and nothing changes. For a new identifier, when memory, \<open>timer_create\<close> and \<open>timer_settime\<close>
  succeed, it returns 0, puts one new node in front, arms its kernel timer with the requested period
  (repeating exactly in loop mode) and keeps the list well-formed; when one of them fails it returns -1 and
  leaves the nodes and the kernel timers as they were.
\<close>

theorem create_event_timer_correct:
  assumes "timers_wf st head as" and "\<forall>t. create = Some t \<longrightarrow> t \<notin> dom (ts_kernel st)" and "i \<in> set (timer_ids st as) \<longrightarrow> gettime \<noteq> None"
  shows "if i \<in> set (timer_ids st as)
    then create_event_timer (Some head) i mode sec f gettime create settime st = Some (-1, st)
    else if fst (malloc_ok (ts_mem st)) \<and> create \<noteq> None \<and> settime
    then \<exists>st'. create_event_timer (Some head) i mode sec f gettime create settime st = Some (0, st')
      \<and> timers_wf st' head (ts_fresh st # as)
      \<and> timer_ids st' (ts_fresh st # as) = i # timer_ids st as
      \<and> ts_kernel st' = (ts_kernel st)(the create \<mapsto> (sec, case mode of TIMER_MODE_LOOP \<Rightarrow> sec | TIMER_MODE_SINGLE \<Rightarrow> 0))
    else \<exists>st'. create_event_timer (Some head) i mode sec f gettime create settime st = Some (-1, st')
      \<and> ts_heap st' = ts_heap st \<and> ts_kernel st' = ts_kernel st"
proof (cases "i \<in> set (timer_ids st as)")
  case True
  then show ?thesis using create_event_timer_existing [OF assms(1)] assms(3) by simp
next
  case new: False
  show ?thesis
  proof (cases "fst (malloc_ok (ts_mem st)) \<and> create \<noteq> None \<and> settime")
    case True
    then obtain t m where t: "create = Some t" "malloc_ok (ts_mem st) = (True, m)" by (metis option.exhaust prod.collapse)
    show ?thesis using timer_create_wf [OF assms(1) new t(2), of t mode sec f gettime] assms(2) t(1) True new by simp
  next
    case False
    then show ?thesis using create_event_timer_failure [OF assms(1) new _ assms(2)] new by auto
  qed
qed

theorem create_event_timer_correct_witness:
  "\<exists>st'. create_event_timer (Some 0) 0 TIMER_MODE_LOOP 60 7 None (Some 3) True timers_empty = Some (0, st')
    \<and> timers_wf st' 0 [1] \<and> ts_kernel st' = [3 \<mapsto> (60, 60)]"
  using create_event_timer_correct [OF timers_empty_wf, of "Some 3" 0 None TIMER_MODE_LOOP 60 7 True]
  by (auto simp: timers_empty_def timer_ids_def)

text \<open>
  \<open>create_event_timer\<close> takes a failure of \<open>timer_gettime\<close> on an existing timer for its absence:
  it then adds a second node with the same identifier, and the list is no longer well-formed.
\<close>

theorem create_event_timer_duplicate:
  assumes "timers_wf st head as" and "i \<in> set (timer_ids st as)" and "malloc_ok (ts_mem st) = (True, m)"
  shows "\<exists>st'. create_event_timer (Some head) i mode sec f None (Some t) True st = Some (0, st')
    \<and> timer_ids st' (ts_fresh st # as) = i # timer_ids st as \<and> \<not> timers_wf st' head (ts_fresh st # as)"
proof -
  obtain hn where hn: "ts_heap st head = Some hn" using assms(1) by (elim timers_wfD)
  have "find (\<lambda>a. in_id (the (ts_heap st a)) = i) as \<noteq> None"
    using assms(2) by (auto simp: timer_ids_def find_None_iff)
  then obtain b where "find (\<lambda>a. in_id (the (ts_heap st a)) = i) as = Some b" by blast
  moreover from this have "b \<in> set as" by (auto simp: find_Some_iff)
  then have "\<exists>n. ts_heap st b = Some n"
    using assms(1) chain_in_heap [of in_next "ts_heap st" "Some head" "head # as" None b]
    by (simp add: timers_wf_def)
  ultimately have "check_timer_status st (Some head) i None = Some (-1)"
    by (auto simp: check_timer_status_def list_for_entry_eq [OF assms(1)])
  note eq = create_event_timer_eq [OF assms(1) hn this assms(3), of mode sec f t]
  define st' where "st' = timer_added head hn (new_timer_node i mode sec f t) (sec, timer_interval mode sec) m st"
  have D: "distinct (head # as)" "ts_fresh st \<notin> set (head # as)"
    using timers_wf_distinct [OF assms(1)] timers_wf_fresh [OF assms(1)] by blast+
  then have "the (ts_heap st' b) = the (ts_heap st b)" if "b \<in> set as" for b
    using that by (auto simp: st'_def timer_added_def)
  then have ids: "timer_ids st' (ts_fresh st # as) = i # timer_ids st as"
    using D(2) by (simp add: timer_ids_def) (simp add: st'_def timer_added_def new_timer_node_def)
  then have "\<not> timers_wf st' head (ts_fresh st # as)" using assms(2) by (simp add: timers_wf_def)
  then show ?thesis using eq ids by (simp flip: st'_def)
qed

theorem create_event_timer_duplicate_witness:
  "\<exists>st'. create_event_timer (Some 0) 0 TIMER_MODE_LOOP 60 7 None (Some 4) True timers_one = Some (0, st')
    \<and> timer_ids st' [2, 1] = [0, 0]"
  using create_event_timer_duplicate [OF timers_one_wf, of 0 "[]" TIMER_MODE_LOOP 60 7 4]
  by (auto simp: timers_one_def timers_empty_def timer_added_def timer_ids_def new_timer_node_def numeral_2_eq_2)

text \<open>
  C14: \<open>delete_designation_timer\<close> removes exactly the node with the identifier, deletes its kernel timer
  and no other, frees the node, and keeps the list well-formed and in order.
\<close>

theorem delete_designation_timer_correct:
  assumes "timers_wf st head (xs @ a # ys)" and "ts_heap st a = Some n"
  shows "\<exists>st'. delete_designation_timer (Some head) (in_id n) st = Some (0, st')
    \<and> timers_wf st' head (xs @ ys) \<and> timer_ids st' (xs @ ys) = timer_ids st (xs @ ys)
    \<and> ts_heap st' a = None \<and> ts_kernel st' = (ts_kernel st)(in_timer n := None)"
  using delete_designation_timer_eq [OF assms refl] timer_removed_wf [OF assms]
  by (auto simp: timer_removed_def)

theorem delete_designation_timer_correct_witness:
  "\<exists>st'. delete_designation_timer (Some 0) 0 timers_one = Some (0, st') \<and> timers_wf st' 0 []
    \<and> ts_heap st' 1 = None \<and> ts_kernel st' = Map.empty"
  using delete_designation_timer_correct [of timers_one 0 "[]" 1 "[]" "new_timer_node 0 TIMER_MODE_LOOP 60 7 3"]
    timers_one_wf
  by (auto simp: timers_one_def timers_empty_def timer_added_def new_timer_node_def zero_node_def)

text \<open>
  \<open>delete_all_timer\<close> on any list with at least one timer reads the link of a node it has just freed.
\<close>

theorem delete_all_timer_use_after_free:
  assumes "timers_wf st head (a # as)"
  shows "delete_all_timer (Some head) st = None"
  by (rule timer_delete_all_crash [OF assms])

theorem delete_all_timer_use_after_free_witness:
  "delete_all_timer (Some 0) timers_one = None"
  by (rule delete_all_timer_use_after_free [OF timers_one_wf])

end
