(* ===== verification/Imi_Db.thy ===== *)
theory Imi_Db
  imports Ini_Load Imi_Timer
begin

text \<open>
  The settings database of the camera, \<open>auto_imi_db_bin/src/imi_db_mi.c\<close> and \<open>imi_db_mi.h\<close>: four
  databases (factory data, settings kept in a file, run-time settings in a file, settings in memory)
  chosen by the hash of the first three characters of a key, on top of the ini parser and the timer
  list.

  The static variables of the file are one record of state; files are a table of contents. Opening a
  file for writing needs the path to be writable, opening it for reading or update needs it to exist.
  \<open>flock\<close> and the log output have no effect here. A dictionary pointer can dangle after
  \<open>imi_db_mi_deinit\<close>. \<open>size_t\<close> has the 32 bits of the \<open>arm-linux\<close> target.
\<close>

section \<open>Data\<close>

definition RET_OK :: int where "RET_OK = 0"
definition RET_NO_VALUE_ERR :: int where "RET_NO_VALUE_ERR = -1"
definition RET_LENGTH_ERR :: int where "RET_LENGTH_ERR = -2"
definition RET_READONLY_ERR :: int where "RET_READONLY_ERR = -4"

datatype db_type = DB_ROM | DB_NVM | DB_RAM | DB_MEM

text \<open>The entries of the table \<open>db_keys\<close>: key, default value, description.\<close>

type_synonym db_info_keys_t = "string \<times> string option \<times> string option"

definition db_keys :: "db_info_keys_t list" where
  "db_keys = [
     (''ROM.vendor'', None, Some ''vendor information''),
     (''ROM.model'', None, None),
     (''ROM.language'', None, None),
     (''ROM.mac'', None, None),
     (''ROM.oob'', None, None),
     (''ROM.mjac_i2c'', None, None),
     (''ROM.mjac_gpio'', None, None),
     (''ROM.did'', None, None),
     (''ROM.key'', None, Some ''key value for mijia''),
     (''NVM.IPC:bind_status'', Some ''failed'', None),
     (''NVM.IPC:power'', Some ''1'', None),
     (''NVM.IPC:led_status'', Some ''1'', None),
     (''NVM.IPC:improve_program'', Some ''0'', None),
     (''NVM.IPC:motor'', Some ''[50,50]'', None),
     (''NVM.P2P:token'', Some [], None),
     (''NVM.CLOUD:detect_swtich'', Some ''0'', None),
     (''NVM.CLOUD:babycry_switch'', Some ''0'', None),
     (''NVM.CLOUD:interval'', Some ''5'', None),
     (''NVM.CLOUD:detect_start_time'', Some [], None),
     (''NVM.CLOUD:detect_end_time'', Some [], None),
     (''NVM.VIDEO:wdr'', Some ''0'', None),
     (''NVM.VIDEO:filp'', Some ''0'', None),
     (''NVM.VIDEO:watermark'', Some ''1'', None),
     (''NVM.ALGO:sensitivity'', Some [], None),
     (''NVM.ALGO:track_switch'', Some ''0'', None),
     (''NVM.ALGO:night_mode'', Some ''0'', None),
     (''NVM.BIND:wifi_ssid'', Some [], None),
     (''NVM.BIND:wifi_pwd'', Some [], None),
     (''NVM.BIND:timezone'', Some [], None),
     (''NVM.SD:storage_mode'', Some ''0'', None),
     (''RAM.RUN:motor_reset'', Some ''0'', None),
     (''MEM.runlevel'', Some ''runlevel'', None)]"

datatype db_ptr = DNull | DLive dictionary | DFreed

record db_name_t =
  dn_db :: db_ptr
  dn_path :: "string option"
  dn_name :: string
  dn_hash :: u32
  dn_sync :: bool

record db_sys =
  sy_db :: "db_type \<Rightarrow> db_name_t"
  sy_sect_hash :: u32
  sy_db_timer :: "addr option"
  sy_timers :: timer_sys
  sy_files :: "string \<rightharpoonup> string"
  sy_writable :: "string \<Rightarrow> bool"
  sy_mem :: mem

definition NVM_DB_PATH :: string where "NVM_DB_PATH = ''./new.ini''"
definition RAM_INI_PATH :: string where "RAM_INI_PATH = ''./run.ini''"
definition FACTORY_PATH :: string where "FACTORY_PATH = ''./factory.txt''"

fun db_name :: "db_type \<Rightarrow> db_name_t" where
  "db_name DB_ROM = \<lparr>dn_db = DNull, dn_path = None, dn_name = ''ROM'', dn_hash = 0, dn_sync = False\<rparr>"
| "db_name DB_NVM = \<lparr>dn_db = DNull, dn_path = Some NVM_DB_PATH, dn_name = ''NVM'', dn_hash = 0, dn_sync = False\<rparr>"
| "db_name DB_RAM = \<lparr>dn_db = DNull, dn_path = Some RAM_INI_PATH, dn_name = ''RAM'', dn_hash = 0, dn_sync = False\<rparr>"
| "db_name DB_MEM = \<lparr>dn_db = DNull, dn_path = None, dn_name = ''MEM'', dn_hash = 0, dn_sync = False\<rparr>"

text \<open>The indices in the order of the loops.\<close>

definition db_types :: "db_type list" where
  "db_types = [DB_ROM, DB_NVM, DB_RAM, DB_MEM]"

definition upd_db :: "db_type \<Rightarrow> (db_name_t \<Rightarrow> db_name_t) \<Rightarrow> db_sys \<Rightarrow> db_sys" where
  "upd_db i f sy = sy\<lparr>sy_db := (sy_db sy)(i := f (sy_db sy i))\<rparr>"

text \<open>A dictionary argument read from a pointer; a dangling one has no value.\<close>

fun deref :: "db_ptr \<Rightarrow> dictionary option option" where
  "deref DNull = Some None"
| "deref (DLive d) = Some (Some d)"
| "deref DFreed = None"

fun db_ptr_of :: "dictionary option \<Rightarrow> db_ptr" where
  "db_ptr_of None = DNull"
| "db_ptr_of (Some d) = DLive d"

section \<open>Keys\<close>

definition KEY_OFFSET :: nat where "KEY_OFFSET = 4"

text \<open>The hash of the first \<open>len\<close> characters; it may read the terminating NUL but nothing beyond.\<close>

fun string_hash :: "string option \<Rightarrow> nat \<Rightarrow> u32 option" where
  "string_hash None len = Some 0"
| "string_hash (Some key) len =
     (if len \<le> length key + 1
      then (let hash = hash_loop (take len (key @ [CHR 0x00])) 0;
                hash = hash + push_bit 3 hash;
                hash = hash XOR drop_bit 11 hash;
                hash = hash + push_bit 15 hash
            in Some hash)
      else None)"

text \<open>\<open>key + KEY_OFFSET\<close> as a string.\<close>

definition key_suffix :: "string \<Rightarrow> string option" where
  "key_suffix key = (if KEY_OFFSET \<le> length key then Some (drop KEY_OFFSET key) else None)"

section \<open>The factory partition\<close>

text \<open>A buffer of which only a part may have been written; \<open>None\<close> is an uninitialised byte.\<close>

type_synonym buffer = "char option list"

definition rd :: "buffer \<Rightarrow> nat \<Rightarrow> char option" where
  "rd buf i = Option.bind (nth_opt buf i) id"

definition pchar :: "string \<Rightarrow> nat \<Rightarrow> char" where
  "pchar s j = (if j < length s then s ! j else CHR 0x00)"

function match_loop :: "buffer \<Rightarrow> string \<Rightarrow> nat \<Rightarrow> nat \<Rightarrow> nat option" where
  "match_loop psrc pdst i j =
     (if j < length pdst then do {
        c \<leftarrow> rd psrc (i + j);
        (if c = CHR 0x00 then Some j
         else do {
           c' \<leftarrow> rd psrc (i + Suc j);
           (if pchar pdst (Suc j) \<noteq> c' then Some (Suc j) else match_loop psrc pdst i (Suc j))
         })
      } else Some j)"
  by pat_completeness auto
termination by (relation "measure (\<lambda>(psrc, pdst, i, j). length pdst - j)") auto

declare match_loop.simps [simp del]

function find_from :: "buffer \<Rightarrow> nat \<Rightarrow> string \<Rightarrow> nat \<Rightarrow> int option" where
  "find_from psrc len pdst i =
     (if i < len then do {
        c \<leftarrow> rd psrc i;
        (if c \<noteq> pchar pdst 0 then find_from psrc len pdst (Suc i)
         else do {
           j \<leftarrow> match_loop psrc pdst i 0;
           (if pchar pdst j = CHR 0x00 then Some (int i) else find_from psrc len pdst (Suc i))
         })
      } else Some (-1))"
  by pat_completeness auto
termination by (relation "measure (\<lambda>(psrc, len, pdst, i). len - i)") auto

declare find_from.simps [simp del]

definition string_find :: "buffer \<Rightarrow> nat \<Rightarrow> string \<Rightarrow> int option" where
  "string_find psrc len pdst = find_from psrc len pdst 0"

function kv_copy :: "buffer \<Rightarrow> nat \<Rightarrow> nat \<Rightarrow> nat \<Rightarrow> string \<Rightarrow> (nat \<times> string) option" where
  "kv_copy psrc index i out_len out =
     (if i < out_len then do {
        c \<leftarrow> rd psrc (index + i);
        out \<leftarrow> upd_opt out i c;
        (if c = CHR 0x00 then Some (i, out) else kv_copy psrc index (Suc i) out_len out)
      } else Some (i, out))"
  by pat_completeness auto
termination by (relation "measure (\<lambda>(psrc, index, i, out_len, out). out_len - i)") auto

declare kv_copy.simps [simp del]

definition string_key_value_get :: "buffer \<Rightarrow> nat \<Rightarrow> string \<Rightarrow> string option \<Rightarrow> nat
    \<Rightarrow> (int \<times> string option) option" where
  "string_key_value_get psrc len pdst outp out_len = do {
     index \<leftarrow> string_find psrc len pdst;
     (case outp of
        None \<Rightarrow> Some (-1, None)
      | Some out \<Rightarrow>
          (if index = -1 then Some (-1, Some out)
           else do {
             (i, out) \<leftarrow> kv_copy psrc (length pdst + 1 + nat index) 0 out_len out;
             Some (if i = out_len then -2 else int i, Some out)
           }))
   }"

definition FACTORY_SIZE :: nat where "FACTORY_SIZE = 64 * 1024"

text \<open>The buffer after \<open>malloc (size)\<close> and \<open>fgets (buf, size, fd)\<close>.\<close>

definition factory_buffer :: "string \<Rightarrow> buffer" where
  "factory_buffer contents =
     (case fgets (int FACTORY_SIZE) contents of
        None \<Rightarrow> replicate FACTORY_SIZE None
      | Some (chunk, _) \<Rightarrow>
          map Some (chunk @ [CHR 0x00]) @ replicate (FACTORY_SIZE - length chunk - 1) None)"

text \<open>One iteration over the key table for a key of the ROM database.\<close>

fun factory_key :: "u32 \<Rightarrow> buffer \<Rightarrow> db_info_keys_t \<Rightarrow> dictionary option \<times> mem \<Rightarrow> (dictionary option \<times> mem) option" where
  "factory_key rom_hash buf (key, _, _) (ini, m) = do {
     h \<leftarrow> string_hash (Some key) 3;
     (if rom_hash = h
      then do {
        name \<leftarrow> key_suffix key;
        (r, outp) \<leftarrow> string_key_value_get buf FACTORY_SIZE name (Some (replicate 1024 (CHR 0x00))) 1024;
        (if 0 < r
         then do {
           out \<leftarrow> outp;
           (_, ini, m) \<leftarrow> dictionary_set ini (Some name) (Some (cstring out)) m;
           Some (ini, m)
         }
         else Some (ini, m))
      }
      else Some (ini, m))
   }"

text \<open>
  When the buffer cannot be allocated the code frees the string literal \<open>"./factory.txt"\<close>, which is
  undefined.
\<close>

definition factory_info_load :: "db_sys \<Rightarrow> (dictionary option \<times> mem) option" where
  "factory_info_load sy =
     (case malloc_ok (sy_mem sy) of (ok, m) \<Rightarrow>
        if \<not> ok then None
        else case sy_files sy FACTORY_PATH of
          None \<Rightarrow> Some (None, m)
        | Some contents \<Rightarrow>
            (if \<not> sy_writable sy FACTORY_PATH then Some (None, m)
             else case dictionary_new 0 m of (ini, m) \<Rightarrow>
               fold_opt (factory_key (dn_hash (sy_db sy DB_ROM)) (factory_buffer contents)) db_keys (ini, m)))"

section \<open>Creating the databases\<close>

text \<open>
  The lines the default file gets for one key: a header when the section differs from the last one
  printed, remembered by its hash in the static variable \<open>sect_hash\<close>, then the key with its default.
\<close>

definition fmt_section_key :: "directive list" where
  "fmt_section_key = [Scanset True '':'', Lit (CHR '':''), Scanset True '':'']"

fun default_line :: "u32 \<Rightarrow> db_info_keys_t \<Rightarrow> string \<times> u32 \<Rightarrow> (string \<times> u32) option" where
  "default_line db_hash (key, v, _) (out, sect_hash) = do {
     h \<leftarrow> string_hash (Some key) 3;
     (if db_hash = h
      then do {
        suffix \<leftarrow> key_suffix key;
        str \<leftarrow> store 1024 suffix;
        (section, k) \<leftarrow> (case sscanf fmt_section_key str of
            [] \<Rightarrow> Some ([], [])
          | [sec] \<Rightarrow> do { sec \<leftarrow> store 1024 sec; Some (sec, []) }
          | sec # k # _ \<Rightarrow> do { sec \<leftarrow> store 1024 sec; k \<leftarrow> store 1024 k; Some (sec, k) });
        sh \<leftarrow> string_hash (Some section) (length section);
        v' \<leftarrow> v;
        (let (out, sect_hash) =
           (if sect_hash \<noteq> sh
            then (out @ [CHR 0x0A, CHR 0x0A] @ ''['' @ section @ '']'' @ [CHR 0x0A], sh)
            else (out, sect_hash))
         in Some (out @ k @ [CHR 0x09] @ ''='' @ [CHR 0x09] @ v' @ '' '' @ [CHR 0x0A], sect_hash))
      }
      else Some (out, sect_hash))
   }"

fun mem_key :: "u32 \<Rightarrow> db_info_keys_t \<Rightarrow> dictionary option \<times> mem \<Rightarrow> (dictionary option \<times> mem) option" where
  "mem_key mem_hash (key, v, _) (ini, m) = do {
     h \<leftarrow> string_hash (Some key) 3;
     (if mem_hash = h
      then do {
        suffix \<leftarrow> key_suffix key;
        (_, ini, m) \<leftarrow> dictionary_set ini (Some suffix) v m;
        Some (ini, m)
      }
      else Some (ini, m))
   }"

text \<open>The database of a file: loaded, or created with the defaults and loaded again.\<close>

definition create_file_db :: "db_type \<Rightarrow> string \<Rightarrow> db_sys \<Rightarrow> (dictionary option \<times> db_sys) option" where
  "create_file_db index path sy = do {
     (ini, _, m) \<leftarrow> iniparser_load (sy_files sy path) (sy_mem sy);
     (let sy = sy\<lparr>sy_mem := m\<rparr> in
      case ini of
        Some d \<Rightarrow> Some (Some d, sy)
      | None \<Rightarrow>
          (if \<not> sy_writable sy path then Some (None, sy)
           else do {
             (text, sect_hash) \<leftarrow> fold_opt (default_line (dn_hash (sy_db sy index))) db_keys ([], sy_sect_hash sy);
             (let sy = sy\<lparr>sy_files := (sy_files sy)(path \<mapsto> text), sy_sect_hash := sect_hash\<rparr> in do {
               (ini, _, m) \<leftarrow> iniparser_load (sy_files sy path) (sy_mem sy);
               Some (ini, sy\<lparr>sy_mem := m\<rparr>)
             })
           }))
   }"

definition imi_db_mi_create_default_db :: "db_type \<Rightarrow> db_sys \<Rightarrow> (dictionary option \<times> db_sys) option" where
  "imi_db_mi_create_default_db index sy =
     (case index of
        DB_ROM \<Rightarrow> do {
          (ini, m) \<leftarrow> factory_info_load sy;
          Some (ini, sy\<lparr>sy_mem := m\<rparr>)
        }
      | DB_MEM \<Rightarrow>
          (case dictionary_new 0 (sy_mem sy) of (ini, m) \<Rightarrow> do {
            (ini, m) \<leftarrow> fold_opt (mem_key (dn_hash (sy_db sy DB_MEM))) db_keys (ini, m);
            Some (ini, sy\<lparr>sy_mem := m\<rparr>)
          })
      | _ \<Rightarrow>
          (case dn_path (sy_db sy index) of
             None \<Rightarrow> Some (None, sy)
           | Some path \<Rightarrow> create_file_db index path sy))"

section \<open>Saving\<close>

text \<open>
  The advisory locks around the writing of a file, with the answer of \<open>flock\<close>; the callers ignore the result, so
  that a file that is locked by another process is written all the same.
\<close>

definition file_lock :: "bool \<Rightarrow> int \<Rightarrow> int" where
  "file_lock opened answer = (if opened \<and> answer \<noteq> 0 then -1 else 0)"

definition file_unlock :: "bool \<Rightarrow> int \<Rightarrow> int" where
  "file_unlock opened answer = (if opened \<and> answer \<noteq> 0 then -1 else 0)"

text \<open>
  A file opened with mode \<open>rt+\<close> is overwritten from its start and not truncated.
\<close>

definition overwrite :: "string \<Rightarrow> string \<Rightarrow> string" where
  "overwrite old text = text @ drop (length text) old"

fun save_loop :: "db_type list \<Rightarrow> db_sys \<Rightarrow> (int \<times> db_sys) option" where
  "save_loop [] sy = Some (0, sy)"
| "save_loop (i # is) sy = do {
     dp \<leftarrow> deref (dn_db (sy_db sy i));
     (case (dp, dn_path (sy_db sy i)) of
        (Some d, Some path) \<Rightarrow>
          (if dn_sync (sy_db sy i)
           then (case sy_files sy path of
               None \<Rightarrow> Some (-1, sy)
             | Some old \<Rightarrow>
                 (if \<not> sy_writable sy path then Some (-1, sy)
                  else do {
                    f \<leftarrow> iniparser_dump_ini (Some d) (Some []);
                    text \<leftarrow> f;
                    save_loop is (upd_db i (\<lambda>e. e\<lparr>dn_sync := False\<rparr>)
                      (sy\<lparr>sy_files := (sy_files sy)(path \<mapsto> overwrite old text)\<rparr>))
                  }))
           else save_loop is sy)
      | _ \<Rightarrow> save_loop is sy)
   }"

definition imi_db_mi_save_db_file :: "db_sys \<Rightarrow> (int \<times> db_sys) option" where
  "imi_db_mi_save_db_file sy = save_loop db_types sy"

definition imi_db_timeout_sync_db :: "db_sys \<Rightarrow> db_sys option" where
  "imi_db_timeout_sync_db sy = do { (_, sy) \<leftarrow> imi_db_mi_save_db_file sy; Some sy }"

section \<open>The interface\<close>

definition SYNC_DATABASE_TIME_INTERVAL :: int where "SYNC_DATABASE_TIME_INTERVAL = 60"

fun init_hashes :: "db_type list \<Rightarrow> db_sys \<Rightarrow> db_sys option" where
  "init_hashes [] sy = Some sy"
| "init_hashes (i # is) sy = do {
     h \<leftarrow> string_hash (Some (dn_name (sy_db sy i))) 3;
     init_hashes is (upd_db i (\<lambda>e. e\<lparr>dn_hash := h\<rparr>) sy)
   }"

fun init_dbs :: "db_type list \<Rightarrow> db_sys \<Rightarrow> (int \<times> db_sys) option" where
  "init_dbs [] sy = Some (0, sy)"
| "init_dbs (i # is) sy = do {
     (ini, sy) \<leftarrow> imi_db_mi_create_default_db i sy;
     (let sy = upd_db i (\<lambda>e. e\<lparr>dn_db := db_ptr_of ini\<rparr>) sy
      in if ini = None then Some (-1, sy) else init_dbs is sy)
   }"

text \<open>
  The last step of the initialisation starts the timer that saves the databases every minute.
  \<open>create\<close> and \<open>settime\<close> are the answers of the kernel to the timer calls; the handler
  \<open>imi_db_timeout_sync_db\<close> is function 0. What \<open>create_event_timer\<close> returns is ignored.
\<close>

definition start_sync_timer :: "nat option \<Rightarrow> bool \<Rightarrow> db_sys \<Rightarrow> db_sys option" where
  "start_sync_timer create settime sy =
     (case timer_init (sy_timers sy) of (head, ts) \<Rightarrow> do {
        (_, ts) \<leftarrow> create_event_timer head 0 TIMER_MODE_LOOP SYNC_DATABASE_TIME_INTERVAL 0 None create settime ts;
        Some (sy\<lparr>sy_db_timer := head, sy_timers := ts\<rparr>)
      })"

definition imi_db_mi_init :: "nat option \<Rightarrow> bool \<Rightarrow> db_sys \<Rightarrow> (int \<times> db_sys) option" where
  "imi_db_mi_init create settime sy = do {
     sy \<leftarrow> init_hashes db_types sy;
     (ret, sy) \<leftarrow> init_dbs db_types sy;
     (if ret \<noteq> 0 then Some (-1, sy)
      else do { sy \<leftarrow> start_sync_timer create settime sy; Some (0, sy) })
   }"

definition size_of_int :: "int \<Rightarrow> int" where
  "size_of_int i = (if i < 0 then i + 2 ^ 32 else i)"

text \<open>The value is copied without its NUL.\<close>

fun get_loop :: "db_type list \<Rightarrow> db_sys \<Rightarrow> string \<Rightarrow> string \<Rightarrow> int \<Rightarrow> (int \<times> string) option" where
  "get_loop [] sy key out len = Some (RET_NO_VALUE_ERR, out)"
| "get_loop (i # is) sy key out len = do {
     h \<leftarrow> string_hash (Some key) 3;
     (if dn_hash (sy_db sy i) = h
      then do {
        suffix \<leftarrow> key_suffix key;
        dp \<leftarrow> deref (dn_db (sy_db sy i));
        s \<leftarrow> iniparser_getstring dp (Some suffix) CNull;
        (case s of
           CStr v \<Rightarrow>
             (if size_of_int len < int (length v) then Some (RET_LENGTH_ERR, out)
              else do { out \<leftarrow> memcpy out 0 v 0 (int (length v)); Some (RET_OK, out) })
         | _ \<Rightarrow> Some (RET_NO_VALUE_ERR, out))
      }
      else get_loop is sy key out len)
   }"

definition imi_db_mi_get_value :: "db_sys \<Rightarrow> string \<Rightarrow> string \<Rightarrow> int \<Rightarrow> (int \<times> string) option" where
  "imi_db_mi_get_value sy key out len = get_loop db_types sy key out len"

text \<open>The store itself: which database the key selects, and what happens there.\<close>

fun set_loop :: "db_type list \<Rightarrow> db_sys \<Rightarrow> string \<Rightarrow> string option \<Rightarrow> (int + int \<times> db_sys) option" where
  "set_loop [] sy key v = Some (Inl RET_NO_VALUE_ERR)"
| "set_loop (i # is) sy key v = do {
     h \<leftarrow> string_hash (Some key) 3;
     (if dn_hash (sy_db sy i) = h
      then (if i = DB_ROM then Some (Inl RET_READONLY_ERR)
            else do {
              suffix \<leftarrow> key_suffix key;
              dp \<leftarrow> deref (dn_db (sy_db sy i));
              (ret, dp, m) \<leftarrow> iniparser_set dp (Some suffix) v (sy_mem sy);
              Some (Inr (ret, (upd_db i (\<lambda>e. e\<lparr>dn_sync := True, dn_db := db_ptr_of dp\<rparr>) sy)\<lparr>sy_mem := m\<rparr>))
            })
      else set_loop is sy key v)
   }"

definition imi_db_mi_set_value :: "db_sys \<Rightarrow> string \<Rightarrow> string option \<Rightarrow> bool \<Rightarrow> (int \<times> db_sys) option" where
  "imi_db_mi_set_value sy key v flag = do {
     r \<leftarrow> set_loop db_types sy key v;
     (case r of
        Inl err \<Rightarrow> Some (err, sy)
      | Inr (ret, sy) \<Rightarrow> if flag then imi_db_mi_save_db_file sy else Some (ret, sy))
   }"

fun free_loop :: "db_type list \<Rightarrow> db_sys \<Rightarrow> db_sys option" where
  "free_loop [] sy = Some sy"
| "free_loop (i # is) sy = do {
     dp \<leftarrow> deref (dn_db (sy_db sy i));
     (case dp of
        None \<Rightarrow> free_loop is sy
      | Some d \<Rightarrow> do {
          _ \<leftarrow> iniparser_freedict (Some d);
          free_loop is (upd_db i (\<lambda>e. e\<lparr>dn_db := DFreed\<rparr>) sy)
        })
   }"

definition imi_db_mi_deinit :: "db_sys \<Rightarrow> db_sys option" where
  "imi_db_mi_deinit sy = do {
     ts \<leftarrow> (case sy_db_timer sy of
        None \<Rightarrow> Some (sy_timers sy)
      | Some head \<Rightarrow> map_option snd (delete_all_timer (Some head) (sy_timers sy)));
     free_loop db_types (sy\<lparr>sy_timers := ts\<rparr>)
   }"

section \<open>Selecting a database\<close>

text \<open>A key of database \<open>i\<close>: its name, a separator, and the key inside the database.\<close>

definition db_key :: "db_type \<Rightarrow> char \<Rightarrow> string \<Rightarrow> string" where
  "db_key i c k = dn_name (db_name i) @ c # k"

definition name_hash :: "db_type \<Rightarrow> u32" where
  "name_hash i = the (string_hash (Some (dn_name (db_name i))) 3)"

lemma name_hash_distinct: "distinct (map name_hash db_types)"
  by code_simp

lemma db_types_all: "set db_types = UNIV"
  by (auto simp: db_types_def intro: db_type.exhaust)

lemma name_hash_inj: "name_hash i = name_hash j \<longleftrightarrow> i = j"
  using name_hash_distinct db_types_all by (auto simp: distinct_map dest: inj_onD)

lemma length_db_name: "length (dn_name (db_name i)) = 3"
  by (cases i) auto

lemma string_hash_db_key: "string_hash (Some (db_key i c k)) 3 = Some (name_hash i)"
  by (simp add: name_hash_def db_key_def length_db_name Let_def)

declare string_hash.simps(2) [simp del]

lemma string_hash_literal:
  "string_hash (Some (CHR ''R'' # CHR ''O'' # CHR ''M'' # k)) 3 = Some (name_hash DB_ROM)"
  "string_hash (Some (CHR ''N'' # CHR ''V'' # CHR ''M'' # k)) 3 = Some (name_hash DB_NVM)"
  "string_hash (Some (CHR ''R'' # CHR ''A'' # CHR ''M'' # k)) 3 = Some (name_hash DB_RAM)"
  "string_hash (Some (CHR ''M'' # CHR ''E'' # CHR ''M'' # k)) 3 = Some (name_hash DB_MEM)"
  by (simp_all add: string_hash.simps(2) name_hash_def Let_def)

lemma key_suffix_db_key: "key_suffix (db_key i c k) = Some k"
  by (simp add: key_suffix_def KEY_OFFSET_def db_key_def length_db_name)

text \<open>The state between \<open>imi_db_mi_init\<close> and \<open>imi_db_mi_deinit\<close>.\<close>

definition db_ready :: "db_sys \<Rightarrow> bool" where
  "db_ready sy \<longleftrightarrow> (\<forall>i. dn_hash (sy_db sy i) = name_hash i
     \<and> dn_path (sy_db sy i) = dn_path (db_name i) \<and> (\<exists>d. dn_db (sy_db sy i) = DLive d \<and> dict_wf d))"

lemma get_loop_select:
  assumes "\<And>j. dn_hash (sy_db sy j) = name_hash j" and "i \<in> set is"
  shows "get_loop is sy (db_key i c k) out len = get_loop [i] sy (db_key i c k) out len"
  using assms(2)
proof (induction "is")
  case (Cons j "is")
  then show ?case by (cases "j = i") (auto simp: assms(1) string_hash_db_key name_hash_inj)
qed simp

lemma set_loop_select:
  assumes "\<And>j. dn_hash (sy_db sy j) = name_hash j" and "i \<in> set is"
  shows "set_loop is sy (db_key i c k) v = set_loop [i] sy (db_key i c k) v"
  using assms(2)
proof (induction "is")
  case (Cons j "is")
  then show ?case by (cases "j = i") (auto simp: assms(1) string_hash_db_key name_hash_inj)
qed simp

text \<open>What a lookup answers, from the map of the selected database.\<close>

definition answer :: "string option option \<Rightarrow> string \<Rightarrow> int \<Rightarrow> (int \<times> string) option" where
  "answer r out len =
     (case r of
        Some (Some v) \<Rightarrow>
          (if size_of_int len < int (length v) then Some (RET_LENGTH_ERR, out)
           else map_option (\<lambda>out. (RET_OK, out)) (memcpy out 0 v 0 (int (length v))))
      | _ \<Rightarrow> Some (RET_NO_VALUE_ERR, out))"

lemma get_value_eq:
  assumes ready: "db_ready sy" and d: "dn_db (sy_db sy i) = DLive d"
  shows "imi_db_mi_get_value sy (db_key i c k) out len = answer (dict_map d (ini_fold k)) out len"
proof -
  have h: "\<And>j. dn_hash (sy_db sy j) = name_hash j" and wf: "dict_wf d"
    using ready d unfolding db_ready_def by auto (metis db_ptr.inject)
  show ?thesis
    unfolding imi_db_mi_get_value_def get_loop_select [OF h, of i db_types, unfolded db_types_all, OF UNIV_I]
    by (auto simp: h string_hash_db_key key_suffix_db_key d iniparser_getstring_eq [OF wf] answer_def
        map_option_case split: option.splits)
qed

lemma set_value_eq:
  assumes ready: "db_ready sy" and i: "i \<noteq> DB_ROM" and d: "dn_db (sy_db sy i) = DLive d"
    and room: "d_n d < INT_MAX" and ok: "all_ok (sy_mem sy)"
  shows "\<exists>d' m'. imi_db_mi_set_value sy (db_key i c k) v False
      = Some (0, (upd_db i (\<lambda>e. e\<lparr>dn_sync := True, dn_db := DLive d'\<rparr>) sy)\<lparr>sy_mem := m'\<rparr>)
    \<and> dict_wf d' \<and> dict_map d' = (dict_map d)(ini_fold k \<mapsto> v) \<and> all_ok m'"
proof -
  have h: "\<And>j. dn_hash (sy_db sy j) = name_hash j" and wf: "dict_wf d"
    using ready d unfolding db_ready_def by auto (metis db_ptr.inject)
  obtain d' m' where "iniparser_set (Some d) (Some k) v (sy_mem sy) = Some (0, Some d', m')" "dict_wf d'"
    "dict_map d' = (dict_map d)(ini_fold k \<mapsto> v)" "all_ok m'"
    unfolding iniparser_set_def strlwc_ini_fold using dictionary_set_ok [OF wf room ok] by blast
  then show ?thesis
    unfolding imi_db_mi_set_value_def set_loop_select [OF h, of i db_types, unfolded db_types_all, OF UNIV_I]
    by (auto simp: h string_hash_db_key key_suffix_db_key d i)
qed

lemma db_ready_upd:
  assumes "db_ready sy" and "dict_wf d'"
  shows "db_ready ((upd_db i (\<lambda>e. e\<lparr>dn_sync := b, dn_db := DLive d'\<rparr>) sy)\<lparr>sy_mem := m\<rparr>)"
  using assms by (auto simp: db_ready_def upd_db_def)

section \<open>Saving a database\<close>

lemma save_loop_clean:
  assumes "\<And>i. i \<in> set is \<Longrightarrow> \<not> dn_sync (sy_db sy i)" and "\<And>i. dn_db (sy_db sy i) \<noteq> DFreed"
  shows "save_loop is sy = Some (0, sy)"
  using assms(1)
proof (induction "is")
  case (Cons i "is")
  then show ?case
    using assms(2) [of i] by (cases "dn_db (sy_db sy i)") (auto split: option.splits)
qed simp

lemma save_loop_skip:
  assumes "\<And>j. j \<in> set is \<Longrightarrow> \<not> dn_sync (sy_db sy j)" and "\<And>j. dn_db (sy_db sy j) \<noteq> DFreed"
  shows "save_loop (is @ js) sy = save_loop js sy"
  using assms(1)
proof (induction "is")
  case (Cons i "is")
  then show ?case
    using assms(2) [of i] by (cases "dn_db (sy_db sy i)") (auto split: option.splits)
qed simp

lemma save_one:
  assumes ready: "db_ready sy" and d: "dn_db (sy_db sy i) = DLive d" and path: "dn_path (db_name i) = Some path"
    and sync: "dn_sync (sy_db sy i)" "\<And>j. j \<noteq> i \<Longrightarrow> \<not> dn_sync (sy_db sy j)"
    and fl: "sy_files sy path = Some old" "sy_writable sy path"
    and dump: "iniparser_dump_ini (Some d) (Some []) = Some (Some text)"
  shows "imi_db_mi_save_db_file sy = Some (0, upd_db i (\<lambda>e. e\<lparr>dn_sync := False\<rparr>)
    (sy\<lparr>sy_files := (sy_files sy)(path \<mapsto> overwrite old text)\<rparr>))" (is "_ = Some (0, ?sy')")
proof -
  obtain xs ys where t: "db_types = xs @ i # ys" "i \<notin> set xs" "i \<notin> set ys"
  proof -
    have "i \<in> set db_types" "distinct db_types" by (simp_all add: db_types_all) (simp add: db_types_def)
    then obtain xs ys where eq: "db_types = xs @ i # ys" by (metis split_list)
    have "distinct (xs @ i # ys)" using \<open>distinct db_types\<close> unfolding eq .
    then show thesis using that [OF eq] by simp
  qed
  have live: "dn_db (sy_db sy j) \<noteq> DFreed" for j
    using ready unfolding db_ready_def by (metis db_ptr.distinct(5))
  have "save_loop db_types sy = save_loop (i # ys) sy"
    unfolding t(1) by (rule save_loop_skip) (use live sync(2) t(2) in metis)+
  also have "\<dots> = save_loop ys ?sy'"
    using ready d path sync(1) fl dump unfolding db_ready_def by simp
  also have "\<dots> = Some (0, ?sy')"
    by (rule save_loop_clean) (use live sync(2) t(3) in \<open>auto simp: upd_db_def\<close>)
  finally show ?thesis by (simp add: imi_db_mi_save_db_file_def)
qed

section \<open>Finding a factory value\<close>

text \<open>A C string in a buffer that continues behind it, and an occurrence of a word in it.\<close>

definition occurs_at :: "string \<Rightarrow> string \<Rightarrow> nat \<Rightarrow> bool" where
  "occurs_at txt w i \<longleftrightarrow> take (length w) (drop i txt) = w"

lemma rd_text: "i \<le> length txt \<Longrightarrow> rd (map Some (txt @ [CHR 0x00]) @ rest) i = Some ((txt @ [CHR 0x00]) ! i)"
  by (simp add: rd_def nth_opt_def nth_append)

lemma rd_beyond: "length txt < i \<Longrightarrow> rd (map Some (txt @ [CHR 0x00]) @ replicate k None) i = None"
  by (auto simp: rd_def nth_opt_def nth_append)

lemma match_loop_text:
  assumes w: "CHR 0x00 \<notin> set w" and "j < length w" and "i + j < length txt"
    and "\<forall>l \<le> j. txt ! (i + l) = w ! l"
  shows "\<exists>j'. match_loop (map Some (txt @ [CHR 0x00]) @ rest) w i j = Some j'
    \<and> (pchar w j' = CHR 0x00 \<longleftrightarrow> occurs_at txt w i)"
  using assms(2-4)
proof (induction "length w - j" arbitrary: j)
  case (Suc d)
  define psrc where "psrc = map Some (txt @ [CHR 0x00]) @ rest"
  have nz: "w ! l \<noteq> CHR 0x00" if "l < length w" for l using w that by (metis nth_mem)
  have c: "rd psrc (i + j) = Some (w ! j)"
    using Suc.prems(2,3) rd_text [of "i + j" "txt" rest] unfolding psrc_def by (simp add: nth_append)
  define c' where "c' = (txt @ [CHR 0x00]) ! (i + Suc j)"
  have c': "rd psrc (i + Suc j) = Some c'" unfolding c'_def psrc_def using Suc.prems(2) by (intro rd_text) simp
  show ?case
  proof (cases "Suc j < length w")
    case False
    then have wl: "length w = Suc j" using Suc.prems(1) by simp
    have "take (length w) (drop i txt) = w"
      using Suc.prems(2,3) wl by (intro nth_equalityI) auto
    moreover have "match_loop psrc w i j = Some (Suc j)"
      using c c' wl nz [of j] by (simp add: match_loop.simps)
    ultimately show ?thesis using wl by (simp add: occurs_at_def pchar_def psrc_def)
  next
    case True
    show ?thesis
    proof (cases "c' = w ! Suc j")
      case match: True
      then have in_txt: "i + Suc j < length txt"
        using nz [OF True] Suc.prems(2) by (auto simp: c'_def nth_append split: if_splits)
      then have "\<forall>l \<le> Suc j. txt ! (i + l) = w ! l"
        using Suc.prems(3) match by (auto simp: c'_def nth_append le_Suc_eq)
      then have "\<exists>j'. match_loop psrc w i (Suc j) = Some j' \<and> (pchar w j' = CHR 0x00 \<longleftrightarrow> occurs_at txt w i)"
        unfolding psrc_def using Suc True in_txt by (intro Suc.hyps(1)) auto
      moreover have "match_loop psrc w i j = match_loop psrc w i (Suc j)"
        using c c' True nz [of j] match by (subst match_loop.simps) (simp add: pchar_def)
      ultimately show ?thesis by (simp add: psrc_def)
    next
      case False
      then have "match_loop psrc w i j = Some (Suc j)"
        using c c' True nz [of j] by (subst match_loop.simps) (simp add: pchar_def)
      moreover have "\<not> occurs_at txt w i"
      proof
        assume occ: "occurs_at txt w i"
        then have "length w \<le> length (drop i txt)" unfolding occurs_at_def by (metis length_take min.cobounded1)
        then have l: "i + Suc j < length txt" using True by simp
        have "take (length w) (drop i txt) ! Suc j = txt ! (i + Suc j)" using True l by simp
        then show False using False l occ by (simp add: occurs_at_def c'_def nth_append)
      qed
      ultimately show ?thesis using nz [OF True] True by (simp add: pchar_def psrc_def)
    qed
  qed
qed simp

lemma occurs_at_hd:
  assumes "occurs_at txt w i" and "w \<noteq> []"
  shows "i < length txt" "txt ! i = w ! 0"
proof -
  show i: "i < length txt" using assms unfolding occurs_at_def by (metis drop_all linorder_not_less take_Nil)
  have "take (length w) (drop i txt) ! 0 = txt ! i" using i assms(2) by simp
  then show "txt ! i = w ! 0" using assms(1) by (simp add: occurs_at_def)
qed

lemma find_from_step:
  fixes rest :: buffer
  assumes w: "CHR 0x00 \<notin> set w" "w \<noteq> []" and i: "i \<le> length txt" "i < len"
  defines "psrc \<equiv> map Some (txt @ [CHR 0x00]) @ rest"
  shows "find_from psrc len w i = (if occurs_at txt w i then Some (int i) else find_from psrc len w (Suc i))"
proof (cases "i < length txt \<and> txt ! i = w ! 0")
  case True
  have "rd psrc i = Some (w ! 0)" "pchar w 0 = w ! 0"
    using rd_text [of i "txt" rest] True w(2) by (simp_all add: psrc_def pchar_def nth_append)
  moreover obtain j where "match_loop psrc w i 0 = Some j" "pchar w j = CHR 0x00 \<longleftrightarrow> occurs_at txt w i"
    using match_loop_text [of w 0 i "txt" rest] w True by (auto simp: psrc_def)
  ultimately show ?thesis using i(2) by (subst find_from.simps) simp
next
  case False
  have "\<not> occurs_at txt w i" using False occurs_at_hd w(2) by blast
  moreover have "(txt @ [CHR 0x00]) ! i \<noteq> pchar w 0"
    using False i(1) w by (auto simp: nth_append pchar_def)
  ultimately show ?thesis
    using i(2) rd_text [OF i(1), of rest] by (subst find_from.simps) (simp add: psrc_def)
qed

lemma string_find_first:
  assumes w: "CHR 0x00 \<notin> set w" "w \<noteq> []" and p: "occurs_at txt w p" "p < len" "\<forall>i < p. \<not> occurs_at txt w i"
  shows "string_find (map Some (txt @ [CHR 0x00]) @ rest) len w = Some (int p)"
proof -
  define psrc where "psrc = map Some (txt @ [CHR 0x00]) @ rest"
  have "p < length txt" by (rule occurs_at_hd [OF p(1) w(2)])
  then have step: "find_from psrc len w i = (if occurs_at txt w i then Some (int i) else find_from psrc len w (Suc i))"
    if "i \<le> p" for i
    unfolding psrc_def using that p(2) by (intro find_from_step [OF w]) auto
  have "find_from psrc len w i = Some (int p)" if "i \<le> p" for i
    using that
  proof (induction rule: inc_induct)
    case base
    then show ?case using step [of p] p(1) by simp
  next
    case (step i)
    then show ?case using \<open>\<And>i. i \<le> p \<Longrightarrow> _\<close> p(3) by auto
  qed
  then show ?thesis by (simp add: string_find_def psrc_def)
qed

lemma find_from_none:
  assumes w: "CHR 0x00 \<notin> set w" "w \<noteq> []" and no: "\<forall>i. \<not> occurs_at txt w i" and "i \<le> Suc (length txt)"
    and len: "Suc (length txt) < len"
  shows "find_from (map Some (txt @ [CHR 0x00]) @ replicate k None) len w i = None"
  using assms(4)
proof (induction rule: inc_induct)
  case base
  then show ?case using len rd_beyond [of "txt" "Suc (length txt)" k] by (subst find_from.simps) simp
next
  case (step i)
  then show ?case using find_from_step [OF w, of i "txt" len "replicate k None"] no len by simp
qed

text \<open>Copying a value up to its NUL.\<close>

lemma kv_copy_text:
  assumes v: "v = cstring (drop p txt)" and p: "p \<le> length txt" and n: "length v < n" "n \<le> length out" "i \<le> length v"
  shows "kv_copy (map Some (txt @ [CHR 0x00]) @ rest) p i n out
    = Some (length v, take i out @ drop i v @ CHR 0x00 # drop (Suc (length v)) out)"
  using n(2,3)
proof (induction "length v - i" arbitrary: i out)
  case 0
  then have i: "i = length v" by simp
  have "(txt @ [CHR 0x00]) ! (p + length v) = CHR 0x00"
  proof (cases "p + length v < length txt")
    case True
    then have "drop p txt ! length v = CHR 0x00"
      using nth_length_takeWhile [of "\<lambda>c. c \<noteq> CHR 0x00" "drop p txt"] v by (simp add: cstring_def)
    then show ?thesis using True by (simp add: nth_append)
  next
    case False
    moreover have "length v \<le> length txt - p" using v length_takeWhile_le [of _ "drop p txt"] by (simp add: cstring_def)
    ultimately have "p + length v = length txt" using p by simp
    then show ?thesis by (simp add: nth_append)
  qed
  moreover have "p + length v \<le> length txt"
    using v p length_takeWhile_le [of "\<lambda>c. c \<noteq> CHR 0x00" "drop p txt"] by (simp add: cstring_def)
  ultimately have "rd (map Some (txt @ [CHR 0x00]) @ rest) (p + i) = Some (CHR 0x00)"
    using rd_text [of "p + i" "txt" rest] i by simp
  then show ?case
    using i n(1) 0(2) by (subst kv_copy.simps) (simp add: upd_conv_take_nth_drop)
next
  case (Suc d)
  then have i: "i < length v" by simp
  have vi: "v ! i = txt ! (p + i)" "p + i < length txt" "v ! i \<noteq> CHR 0x00"
  proof -
    have "i < length (drop p txt)" using i v length_takeWhile_le [of "\<lambda>c. c \<noteq> CHR 0x00" "drop p txt"] by (simp add: cstring_def)
    then show "p + i < length txt" by simp
    then show "v ! i = txt ! (p + i)" using v i takeWhile_nth [of i "\<lambda>c. c \<noteq> CHR 0x00" "drop p txt"] by (simp add: cstring_def)
    have "\<forall>c \<in> set v. c \<noteq> CHR 0x00" unfolding v cstring_def by (auto dest: set_takeWhileD)
    then show "v ! i \<noteq> CHR 0x00" using nth_mem [OF i] by blast
  qed
  have "rd (map Some (txt @ [CHR 0x00]) @ rest) (p + i) = Some (v ! i)"
    using rd_text [of "p + i" "txt" rest] vi by (simp add: nth_append)
  moreover have "kv_copy (map Some (txt @ [CHR 0x00]) @ rest) p (Suc i) n (out[i := v ! i])
      = Some (length v, take (Suc i) (out[i := v ! i]) @ drop (Suc i) v @ CHR 0x00 # drop (Suc (length v)) (out[i := v ! i]))"
    using Suc i by (intro Suc.hyps(1)) auto
  moreover have "take (Suc i) (out[i := v ! i]) = take i out @ [v ! i]"
    using i n(1) Suc.prems(1) by (simp add: take_Suc_conv_app_nth)
  moreover have "drop i v = v ! i # drop (Suc i) v" by (rule Cons_nth_drop_Suc [OF i, symmetric])
  ultimately show ?case
    using i n(1) Suc.prems(1) vi(3) by (subst kv_copy.simps) simp
qed

section \<open>Properties\<close>

text \<open>A database system on which the statements below are applied: every database holds \<open>d\<close>.\<close>

definition ready_sys :: "dictionary \<Rightarrow> (string \<rightharpoonup> string) \<Rightarrow> db_sys" where
  "ready_sys d fs = \<lparr>sy_db = (\<lambda>i. (db_name i)\<lparr>dn_db := DLive d, dn_hash := name_hash i\<rparr>), sy_sect_hash = 0,
     sy_db_timer = None, sy_timers = timers_empty, sy_files = fs, sy_writable = (\<lambda>_. True), sy_mem = []\<rparr>"

lemma ready_sys_ready: "dict_wf d \<Longrightarrow> db_ready (ready_sys d fs)"
  by (auto simp: db_ready_def ready_sys_def)

text \<open>
  C10: On an initialised database system with memory and room in the counter of the dictionary left, a call of
  \<open>imi_db_mi_set_value\<close> with a value that is not NULL and without the flag for saving at once, on a key of the
  NVM, RAM or MEM database, returns 0; \<open>imi_db_mi_get_value\<close> on that key then returns \<open>RET_OK\<close> and copies
  the value to the start of a buffer that is large enough, and its answer for every key of another database or
  of another name (up to letter case) is what it was before. (With the flag the value returned is that of the
  saving.)
\<close>

theorem imi_db_set_get:
  assumes ready: "db_ready sy" and i: "i \<noteq> DB_ROM" and d: "dn_db (sy_db sy i) = DLive d"
    and room: "d_n d < INT_MAX" and ok: "all_ok (sy_mem sy)"
    and len: "0 \<le> len" "int (length v) \<le> len" "length v \<le> length out"
  shows "\<exists>sy'. imi_db_mi_set_value sy (db_key i c k) (Some v) False = Some (0, sy') \<and> db_ready sy'
    \<and> imi_db_mi_get_value sy' (db_key i c k) out len = Some (RET_OK, v @ drop (length v) out)
    \<and> (\<forall>j c' k' out' len'. j \<noteq> i \<or> ini_fold k' \<noteq> ini_fold k \<longrightarrow>
        imi_db_mi_get_value sy' (db_key j c' k') out' len' = imi_db_mi_get_value sy (db_key j c' k') out' len')"
proof -
  from set_value_eq [OF ready i d room ok, of c k "Some v"] obtain d' m' where
    eq: "imi_db_mi_set_value sy (db_key i c k) (Some v) False
      = Some (0, (upd_db i (\<lambda>e. e\<lparr>dn_sync := True, dn_db := DLive d'\<rparr>) sy)\<lparr>sy_mem := m'\<rparr>)"
    and d': "dict_wf d'" "dict_map d' = (dict_map d)(ini_fold k \<mapsto> Some v)" by blast
  define sy' where "sy' = (upd_db i (\<lambda>e. e\<lparr>dn_sync := True, dn_db := DLive d'\<rparr>) sy)\<lparr>sy_mem := m'\<rparr>"
  have r: "db_ready sy'" unfolding sy'_def by (rule db_ready_upd [OF ready d'(1)])
  have di: "dn_db (sy_db sy' i) = DLive d'" and dj: "dn_db (sy_db sy' j) = dn_db (sy_db sy j)" if "j \<noteq> i" for j
    using that by (simp_all add: sy'_def upd_db_def)
  have di: "dn_db (sy_db sy' i) = DLive d'" by (simp add: sy'_def upd_db_def)
  have "imi_db_mi_get_value sy' (db_key i c k) out len = Some (RET_OK, v @ drop (length v) out)"
    using memcpy_nat [of 0 "length v" out 0 v] len
    by (simp add: get_value_eq [OF r di] d'(2) answer_def size_of_int_def)
  moreover have "imi_db_mi_get_value sy' (db_key j c' k') out' len' = imi_db_mi_get_value sy (db_key j c' k') out' len'"
    if "j \<noteq> i \<or> ini_fold k' \<noteq> ini_fold k" for j c' k' out' len'
  proof (cases "j = i")
    case True
    then show ?thesis using that by (simp add: get_value_eq [OF r di] get_value_eq [OF ready d] d'(2))
  next
    case False
    obtain e where "dn_db (sy_db sy j) = DLive e" using ready by (auto simp: db_ready_def)
    then show ?thesis using dj [OF False] by (simp add: get_value_eq [OF r] get_value_eq [OF ready])
  qed
  ultimately show ?thesis using eq r by (metis sy'_def)
qed

theorem imi_db_set_get_witness:
  "\<exists>sy'. imi_db_mi_set_value (ready_sys (empty_dict 4) Map.empty) ''NVM.IPC:power'' (Some ''1'') False = Some (0, sy')
    \<and> imi_db_mi_get_value sy' ''NVM.IPC:power'' ''abc'' 3 = Some (RET_OK, ''1bc'')"
proof -
  have k: "db_key DB_NVM (CHR ''.'') ''IPC:power'' = ''NVM.IPC:power''" by (simp add: db_key_def)
  have d: "dn_db (sy_db (ready_sys (empty_dict 4) Map.empty) DB_NVM) = DLive (empty_dict 4)"
    "all_ok (sy_mem (ready_sys (empty_dict 4) Map.empty))" "d_n (empty_dict 4) < INT_MAX"
    by (simp_all add: ready_sys_def empty_dict_def INT_MAX_def)
  show ?thesis
    using imi_db_set_get [OF ready_sys_ready _ d(1,3,2), of 3 "''1''" "''abc''" "CHR ''.''" "''IPC:power''"] empty_dict(1) [of 4]
    unfolding k by auto
qed

text \<open>
  C12: \<open>imi_db_mi_set_value\<close> refuses every key of the factory database with \<open>RET_READONLY_ERR\<close>, and a
  key whose prefix selects no database with \<open>RET_NO_VALUE_ERR\<close>; in both cases nothing changes.
\<close>

theorem imi_db_set_rejected:
  assumes "db_ready sy"
  shows "imi_db_mi_set_value sy (db_key DB_ROM c k) v flag = Some (RET_READONLY_ERR, sy)
    \<and> (\<forall>key h. string_hash (Some key) 3 = Some h \<and> h \<notin> range name_hash
        \<longrightarrow> imi_db_mi_set_value sy key v flag = Some (RET_NO_VALUE_ERR, sy))"
proof -
  have h: "\<And>j. dn_hash (sy_db sy j) = name_hash j" using assms by (auto simp: db_ready_def)
  have "imi_db_mi_set_value sy (db_key DB_ROM c k) v flag = Some (RET_READONLY_ERR, sy)"
    unfolding imi_db_mi_set_value_def set_loop_select [OF h, of DB_ROM db_types, unfolded db_types_all, OF UNIV_I]
    by (simp add: h string_hash_db_key)
  moreover have "set_loop is sy key v = Some (Inl RET_NO_VALUE_ERR)"
    if "string_hash (Some key) 3 = Some x" "x \<notin> range name_hash" for "is" key x
    using that by (induction "is") (auto simp: h)
  ultimately show ?thesis by (auto simp: imi_db_mi_set_value_def)
qed

theorem imi_db_set_rejected_witness:
  "imi_db_mi_set_value (ready_sys (empty_dict 4) Map.empty) ''ROM.mac'' (Some ''x'') True
      = Some (RET_READONLY_ERR, ready_sys (empty_dict 4) Map.empty)
    \<and> imi_db_mi_set_value (ready_sys (empty_dict 4) Map.empty) ''XYZ.mac'' (Some ''x'') True
      = Some (RET_NO_VALUE_ERR, ready_sys (empty_dict 4) Map.empty)"
proof -
  have "string_hash (Some ''XYZ.mac'') 3 \<noteq> None" by (simp add: string_hash.simps(2) Let_def)
  then obtain h where h: "string_hash (Some ''XYZ.mac'') 3 = Some h" by blast
  have "string_hash (Some ''XYZ.mac'') 3 \<notin> set (map (Some \<circ> name_hash) db_types)" by code_simp
  then have "h \<notin> range name_hash" using h db_types_all by auto
  moreover have "db_key DB_ROM (CHR ''.'') ''mac'' = ''ROM.mac''" by (simp add: db_key_def)
  ultimately show ?thesis
    using imi_db_set_rejected [OF ready_sys_ready [OF empty_dict(1)], of 4 Map.empty "CHR ''.''" "''mac''" "Some ''x''" True] h
    by auto
qed

text \<open>
  C11: Saving and reloading: when exactly one database is marked for saving, it has a file, which can be written
  and is not longer than the text written, and its dictionary can be written as an ini file (at least one
  section; every key in a section that is an entry, with a value that is not NULL; names and values that fit a
  line, in lower case names, without surrounding blanks, comment characters or leading quotes), then
  \<open>imi_db_mi_save_db_file\<close> returns 0 and clears the mark, and \<open>iniparser_load\<close> of the file, with enough
  memory, reports no error and gives back exactly the entries of the database.
\<close>

theorem imi_db_save_reload:
  assumes "db_ready sy" and "dn_db (sy_db sy i) = DLive d" and "dn_path (db_name i) = Some path"
    and "dn_sync (sy_db sy i)" and "\<forall>j. j \<noteq> i \<longrightarrow> \<not> dn_sync (sy_db sy j)"
    and "sy_files sy path = Some old" and "sy_writable sy path"
    and "ini_dict d" and "dict_sections d \<noteq> []" and "length (dict_items d) \<le> nat INT_MAX"
    and "iniparser_dump_ini (Some d) (Some []) = Some (Some text)" and "length old \<le> length text" and "all_ok m"
  shows "\<exists>sy' d' m'. imi_db_mi_save_db_file sy = Some (0, sy') \<and> \<not> dn_sync (sy_db sy' i)
    \<and> iniparser_load (sy_files sy' path) m = Some (Some d', [], m') \<and> dict_wf d' \<and> dict_map d' = dict_map d"
proof -
  have tx: "text = concat (map item_text (dict_items d))"
    using iniparser_dump_ini_items [OF assms(8,9)] assms(11) by simp
  note save = save_one [OF assms(1-4) _ assms(6,7,11)]
  have "overwrite old text = text" using assms(12) by (simp add: overwrite_def)
  then show ?thesis
    using save assms(5) iniparser_load_items [OF dict_items_ok [OF assms(8)] assms(10,13)] dict_items_exec [OF assms(8)]
    by (auto simp: upd_db_def tx)
qed

definition dirty_sys :: "string \<Rightarrow> db_sys" where
  "dirty_sys old = upd_db DB_NVM (\<lambda>e. e\<lparr>dn_sync := True\<rparr>) (ready_sys sample_dict [NVM_DB_PATH \<mapsto> old])"

lemma dirty_sys:
  shows "db_ready (dirty_sys old)" and "dn_db (sy_db (dirty_sys old) DB_NVM) = DLive sample_dict"
    and "dn_sync (sy_db (dirty_sys old) DB_NVM)" and "\<forall>j. j \<noteq> DB_NVM \<longrightarrow> \<not> dn_sync (sy_db (dirty_sys old) j)"
    and "sy_files (dirty_sys old) NVM_DB_PATH = Some old" and "sy_writable (dirty_sys old) NVM_DB_PATH"
proof -
  show "\<forall>j. j \<noteq> DB_NVM \<longrightarrow> \<not> dn_sync (sy_db (dirty_sys old) j)"
  proof (intro allI impI)
    fix j assume "j \<noteq> DB_NVM"
    then show "\<not> dn_sync (sy_db (dirty_sys old) j)" by (cases j) (auto simp: dirty_sys_def upd_db_def ready_sys_def)
  qed
qed (auto simp: dirty_sys_def db_ready_def upd_db_def ready_sys_def sample_dict)

lemma sample_ini_dict: "ini_dict sample_dict" "dict_sections sample_dict \<noteq> []" "length (dict_items sample_dict) \<le> nat INT_MAX"
  by (simp_all add: ini_dict_def sample_dict dict_map_def item_ok_simps section_of_def key_of_def is_section_def
      dict_sections_def dict_items_def section_items_def INT_MAX_def)

theorem imi_db_save_reload_witness:
  "\<exists>sy' d' m'. imi_db_mi_save_db_file (dirty_sys []) = Some (0, sy') \<and> \<not> dn_sync (sy_db sy' DB_NVM)
    \<and> iniparser_load (sy_files sy' NVM_DB_PATH) [] = Some (Some d', [], m') \<and> dict_wf d' \<and> dict_map d' = dict_map sample_dict"
  by (rule imi_db_save_reload [OF dirty_sys(1,2) _ dirty_sys(3-6) sample_ini_dict
        iniparser_dump_ini_items [OF sample_ini_dict(1,2)]]) simp_all

text \<open>
  The file is opened for update and never truncated: when the new text is shorter than the file,
  the tail of the old contents stays behind the new text, so the file is not the text of the database.
\<close>

theorem imi_db_save_stale_tail:
  assumes "db_ready sy" and "dn_db (sy_db sy i) = DLive d" and "dn_path (db_name i) = Some path"
    and "dn_sync (sy_db sy i)" and "\<forall>j. j \<noteq> i \<longrightarrow> \<not> dn_sync (sy_db sy j)"
    and "sy_files sy path = Some old" and "sy_writable sy path"
    and "iniparser_dump_ini (Some d) (Some []) = Some (Some text)" and "length text < length old"
  shows "\<exists>sy'. imi_db_mi_save_db_file sy = Some (0, sy')
    \<and> sy_files sy' path = Some (text @ drop (length text) old) \<and> sy_files sy' path \<noteq> Some text"
  using save_one [OF assms(1-4) _ assms(6-8)] assms(5,9) by (auto simp: upd_db_def overwrite_def)

theorem imi_db_save_stale_tail_witness:
  "\<exists>sy' text. imi_db_mi_save_db_file (dirty_sys (replicate 1000 (CHR ''x''))) = Some (0, sy')
    \<and> sy_files sy' NVM_DB_PATH = Some (text @ drop (length text) (replicate 1000 (CHR ''x'')))
    \<and> sy_files sy' NVM_DB_PATH \<noteq> Some text"
proof -
  have "length (concat (map item_text (dict_items sample_dict))) < length (replicate 1000 (CHR ''x''))"
    by (simp add: dict_items_def section_items_def dict_sections_def sample_dict is_section_def section_of_def
        key_of_def value_line_def pad_right_def)
  from imi_db_save_stale_tail [OF dirty_sys(1,2) _ dirty_sys(3-6) iniparser_dump_ini_items [OF sample_ini_dict(1,2)] this]
  show ?thesis by auto
qed

text \<open>
  Reading a factory value: if the name occurs in the first line of the partition, the value that
  \<open>string_key_value_get\<close> delivers is the text after the first occurrence and one separator, up to the
  next NUL, and the function returns its length, provided that is smaller than the buffer.
\<close>

theorem factory_value_correct:
  assumes "CHR 0x00 \<notin> set w" and "w \<noteq> []" and "occurs_at line w p" and "\<forall>i < p. \<not> occurs_at line w i"
    and "p < len" and "p + length w + 1 \<le> length line"
    and "length (cstring (drop (p + length w + 1) line)) < n" and "n \<le> length out"
  shows "\<exists>out'. string_key_value_get (map Some (line @ [CHR 0x00]) @ rest) len w (Some out) n
      = Some (int (length (cstring (drop (p + length w + 1) line))), Some out')
    \<and> cstring out' = cstring (drop (p + length w + 1) line)"
proof -
  define v where "v = cstring (drop (p + length w + 1) line)"
  have "kv_copy (map Some (line @ [CHR 0x00]) @ rest) (length w + 1 + nat (int p)) 0 n out
      = Some (length v, v @ CHR 0x00 # drop (Suc (length v)) out)"
    using kv_copy_text [of v "p + length w + 1" line n out 0 rest] assms(6-8) by (simp add: v_def ac_simps)
  moreover have "cstring (v @ CHR 0x00 # drop (Suc (length v)) out) = v"
    unfolding v_def cstring_def by (subst takeWhile_append2) (auto dest: set_takeWhileD)
  ultimately show ?thesis
    using string_find_first [OF assms(1,2,3,5,4), of rest] assms(7)
    by (auto simp: string_key_value_get_def v_def)
qed

theorem factory_value_correct_witness:
  "\<exists>out'. string_key_value_get (map Some ((''FLSHmodel=ipc022'' @ [CHR 0x00] @ ''mac=1'') @ [CHR 0x00])) 24 ''model''
      (Some (replicate 16 (CHR 0x00))) 16 = Some (6, Some out') \<and> cstring out' = ''ipc022''"
proof -
  let ?l = "''FLSHmodel=ipc022'' @ [CHR 0x00] @ ''mac=1''"
  have "\<forall>i < (4::nat). \<not> occurs_at ?l ''model'' i" by code_simp
  moreover have "occurs_at ?l ''model'' 4" by (simp add: occurs_at_def)
  moreover have "cstring (drop (4 + length ''model'' + 1) ?l) = ''ipc022''" by (simp add: cstring_def)
  ultimately show ?thesis
    using factory_value_correct [of "''model''" ?l 4 24 16 "replicate 16 (CHR 0x00)" "[]"] by auto
qed

text \<open>
  A name that does not occur in the first line of the partition makes \<open>string_find\<close> read beyond
  the NUL that \<open>fgets\<close> wrote, into bytes of the buffer that were never initialised, whenever the line
  is shorter than the buffer.
\<close>

theorem factory_missing_name:
  assumes "CHR 0x00 \<notin> set w" and "w \<noteq> []" and "\<forall>i. \<not> occurs_at line w i" and "length line + 1 < len"
  shows "string_find (map Some (line @ [CHR 0x00]) @ replicate k None) len w = None"
  using find_from_none [OF assms(1-3), of 0 len k] assms(4) by (simp add: string_find_def)

theorem factory_missing_name_witness:
  "string_find (map Some (''mac=1'' @ [CHR 0x00]) @ replicate 10 None) 16 ''key'' = None"
proof (rule factory_missing_name)
  show "\<forall>i. \<not> occurs_at ''mac=1'' ''key'' i"
  proof (intro allI notI)
    fix i assume occ: "occurs_at ''mac=1'' ''key'' i"
    have "i < length ''mac=1''" "''mac=1'' ! i = ''key'' ! 0"
      by (rule occurs_at_hd [OF occ], simp)+
    then show False by (auto simp: less_Suc_eq nth_Cons split: nat.splits)
  qed
qed simp_all

text \<open>
  The section header of a default file depends on what an earlier file printed: when the static
  \<open>sect_hash\<close> still holds the hash of \<open>RUN\<close>, from an earlier creation of the same file, the default
  RAM file is written without the line \<open>[RUN]\<close> that it has when the variable is still zero.
\<close>

theorem ram_default_header_lost:
  "fold_opt (default_line (name_hash DB_RAM)) db_keys ([], the (string_hash (Some ''RUN'') 3))
    = Some (''motor_reset'' @ [CHR 0x09] @ ''='' @ [CHR 0x09] @ ''0 '' @ [CHR 0x0A], the (string_hash (Some ''RUN'') 3))
  \<and> fold_opt (default_line (name_hash DB_RAM)) db_keys ([], 0)
    = Some ([CHR 0x0A, CHR 0x0A] @ ''[RUN]'' @ [CHR 0x0A] @ ''motor_reset'' @ [CHR 0x09] @ ''='' @ [CHR 0x09] @ ''0 '' @ [CHR 0x0A],
        the (string_hash (Some ''RUN'') 3))"
proof -
  have n: "string_hash (Some ''RUN'') 3 \<noteq> None" by (simp add: string_hash.simps(2) Let_def)
  then obtain h where h: "string_hash (Some ''RUN'') 3 = Some h" "string_hash (Some ''RUN'') (Suc (Suc (Suc 0))) = Some h"
    by (auto simp: numeral_3_eq_3)
  have "string_hash (Some ''RUN'') 3 \<noteq> Some 0" by code_simp
  then have "h \<noteq> 0" using h by simp
  moreover have "sscanf fmt_section_key ''RUN:motor_reset'' = [''RUN'', ''motor_reset'']"
    by (simp add: fmt_section_key_def)
  ultimately show ?thesis
    using h by (simp add: db_keys_def string_hash_literal name_hash_inj key_suffix_def KEY_OFFSET_def store_def)
qed

text \<open>
  Once the initialisation has started its timer, \<open>imi_db_mi_deinit\<close> always runs into the use of
  a freed timer node, whatever the databases hold.
\<close>

theorem imi_db_deinit_use_after_free:
  assumes "ts_heap (sy_timers sy) = Map.empty" and "t \<notin> dom (ts_kernel (sy_timers sy))"
    and "all_ok (ts_mem (sy_timers sy))"
  shows "\<exists>sy'. start_sync_timer (Some t) True sy = Some sy' \<and> imi_db_mi_deinit sy' = None"
proof -
  obtain head ts1 where ti: "timer_init (sy_timers sy) = (Some head, ts1)" "timers_wf ts1 head []"
    "ts_kernel ts1 = ts_kernel (sy_timers sy)" "all_ok (ts_mem ts1)"
    using timer_init_wf [OF assms(1,3)] by blast
  obtain m where m: "malloc_ok (ts_mem ts1) = (True, m)" using malloc_all_ok [OF ti(4)] by blast
  from timer_create_wf [OF ti(2) _ m, of 0 t TIMER_MODE_LOOP SYNC_DATABASE_TIME_INTERVAL 0 None] assms(2) ti(3)
  obtain ts2 where "create_event_timer (Some head) 0 TIMER_MODE_LOOP SYNC_DATABASE_TIME_INTERVAL 0 None (Some t) True ts1
      = Some (0, ts2)" "timers_wf ts2 head [ts_fresh ts1]"
    by (auto simp: timer_ids_def)
  then show ?thesis by (simp add: start_sync_timer_def ti(1) imi_db_mi_deinit_def timer_delete_all_crash)
qed

theorem imi_db_deinit_use_after_free_witness:
  "\<exists>sy'. start_sync_timer (Some 5) True (ready_sys (empty_dict 4) Map.empty
      \<lparr>sy_timers := \<lparr>ts_heap = Map.empty, ts_fresh = 0, ts_kernel = Map.empty, ts_mem = []\<rparr>\<rparr>) = Some sy'
    \<and> imi_db_mi_deinit sy' = None"
  by (rule imi_db_deinit_use_after_free) simp_all

end
