(* ===== verification/Thread_Pool.thy ===== *)
theory Thread_Pool
  imports Fifo_Interface "HOL-Library.Multiset"
begin

text \<open>
  The thread pool of \<open>20180731threadpoll-test/threadpoll.c\<close> and \<open>threadpoll.h\<close>. The structure
  \<open>threadpoll_t\<close> is a record; each critical section of the worker, the manager and the clients is a
  function on it, and a step relation interleaves them. Condition variables may wake a waiting thread
  at any time, as POSIX allows, so signals need not be tracked: every behaviour with signals is one of
  the model. A task is a value of the parameter type \<open>'t\<close> (a function and its argument). The counters
  are unbounded integers.
\<close>

section \<open>Data\<close>

record 't threadpoll =
  tp_state :: int
  min_thread_num :: int
  max_thread_num :: int
  live_thread_num :: int
  busy_thread_num :: int
  wait_exit_thread_num :: int
  max_task_queue_size :: int
  task_queue_size :: int
  task_queue_front :: int
  task_queue_rear :: int
  task_queue :: "'t option list"
  work_tids :: "nat list"

section \<open>The task queue\<close>

text \<open>The statements of \<open>threadpoll_add_task\<close> and \<open>worker_thread\<close> that append and remove a task.\<close>

definition queue_append :: "'t \<Rightarrow> 't threadpoll \<Rightarrow> 't threadpoll option" where
  "queue_append t p = (let rear = (task_queue_rear p + 1) mod max_task_queue_size p in do {
     q \<leftarrow> upd_opt (task_queue p) (nat rear) (Some t);
     Some (p\<lparr>task_queue_rear := rear, task_queue := q, task_queue_size := task_queue_size p + 1\<rparr>)
   })"

definition queue_front :: "'t threadpoll \<Rightarrow> nat \<times> 't threadpoll" where
  "queue_front p = (let front = (task_queue_front p + 1) mod max_task_queue_size p in
     (nat front, p\<lparr>task_queue_front := front, task_queue_size := task_queue_size p - 1,
        busy_thread_num := busy_thread_num p + 1\<rparr>))"

section \<open>Client operations\<close>

datatype 'p add_result = Refused | Blocked | Added 'p

definition threadpoll_add_task :: "'t threadpoll option \<Rightarrow> 't option \<Rightarrow> 't threadpoll add_result option" where
  "threadpoll_add_task thr_poll task_name =
     (case (thr_poll, task_name) of
        (Some p, Some t) \<Rightarrow>
          (if tp_state p = 1 \<and> task_queue_size p = max_task_queue_size p then Some Blocked
           else if tp_state p = 0 then Some Refused
           else map_option Added (queue_append t p))
      | _ \<Rightarrow> Some Refused)"

fun threadpoll_enable :: "'t threadpoll option \<Rightarrow> int" where
  "threadpoll_enable None = 0"
| "threadpoll_enable (Some p) = tp_state p"

text \<open>Whether a thread is alive is known to the system only; identifier 0 marks an unused slot.\<close>

definition threadpoll_alive :: "(nat \<Rightarrow> bool) \<Rightarrow> nat \<Rightarrow> int" where
  "threadpoll_alive running tid = (if tid = 0 then 0 else if running tid then 1 else 0)"

definition set_max_thread_num :: "'t threadpoll option \<Rightarrow> int \<Rightarrow> mem \<Rightarrow> (int \<times> 't threadpoll option \<times> mem) option" where
  "set_max_thread_num thr_poll n m =
     (case thr_poll of
        None \<Rightarrow> Some (-1, None, m)
      | Some p \<Rightarrow>
          (if n \<le> max_thread_num p then Some (0, Some (p\<lparr>max_thread_num := n\<rparr>), m)
           else case malloc_ok m of (ok, m) \<Rightarrow>
             if \<not> ok then Some (-1, Some p, m)
             else do {
               tids \<leftarrow> memcpy (replicate (nat n) 0) 0 (work_tids p) 0 (max_thread_num p);
               Some (0, Some (p\<lparr>work_tids := tids, max_thread_num := n\<rparr>), m)
             }))"

definition threadpoll_disable :: "'t threadpoll \<Rightarrow> 't threadpoll" where
  "threadpoll_disable p = p\<lparr>tp_state := 0\<rparr>"

section \<open>The worker\<close>

datatype 'p section_result = Go_Wait 'p | Go_Exit 'p | Go_Work nat 'p

text \<open>
  After a wake-up: the worker gives up when the manager asked for fewer threads and there are more
  than the minimum.
\<close>

definition worker_woken :: "'t threadpoll \<Rightarrow> bool \<times> 't threadpoll" where
  "worker_woken p =
     (if 0 < wait_exit_thread_num p
      then (let p = p\<lparr>wait_exit_thread_num := wait_exit_thread_num p - 1\<rparr> in
            if min_thread_num p < live_thread_num p
            then (True, p\<lparr>live_thread_num := live_thread_num p - 1\<rparr>)
            else (False, p))
      else (False, p))"

text \<open>
  The critical section of \<open>worker_thread\<close> from the lock, or from a wake-up, to the next wait, exit
  or unlock.
\<close>

definition worker_section :: "bool \<Rightarrow> 't threadpoll \<Rightarrow> 't threadpoll section_result" where
  "worker_section woken p =
     (case (if woken then worker_woken p else (False, p)) of (gone, p) \<Rightarrow>
        if gone then Go_Exit p
        else if tp_state p = 1 \<and> task_queue_size p = 0 then Go_Wait p
        else if tp_state p = 0 then Go_Exit (p\<lparr>live_thread_num := live_thread_num p - 1\<rparr>)
        else case queue_front p of (slot, p) \<Rightarrow> Go_Work slot p)"

definition worker_done :: "'t threadpoll \<Rightarrow> 't threadpoll" where
  "worker_done p = p\<lparr>busy_thread_num := busy_thread_num p - 1\<rparr>"

section \<open>The manager\<close>

text \<open>
  The loop that starts workers. \<open>created k\<close> is the identifier of the \<open>k\<close>-th new thread, or \<open>None\<close> if
  \<open>pthread_create\<close> fails, which the code does not check: it counts the thread as live all the same. The result
  counts the threads started and the failures.
\<close>

function add_loop :: "(nat \<Rightarrow> bool) \<Rightarrow> (nat \<Rightarrow> nat option) \<Rightarrow> nat \<Rightarrow> nat \<Rightarrow> nat \<Rightarrow> nat \<Rightarrow> 't threadpoll
    \<Rightarrow> (nat \<times> nat \<times> 't threadpoll) option" where
  "add_loop running created i add started failed p =
     (if int i < max_thread_num p \<and> live_thread_num p < max_thread_num p \<and> int add < task_queue_size p
      then do {
        tid \<leftarrow> nth_opt (work_tids p) i;
        (if threadpoll_alive running tid = 0
         then (case created add of
             None \<Rightarrow> add_loop running created (Suc i) (Suc add) started (Suc failed) (p\<lparr>live_thread_num := live_thread_num p + 1\<rparr>)
           | Some t \<Rightarrow> add_loop running created (Suc i) (Suc add) (Suc started) failed
               (p\<lparr>live_thread_num := live_thread_num p + 1, work_tids := (work_tids p)[i := t]\<rparr>))
         else add_loop running created (Suc i) add started failed p)
      }
      else Some (started, failed, p))"
  by pat_completeness auto
termination by (relation "measure (\<lambda>(running, created, i, add, started, failed, p). nat (max_thread_num p - int i))") auto

declare add_loop.simps [simp del]

definition manager_section :: "(nat \<Rightarrow> bool) \<Rightarrow> (nat \<Rightarrow> nat option) \<Rightarrow> 't threadpoll \<Rightarrow> (nat \<times> nat \<times> 't threadpoll) option" where
  "manager_section running created p = do {
     (started, failed, p) \<leftarrow>
       (if busy_thread_num p = live_thread_num p \<and> 0 < task_queue_size p \<and> live_thread_num p < max_thread_num p
        then add_loop running created 0 0 0 0 p else Some (0, 0, p));
     Some (started, failed,
       if busy_thread_num p < live_thread_num p \<and> task_queue_size p < live_thread_num p - busy_thread_num p
          \<and> min_thread_num p < live_thread_num p
       then p\<lparr>wait_exit_thread_num := live_thread_num p - busy_thread_num p - task_queue_size p\<rparr>
       else p)
   }"

text \<open>The absolute time of the manager's timed wait, one second after the current time.\<close>

definition TIMER_DEFAULT :: int where "TIMER_DEFAULT = 1 * 1000"

definition manager_deadline :: "int \<Rightarrow> int \<Rightarrow> int \<times> int" where
  "manager_deadline tv_sec tv_usec =
     (let nsec = tv_usec * 1000 + (TIMER_DEFAULT mod 1000) * 1000 * 1000
      in (tv_sec + TIMER_DEFAULT div 1000 + nsec div (1000 * 1000 * 1000), nsec mod (1000 * 1000 * 1000)))"

section \<open>Creating and destroying a pool\<close>

text \<open>
  The objects that belong to a pool, besides the fields above: the two allocations, the thread attribute, the
  lock, the conditions, the manager, and the structure itself. A pointer that was never assigned has an
  indeterminate value; a synchronisation object may be destroyed only after it was initialised, and once.
\<close>

datatype heap_ptr = Ptr_Unset | Ptr_Null | Ptr_Block

datatype sync_obj = Unready | Ready | Destroyed

record pool_objects =
  po_queue :: heap_ptr
  po_not_full :: sync_obj
  po_not_empty :: sync_obj
  po_tids :: heap_ptr
  po_attr :: sync_obj
  po_adjust_tid :: "nat option"
  po_lock :: sync_obj
  po_not_enable :: sync_obj
  po_alive_empty :: sync_obj
  po_allocated :: bool

definition fresh_objects :: pool_objects where
  "fresh_objects = \<lparr>po_queue = Ptr_Unset, po_not_full = Unready, po_not_empty = Unready, po_tids = Ptr_Unset, po_attr = Unready,
     po_adjust_tid = None, po_lock = Unready, po_not_enable = Unready, po_alive_empty = Unready, po_allocated = True\<rparr>"

text \<open>\<open>if (p != NULL) { free (p); p = NULL; }\<close>, and the destruction of a synchronisation object.\<close>

fun free_member :: "heap_ptr \<Rightarrow> heap_ptr option" where
  "free_member Ptr_Unset = None"
| "free_member Ptr_Null = Some Ptr_Null"
| "free_member Ptr_Block = Some Ptr_Null"

definition obj_destroy :: "sync_obj \<Rightarrow> sync_obj option" where
  "obj_destroy x = (if x = Ready then Some Destroyed else None)"

definition threadpoll_free :: "pool_objects option \<Rightarrow> pool_objects option option" where
  "threadpoll_free poll = (case poll of None \<Rightarrow> Some None | Some r \<Rightarrow> do {
     queue \<leftarrow> free_member (po_queue r);
     tids \<leftarrow> free_member (po_tids r);
     not_full \<leftarrow> obj_destroy (po_not_full r);
     not_empty \<leftarrow> obj_destroy (po_not_empty r);
     attr \<leftarrow> obj_destroy (po_attr r);
     lock \<leftarrow> obj_destroy (po_lock r);
     not_enable \<leftarrow> obj_destroy (po_not_enable r);
     alive_empty \<leftarrow> obj_destroy (po_alive_empty r);
     (if po_allocated r
      then Some (Some (r\<lparr>po_queue := queue, po_tids := tids, po_not_full := not_full, po_not_empty := not_empty, po_attr := attr,
        po_lock := lock, po_not_enable := not_enable, po_alive_empty := alive_empty, po_allocated := False\<rparr>))
      else None)
   })"

text \<open>The lock and the conditions that \<open>threadpoll_destroy\<close> uses have to be initialised, and it joins \<open>adjust_tid\<close>.\<close>

definition use_obj :: "sync_obj \<Rightarrow> unit option" where
  "use_obj x = (if x = Ready then Some () else None)"

definition threadpoll_destroy :: "('t threadpoll \<times> pool_objects) option \<Rightarrow> (int \<times> ('t threadpoll \<times> pool_objects option) option) option" where
  "threadpoll_destroy thr_poll = (case thr_poll of None \<Rightarrow> Some (-1, None) | Some (p, r) \<Rightarrow> do {
     _ \<leftarrow> use_obj (po_lock r);
     _ \<leftarrow> use_obj (po_not_empty r);
     _ \<leftarrow> use_obj (po_not_full r);
     _ \<leftarrow> use_obj (po_not_enable r);
     _ \<leftarrow> po_adjust_tid r;
     poll \<leftarrow> threadpoll_free (Some r);
     Some (0, Some (threadpoll_disable p, poll))
   })"

text \<open>
  The calls of \<open>threadpoll_create\<close> that can fail: an allocation of \<open>n\<close> elements, which cannot succeed for a
  negative number, or an initialisation. After a failure the pool is freed and NULL returned; \<open>k\<close> is the
  rest of the function.
\<close>

type_synonym 'r creation = "pool_objects \<Rightarrow> mem \<Rightarrow> 'r option option"

definition give_up :: "pool_objects \<Rightarrow> 'r option option" where
  "give_up r = do { _ \<leftarrow> threadpoll_free (Some r); Some None }"

definition alloc_call :: "(heap_ptr \<Rightarrow> pool_objects \<Rightarrow> pool_objects) \<Rightarrow> int \<Rightarrow> 'r creation \<Rightarrow> 'r creation" where
  "alloc_call set_ptr n k r m = (case malloc_ok m of (ok, m) \<Rightarrow>
     if ok \<and> 0 \<le> n then k (set_ptr Ptr_Block r) m else give_up (set_ptr Ptr_Null r))"

definition init_call :: "(pool_objects \<Rightarrow> pool_objects) \<Rightarrow> 'r creation \<Rightarrow> 'r creation" where
  "init_call set_ready k r m = (case malloc_ok m of (ok, m) \<Rightarrow> if ok then k (set_ready r) m else give_up r)"

text \<open>
  The loop that starts the workers, with whether all were started. The identifiers of the threads are the
  system's choice; the model numbers them from 1. More workers than slots overrun \<open>work_tids\<close>.
\<close>

fun create_threads :: "nat \<Rightarrow> nat \<Rightarrow> 't threadpoll \<Rightarrow> mem \<Rightarrow> (bool \<times> 't threadpoll \<times> mem) option" where
  "create_threads i 0 p m = Some (True, p, m)"
| "create_threads i (Suc k) p m = do {
     tids \<leftarrow> upd_opt (work_tids p) i (Suc i);
     (case malloc_ok m of (ok, m) \<Rightarrow>
        if ok then create_threads (Suc i) k (p\<lparr>work_tids := tids, live_thread_num := live_thread_num p + 1\<rparr>) m
        else Some (False, p, m))
   }"

definition pool_fields :: "int \<Rightarrow> int \<Rightarrow> int \<Rightarrow> 't threadpoll" where
  "pool_fields min_n max_n qsize = \<lparr>tp_state = 1, min_thread_num = min_n, max_thread_num = max_n, live_thread_num = 0,
     busy_thread_num = 0, wait_exit_thread_num = 0, max_task_queue_size = qsize, task_queue_size = 0,
     task_queue_front = 0, task_queue_rear = 0, task_queue = replicate (nat qsize) None, work_tids = replicate (nat max_n) 0\<rparr>"

text \<open>The threads: the workers, then the manager.\<close>

definition start_pool :: "int \<Rightarrow> int \<Rightarrow> int \<Rightarrow> ('t threadpoll \<times> pool_objects) creation" where
  "start_pool min_n max_n qsize r m = do {
     (ok, p, m) \<leftarrow> create_threads 0 (nat min_n) (pool_fields min_n max_n qsize) m;
     (case (if ok then malloc_ok m else (False, m)) of (ok, m) \<Rightarrow>
        if ok then Some (Some (p, r\<lparr>po_adjust_tid := Some (Suc (nat min_n))\<rparr>))
        else do { _ \<leftarrow> threadpoll_destroy (Some (p, r)); Some None })
   }"

definition threadpoll_create :: "int \<Rightarrow> int \<Rightarrow> int \<Rightarrow> mem \<Rightarrow> ('t threadpoll \<times> pool_objects) option option" where
  "threadpoll_create min_n max_n qsize m = (case malloc_ok m of (ok, m) \<Rightarrow>
     if \<not> ok then Some None
     else
       (alloc_call (\<lambda>x. po_queue_update (\<lambda>_. x)) qsize
       (init_call (po_not_full_update (\<lambda>_. Ready))
       (init_call (po_not_empty_update (\<lambda>_. Ready))
       (alloc_call (\<lambda>x. po_tids_update (\<lambda>_. x)) max_n
       (init_call (po_attr_update (\<lambda>_. Ready))
       (init_call (\<lambda>r. r)
       (init_call (po_lock_update (\<lambda>_. Ready))
       (init_call (po_not_enable_update (\<lambda>_. Ready))
       (init_call (po_alive_empty_update (\<lambda>_. Ready))
       (start_pool min_n max_n qsize)))))))))) fresh_objects m)"

text \<open>The pool after a successful creation, with its objects.\<close>

definition new_pool :: "int \<Rightarrow> int \<Rightarrow> int \<Rightarrow> 't threadpoll" where
  "new_pool min_n max_n qsize = \<lparr>tp_state = 1, min_thread_num = min_n, max_thread_num = max_n, live_thread_num = int (nat min_n),
     busy_thread_num = 0, wait_exit_thread_num = 0, max_task_queue_size = qsize, task_queue_size = 0,
     task_queue_front = 0, task_queue_rear = 0, task_queue = replicate (nat qsize) None,
     work_tids = map Suc [0..<nat min_n] @ replicate (nat max_n - nat min_n) 0\<rparr>"

definition ready_objects :: "nat \<Rightarrow> pool_objects" where
  "ready_objects tid = \<lparr>po_queue = Ptr_Block, po_not_full = Ready, po_not_empty = Ready, po_tids = Ptr_Block, po_attr = Ready,
     po_adjust_tid = Some tid, po_lock = Ready, po_not_enable = Ready, po_alive_empty = Ready, po_allocated = True\<rparr>"

definition released :: "pool_objects \<Rightarrow> bool" where
  "released r \<longleftrightarrow> \<not> po_allocated r \<and> po_queue r = Ptr_Null \<and> po_tids r = Ptr_Null
     \<and> {po_not_full r, po_not_empty r, po_attr r, po_lock r, po_not_enable r, po_alive_empty r} = {Destroyed}"

section \<open>The system of threads\<close>

text \<open>
  A worker is about to lock (\<open>W_Start\<close>), waits for a task, holds the address of a slot it has not read
  yet (\<open>W_Got\<close>: the slot is read by \<open>task->task_name(task->task_param)\<close>, after the lock was released),
  runs a task, or has exited. The manager is at the top of its loop, in the timed wait, after the loop,
  in the last wait, or gone. \<open>added\<close>, \<open>taken\<close>, \<open>ran\<close> and \<open>unborn\<close> record the history: the tasks that were
  appended, removed from the queue, and called, and the number of threads the manager failed to create.
\<close>

datatype 't worker = W_Start | W_Waiting | W_Got nat | W_Running 't | W_Exited

datatype manager = M_Loop | M_Timed | M_Final | M_Final_Wait | M_Done

record 't pool_sys =
  pool :: "'t threadpoll"
  workers :: "'t worker list"
  mgr :: manager
  added :: "'t list"
  taken :: "'t list"
  ran :: "'t list"
  unborn :: nat
  freed :: bool

definition pool_init :: "int \<Rightarrow> int \<Rightarrow> int \<Rightarrow> 't pool_sys" where
  "pool_init min_n max_n qsize = \<lparr>pool = new_pool min_n max_n qsize, workers = replicate (nat min_n) W_Start,
     mgr = M_Loop, added = [], taken = [], ran = [], unborn = 0, freed = False\<rparr>"

definition next_rear :: "'t threadpoll \<Rightarrow> nat" where
  "next_rear p = nat ((task_queue_rear p + 1) mod max_task_queue_size p)"

text \<open>
  One step of some thread. With \<open>prompt\<close> the relation keeps only the runs in which no client writes
  into a slot that a worker still has to read; the program's own steps are those of \<open>pool_step False\<close>.
  The answers of \<open>pthread_kill\<close> and \<open>pthread_create\<close> are arbitrary.
  \<open>step_destroy\<close> is the critical section of \<open>threadpoll_destroy\<close>, \<open>step_free\<close> its rest after the manager was joined. The last wait of the manager is an
  \<open>if\<close>, so any wake-up ends it.
\<close>

inductive pool_step :: "bool \<Rightarrow> 't pool_sys \<Rightarrow> 't pool_sys \<Rightarrow> bool" for prompt where
  step_add: "pool_step prompt s (s\<lparr>pool := p, added := added s @ [t]\<rparr>)"
    if "\<not> freed s" "threadpoll_add_task (Some (pool s)) (Some t) = Some (Added p)"
      "prompt \<Longrightarrow> W_Got (next_rear (pool s)) \<notin> set (workers s)"
| step_wait: "pool_step prompt s (s\<lparr>pool := p, workers := (workers s)[i := W_Waiting]\<rparr>)"
    if "\<not> freed s" "i < length (workers s)" "workers s ! i \<in> {W_Start, W_Waiting}"
      "worker_section (workers s ! i = W_Waiting) (pool s) = Go_Wait p"
| step_exit: "pool_step prompt s (s\<lparr>pool := p, workers := (workers s)[i := W_Exited]\<rparr>)"
    if "\<not> freed s" "i < length (workers s)" "workers s ! i \<in> {W_Start, W_Waiting}"
      "worker_section (workers s ! i = W_Waiting) (pool s) = Go_Exit p"
| step_take: "pool_step prompt s (s\<lparr>pool := p, workers := (workers s)[i := W_Got slot],
      taken := taken s @ [the (task_queue (pool s) ! slot)]\<rparr>)"
    if "\<not> freed s" "i < length (workers s)" "workers s ! i \<in> {W_Start, W_Waiting}"
      "worker_section (workers s ! i = W_Waiting) (pool s) = Go_Work slot p"
| step_call: "pool_step prompt s (s\<lparr>workers := (workers s)[i := W_Running t], ran := ran s @ [t]\<rparr>)"
    if "\<not> freed s" "i < length (workers s)" "workers s ! i = W_Got slot"
      "nth_opt (task_queue (pool s)) slot = Some (Some t)"
| step_done: "pool_step prompt s (s\<lparr>pool := worker_done (pool s), workers := (workers s)[i := W_Start]\<rparr>)"
    if "\<not> freed s" "i < length (workers s)" "workers s ! i = W_Running t"
| step_manage: "pool_step prompt s (s\<lparr>pool := p, workers := workers s @ replicate started W_Start, mgr := M_Timed,
      unborn := unborn s + failed\<rparr>)"
    if "\<not> freed s" "mgr s = M_Loop" "tp_state (pool s) \<noteq> 0"
      "manager_section running created (pool s) = Some (started, failed, p)"
| step_manage_stop: "pool_step prompt s (s\<lparr>mgr := M_Final\<rparr>)"
    if "\<not> freed s" "mgr s = M_Loop" "tp_state (pool s) = 0"
| step_timed: "pool_step prompt s (s\<lparr>mgr := (if tp_state (pool s) = 0 then M_Final else M_Loop)\<rparr>)"
    if "\<not> freed s" "mgr s = M_Timed"
| step_final: "pool_step prompt s (s\<lparr>mgr := (if 0 < live_thread_num (pool s) then M_Final_Wait else M_Done)\<rparr>)"
    if "\<not> freed s" "mgr s = M_Final"
| step_final_wake: "pool_step prompt s (s\<lparr>mgr := M_Done\<rparr>)"
    if "\<not> freed s" "mgr s = M_Final_Wait"
| step_destroy: "pool_step prompt s (s\<lparr>pool := threadpoll_disable (pool s)\<rparr>)"
    if "\<not> freed s"
| step_free: "pool_step prompt s (s\<lparr>freed := True\<rparr>)"
    if "\<not> freed s" "mgr s = M_Done" "tp_state (pool s) = 0"

inductive_cases pool_stepE: "pool_step prompt s s'"

definition pool_reachable :: "bool \<Rightarrow> int \<Rightarrow> int \<Rightarrow> int \<Rightarrow> 't pool_sys \<Rightarrow> bool" where
  "pool_reachable prompt min_n max_n qsize s \<longleftrightarrow> (pool_step prompt)\<^sup>*\<^sup>* (pool_init min_n max_n qsize) s"

text \<open>What the counters count.\<close>

fun busy_worker :: "'t worker \<Rightarrow> bool" where
  "busy_worker (W_Got _) = True"
| "busy_worker (W_Running _) = True"
| "busy_worker _ = False"

definition n_busy :: "'t worker list \<Rightarrow> nat" where
  "n_busy ws = length (filter busy_worker ws)"

definition n_alive :: "'t worker list \<Rightarrow> nat" where
  "n_alive ws = length (filter (\<lambda>w. w \<noteq> W_Exited) ws)"

section \<open>The task queue is a bounded queue\<close>

definition queue_wf :: "'t threadpoll \<Rightarrow> bool" where
  "queue_wf p \<longleftrightarrow> 0 < max_task_queue_size p \<and> 0 \<le> task_queue_size p \<and> task_queue_size p \<le> max_task_queue_size p
     \<and> 0 \<le> task_queue_front p \<and> task_queue_front p < max_task_queue_size p
     \<and> task_queue_rear p = (task_queue_front p + task_queue_size p) mod max_task_queue_size p
     \<and> length (task_queue p) = nat (max_task_queue_size p)
     \<and> None \<notin> set (ring_view (task_queue p) (nat ((task_queue_front p + 1) mod max_task_queue_size p))
          (nat (task_queue_size p)) (nat (max_task_queue_size p)))"

definition queue_items :: "'t threadpoll \<Rightarrow> 't list" where
  "queue_items p = map the (ring_view (task_queue p) (nat ((task_queue_front p + 1) mod max_task_queue_size p))
     (nat (task_queue_size p)) (nat (max_task_queue_size p)))"

text \<open>The queue in natural numbers: capacity, front and length.\<close>

lemma queue_wf_nat:
  assumes "queue_wf p"
  obtains n f k where "max_task_queue_size p = int n" "task_queue_front p = int f" "task_queue_size p = int k"
    "0 < n" "f < n" "k \<le> n" "task_queue_rear p = int ((f + k) mod n)" "length (task_queue p) = n"
    "queue_items p = map the (ring_view (task_queue p) (Suc f mod n) k n)"
    "None \<notin> set (ring_view (task_queue p) (Suc f mod n) k n)"
proof -
  define n f k where "n = nat (max_task_queue_size p)" and "f = nat (task_queue_front p)" and "k = nat (task_queue_size p)"
  have eq: "max_task_queue_size p = int n" "task_queue_front p = int f" "task_queue_size p = int k"
    using assms by (auto simp: queue_wf_def n_def f_def k_def)
  have sm: "nat ((int f + 1) mod int n) = Suc f mod n"
    by (metis add.commute nat_int of_nat_Suc zmod_int)
  show thesis
    by (rule that [OF eq]) (use assms eq sm in \<open>auto simp: queue_wf_def queue_items_def zmod_int\<close>)
qed

lemma queue_wf_natI:
  assumes "max_task_queue_size p = int n" "task_queue_front p = int f" "task_queue_size p = int k"
    "0 < n" "f < n" "k \<le> n" "task_queue_rear p = int ((f + k) mod n)" "length (task_queue p) = n"
    "None \<notin> set (ring_view (task_queue p) (Suc f mod n) k n)"
  shows "queue_wf p" and "queue_items p = map the (ring_view (task_queue p) (Suc f mod n) k n)"
proof -
  have sm: "nat ((int f + 1) mod int n) = Suc f mod n"
    by (metis add.commute nat_int of_nat_Suc zmod_int)
  show "queue_wf p" "queue_items p = map the (ring_view (task_queue p) (Suc f mod n) k n)"
    using assms sm by (auto simp: queue_wf_def queue_items_def zmod_int)
qed

lemma queue_append_ok:
  assumes wf: "queue_wf p" and room: "task_queue_size p < max_task_queue_size p"
  shows "\<exists>p'. queue_append t p = Some p' \<and> queue_wf p' \<and> queue_items p' = queue_items p @ [t]
    \<and> (\<exists>r q. p' = p\<lparr>task_queue_rear := r, task_queue := q, task_queue_size := task_queue_size p + 1\<rparr>)"
proof -
  obtain n f k where N: "max_task_queue_size p = int n" "task_queue_front p = int f" "task_queue_size p = int k"
    "0 < n" "f < n" "k \<le> n" "task_queue_rear p = int ((f + k) mod n)" "length (task_queue p) = n"
    "queue_items p = map the (ring_view (task_queue p) (Suc f mod n) k n)"
    "None \<notin> set (ring_view (task_queue p) (Suc f mod n) k n)"
    using wf by (rule queue_wf_nat)
  define r where "r = (Suc f + k) mod n"
  have "(int ((f + k) mod n) + 1) mod int n = int r"
    by (metis add_Suc int_ops(4) mod_Suc_eq of_nat_Suc r_def zmod_int add.commute)
  then have rear: "(task_queue_rear p + 1) mod max_task_queue_size p = int r" using N by simp
  define q where "q = (task_queue p)[r := Some t]"
  define p' where "p' = p\<lparr>task_queue_rear := int r, task_queue := q, task_queue_size := task_queue_size p + 1\<rparr>"
  have "r < n" using N(4) by (simp add: r_def)
  then have "queue_append t p = Some p'"
    using N(8) rear by (simp add: queue_append_def p'_def q_def Let_def)
  have k: "k < n" using room N by simp
  have "(Suc f mod n + i) mod n \<noteq> r" if "i < k" for i
    using mod_add_inj [of i n k "Suc f"] that k by (auto simp: r_def mod_simps)
  then have old: "ring_view q (Suc f mod n) k n = ring_view (task_queue p) (Suc f mod n) k n"
    unfolding q_def by (intro ring_view_cong) (metis nth_list_update_neq)
  have new: "ring_view q (Suc f mod n) (Suc k) n = ring_view (task_queue p) (Suc f mod n) k n @ [Some t]"
    using ring_view_add [of q "Suc f mod n" k 1 n] old \<open>r < n\<close> N(8)
    by (simp add: ring_view_def q_def r_def mod_simps)
  have "queue_wf p'" "queue_items p' = map the (ring_view q (Suc f mod n) (Suc k) n)"
    using queue_wf_natI [of p' n f "Suc k"] N new k by (auto simp: p'_def q_def r_def)
  then show ?thesis using \<open>queue_append t p = Some p'\<close> new N(9) by (auto simp: p'_def)
qed

lemma queue_front_ok:
  assumes wf: "queue_wf p" and some: "0 < task_queue_size p"
  shows "\<exists>slot p'. queue_front p = (slot, p') \<and> queue_wf p' \<and> slot < length (task_queue p)
    \<and> queue_items p = the (task_queue p ! slot) # queue_items p' \<and> task_queue p ! slot \<noteq> None
    \<and> (\<exists>f. p' = p\<lparr>task_queue_front := f, task_queue_size := task_queue_size p - 1, busy_thread_num := busy_thread_num p + 1\<rparr>)"
proof -
  obtain n f k where N: "max_task_queue_size p = int n" "task_queue_front p = int f" "task_queue_size p = int k"
    "0 < n" "f < n" "k \<le> n" "task_queue_rear p = int ((f + k) mod n)" "length (task_queue p) = n"
    "queue_items p = map the (ring_view (task_queue p) (Suc f mod n) k n)"
    "None \<notin> set (ring_view (task_queue p) (Suc f mod n) k n)"
    using wf by (rule queue_wf_nat)
  define f' where "f' = Suc f mod n"
  obtain k' where k': "k = Suc k'" using some N(3) by (cases k) auto
  have f': "f' < n" using N(4) by (simp add: f'_def)
  have "(int f + 1) mod int n = int f'" by (metis add.commute f'_def of_nat_Suc zmod_int)
  then have front: "nat ((task_queue_front p + 1) mod max_task_queue_size p) = f'"
    "(task_queue_front p + 1) mod max_task_queue_size p = int f'" using N by simp_all
  define p' where "p' = p\<lparr>task_queue_front := int f', task_queue_size := int k', busy_thread_num := busy_thread_num p + 1\<rparr>"
  have eq: "queue_front p = (f', p')" using front N k' by (simp add: queue_front_def p'_def Let_def)
  have view: "ring_view (task_queue p) (Suc f mod n) k n = task_queue p ! f' # ring_view (task_queue p) (Suc f' mod n) k' n"
    unfolding k' f'_def [symmetric] by (rule ring_view_Suc [OF f'])
  have "(f' + k') mod n = (f + k) mod n" unfolding f'_def k' by (simp add: mod_simps)
  then have "queue_wf p'" "queue_items p' = map the (ring_view (task_queue p) (Suc f' mod n) k' n)"
    using queue_wf_natI [of p' n f' k'] N view f' k' by (auto simp: p'_def)
  moreover have "task_queue p ! f' \<noteq> None" using N(10) unfolding view by (metis list.set_intros(1))
  moreover have "queue_items p = the (task_queue p ! f') # map the (ring_view (task_queue p) (Suc f' mod n) k' n)"
    using N(9) unfolding view by simp
  ultimately show ?thesis
    using eq N(3,8) f' k' by (intro exI [of _ f'] exI [of _ p']) (auto simp: p'_def)
qed

definition pool_enq :: "'t \<Rightarrow> 't threadpoll \<Rightarrow> (bool \<times> 't threadpoll) option" where
  "pool_enq t p = (if task_queue_size p = max_task_queue_size p then Some (False, p) else map_option (Pair True) (queue_append t p))"

definition pool_deq :: "'t threadpoll \<Rightarrow> ('t option \<times> 't threadpoll) option" where
  "pool_deq p = (if task_queue_size p = 0 then Some (None, p)
     else case queue_front p of (slot, p') \<Rightarrow> map_option (\<lambda>t. (t, p')) (nth_opt (task_queue p) slot))"

interpretation tq: bounded_fifo queue_wf queue_items "\<lambda>p. nat (max_task_queue_size p)" pool_enq pool_deq
proof
  fix p :: "'a threadpoll" and t xs
  assume wf: "queue_wf p"
  have len: "int (length (queue_items p)) = task_queue_size p"
    using wf by (simp add: queue_items_def queue_wf_def)
  have le: "0 \<le> task_queue_size p" "task_queue_size p \<le> max_task_queue_size p" using wf by (simp_all add: queue_wf_def)
  show "length (queue_items p) \<le> nat (max_task_queue_size p)" using len le by linarith
  show "\<exists>p'. pool_enq t p = Some (True, p') \<and> queue_wf p' \<and> queue_items p' = queue_items p @ [t]
      \<and> nat (max_task_queue_size p') = nat (max_task_queue_size p)"
    if "length (queue_items p) < nat (max_task_queue_size p)"
  proof -
    have "task_queue_size p < max_task_queue_size p" using that len by linarith
    from queue_append_ok [OF wf this, of t] this show ?thesis by (auto simp: pool_enq_def)
  qed
  show "\<exists>p'. pool_enq t p = Some (False, p') \<and> queue_wf p' \<and> queue_items p' = queue_items p
      \<and> nat (max_task_queue_size p') = nat (max_task_queue_size p)"
    if "length (queue_items p) = nat (max_task_queue_size p)"
    using that len le wf by (simp add: pool_enq_def)
  show "\<exists>p'. pool_deq p = Some (Some t, p') \<and> queue_wf p' \<and> queue_items p' = xs
      \<and> nat (max_task_queue_size p') = nat (max_task_queue_size p)" if "queue_items p = t # xs"
  proof -
    have "0 < task_queue_size p" using len that by simp
    from queue_front_ok [OF wf this] this that show ?thesis by (auto simp: pool_deq_def nth_opt_def)
  qed
  show "\<exists>p'. pool_deq p = Some (None, p') \<and> queue_wf p' \<and> queue_items p' = []
      \<and> nat (max_task_queue_size p') = nat (max_task_queue_size p)" if "queue_items p = []"
    using len that wf by (simp add: pool_deq_def)
qed

section \<open>The invariant of the system\<close>

text \<open>The counters of the pool against the threads.\<close>

definition counters_wf :: "'t pool_sys \<Rightarrow> bool" where
  "counters_wf s \<longleftrightarrow> busy_thread_num (pool s) = int (n_busy (workers s))
     \<and> live_thread_num (pool s) = int (n_alive (workers s) + unborn s)
     \<and> live_thread_num (pool s) \<le> max_thread_num (pool s)
     \<and> (tp_state (pool s) \<noteq> 0 \<longrightarrow> min_thread_num (pool s) \<le> live_thread_num (pool s))
     \<and> length (work_tids (pool s)) = nat (max_thread_num (pool s))"

text \<open>Tasks leave the queue in the order they came, and a held slot holds a task.\<close>

definition tasks_wf :: "'t pool_sys \<Rightarrow> bool" where
  "tasks_wf s \<longleftrightarrow> tp_state (pool s) \<in> {0, 1} \<and> queue_wf (pool s) \<and> added s = taken s @ queue_items (pool s)
     \<and> (\<forall>slot. W_Got slot \<in> set (workers s) \<longrightarrow>
          slot < length (task_queue (pool s)) \<and> task_queue (pool s) ! slot \<noteq> None)"

lemma n_busy_simps [simp]:
  "n_busy (ws @ ws') = n_busy ws + n_busy ws'" "n_busy (replicate k W_Start) = 0"
  by (simp_all add: n_busy_def)

lemma n_alive_simps [simp]:
  "n_alive (ws @ ws') = n_alive ws + n_alive ws'" "n_alive (replicate k W_Start) = k"
  by (simp_all add: n_alive_def)

lemma n_busy_update:
  "i < length ws \<Longrightarrow> n_busy (ws[i := w]) + (if busy_worker (ws ! i) then 1 else 0) = n_busy ws + (if busy_worker w then 1 else 0)"
  unfolding n_busy_def by (rule length_filter_list_update)

lemma n_alive_update:
  "i < length ws \<Longrightarrow> n_alive (ws[i := w]) + (if ws ! i \<noteq> W_Exited then 1 else 0) = n_alive ws + (if w \<noteq> W_Exited then 1 else 0)"
  unfolding n_alive_def by (rule length_filter_list_update)

text \<open>The three outcomes of the worker's critical section.\<close>

lemma worker_woken_cases:
  obtains (gone) w where "(if b then worker_woken p else (False, p))
      = (True, p\<lparr>wait_exit_thread_num := w, live_thread_num := live_thread_num p - 1\<rparr>)"
      "min_thread_num p < live_thread_num p"
  | (stay) w where "(if b then worker_woken p else (False, p)) = (False, p\<lparr>wait_exit_thread_num := w\<rparr>)"
proof (cases "b \<and> 0 < wait_exit_thread_num p")
  case True
  then show thesis
    using that [of "wait_exit_thread_num p - 1"]
    by (cases "min_thread_num p < live_thread_num p") (simp_all add: worker_woken_def Let_def)
next
  case False
  then show thesis using that(2) [of "wait_exit_thread_num p"] by (auto simp: worker_woken_def)
qed

lemma worker_section_wait:
  assumes "worker_section b p = Go_Wait p'"
  shows "\<exists>w. p' = p\<lparr>wait_exit_thread_num := w\<rparr>"
proof (rule worker_woken_cases [of b p])
  fix w
  assume "(if b then worker_woken p else (False, p))
      = (True, p\<lparr>wait_exit_thread_num := w, live_thread_num := live_thread_num p - 1\<rparr>)"
    "min_thread_num p < live_thread_num p"
  then show ?thesis using assms unfolding worker_section_def by auto
next
  fix w
  assume "(if b then worker_woken p else (False, p)) = (False, p\<lparr>wait_exit_thread_num := w\<rparr>)"
  then show ?thesis using assms unfolding worker_section_def
    by (intro exI [of _ w]) (auto split: if_splits prod.splits)
qed

lemma worker_section_exit:
  assumes "worker_section b p = Go_Exit p'"
  shows "\<exists>w. p' = p\<lparr>wait_exit_thread_num := w, live_thread_num := live_thread_num p - 1\<rparr>
    \<and> (tp_state p = 0 \<or> min_thread_num p < live_thread_num p)"
proof (rule worker_woken_cases [of b p])
  fix w
  assume "(if b then worker_woken p else (False, p))
      = (True, p\<lparr>wait_exit_thread_num := w, live_thread_num := live_thread_num p - 1\<rparr>)"
    "min_thread_num p < live_thread_num p"
  then show ?thesis using assms unfolding worker_section_def by auto
next
  fix w
  assume "(if b then worker_woken p else (False, p)) = (False, p\<lparr>wait_exit_thread_num := w\<rparr>)"
  then show ?thesis using assms unfolding worker_section_def
    by (intro exI [of _ w]) (auto split: if_splits prod.splits)
qed

lemma worker_section_work:
  assumes "worker_section b p = Go_Work slot p'"
  shows "\<exists>w. queue_front (p\<lparr>wait_exit_thread_num := w\<rparr>) = (slot, p') \<and> tp_state p \<noteq> 0
    \<and> (tp_state p = 1 \<longrightarrow> task_queue_size p \<noteq> 0)"
proof (rule worker_woken_cases [of b p])
  fix w
  assume "(if b then worker_woken p else (False, p))
      = (True, p\<lparr>wait_exit_thread_num := w, live_thread_num := live_thread_num p - 1\<rparr>)"
    "min_thread_num p < live_thread_num p"
  then show ?thesis using assms unfolding worker_section_def by auto
next
  fix w
  assume "(if b then worker_woken p else (False, p)) = (False, p\<lparr>wait_exit_thread_num := w\<rparr>)"
  then show ?thesis using assms unfolding worker_section_def
    by (intro exI [of _ w]) (auto split: if_splits prod.splits)
qed

text \<open>The manager starts workers up to the maximum and never leaves the array of identifiers.\<close>

lemma add_loop_ok:
  assumes "length (work_tids p) = nat (max_thread_num p)" "live_thread_num p \<le> max_thread_num p"
    "int add \<le> task_queue_size p"
  shows "\<exists>k f tids. add_loop running created i add started failed p
      = Some (started + k, failed + f, p\<lparr>live_thread_num := live_thread_num p + int (k + f), work_tids := tids\<rparr>)
    \<and> live_thread_num p + int (k + f) \<le> max_thread_num p \<and> int (add + k + f) \<le> task_queue_size p
    \<and> length tids = length (work_tids p)"
  using assms
proof (induction running created i add started failed p rule: add_loop.induct)
  case (1 running created i add started failed p)
  show ?case
  proof (cases "int i < max_thread_num p \<and> live_thread_num p < max_thread_num p \<and> int add < task_queue_size p")
    case False
    then have eq: "add_loop running created i add started failed p = Some (started, failed, p)"
      by (subst add_loop.simps) auto
    show ?thesis unfolding eq
      by (rule exI [of _ 0], rule exI [of _ 0], rule exI [of _ "work_tids p"]) (use 1(5,6) in simp)
  next
    case True
    then have i: "i < length (work_tids p)" using 1(4) by linarith
    let ?p1 = "p\<lparr>live_thread_num := live_thread_num p + 1\<rparr>"
    consider (busy) "threadpoll_alive running (work_tids p ! i) \<noteq> 0"
      | (failed) "threadpoll_alive running (work_tids p ! i) = 0" "created add = None"
      | (new) t where "threadpoll_alive running (work_tids p ! i) = 0" "created add = Some t"
      by blast
    then show ?thesis
    proof cases
      case busy
      have "add_loop running created i add started failed p = add_loop running created (Suc i) add started failed p"
        by (subst add_loop.simps) (use True i busy in simp)
      then show ?thesis using 1(3) [OF True nth_opt_Some [OF i] busy] 1(4-6) by simp
    next
      case failed
      have eq: "add_loop running created i add started failed p = add_loop running created (Suc i) (Suc add) started (Suc failed) ?p1"
        by (subst add_loop.simps) (use True i failed in simp)
      obtain k f tids where D: "add_loop running created (Suc i) (Suc add) started (Suc failed) ?p1
          = Some (started + k, Suc failed + f, ?p1\<lparr>live_thread_num := live_thread_num ?p1 + int (k + f), work_tids := tids\<rparr>)"
        "live_thread_num ?p1 + int (k + f) \<le> max_thread_num p" "int (Suc add + k + f) \<le> task_queue_size p"
        "length tids = length (work_tids p)"
        using 1(1) [OF True nth_opt_Some [OF i] failed] 1(4-6) True by auto
      show ?thesis unfolding eq
        by (rule exI [of _ k], rule exI [of _ "Suc f"], rule exI [of _ tids]) (use D in \<open>simp add: algebra_simps\<close>)
    next
      case new
      let ?p2 = "p\<lparr>live_thread_num := live_thread_num p + 1, work_tids := (work_tids p)[i := t]\<rparr>"
      have eq: "add_loop running created i add started failed p = add_loop running created (Suc i) (Suc add) (Suc started) failed ?p2"
        by (subst add_loop.simps) (use True i new in simp)
      obtain k f tids where D: "add_loop running created (Suc i) (Suc add) (Suc started) failed ?p2
          = Some (Suc started + k, failed + f, ?p2\<lparr>live_thread_num := live_thread_num ?p2 + int (k + f), work_tids := tids\<rparr>)"
        "live_thread_num ?p2 + int (k + f) \<le> max_thread_num p" "int (Suc add + k + f) \<le> task_queue_size p"
        "length tids = length (work_tids p)"
        using 1(2) [OF True nth_opt_Some [OF i] new] 1(4-6) True by auto
      show ?thesis unfolding eq
        by (rule exI [of _ "Suc k"], rule exI [of _ f], rule exI [of _ tids]) (use D in \<open>simp add: algebra_simps\<close>)
    qed
  qed
qed

lemma manager_section_ok:
  assumes "length (work_tids p) = nat (max_thread_num p)" "live_thread_num p \<le> max_thread_num p" "0 \<le> task_queue_size p"
  shows "\<exists>k f tids w. manager_section running created p
      = Some (k, f, p\<lparr>live_thread_num := live_thread_num p + int (k + f), work_tids := tids, wait_exit_thread_num := w\<rparr>)
    \<and> live_thread_num p + int (k + f) \<le> max_thread_num p \<and> int (k + f) \<le> task_queue_size p
    \<and> length tids = length (work_tids p)"
proof -
  let ?c = "busy_thread_num p = live_thread_num p \<and> 0 < task_queue_size p \<and> live_thread_num p < max_thread_num p"
  obtain k f tids where A: "(if ?c then add_loop running created 0 0 0 0 p else Some (0, 0, p))
      = Some (k, f, p\<lparr>live_thread_num := live_thread_num p + int (k + f), work_tids := tids\<rparr>)"
    "live_thread_num p + int (k + f) \<le> max_thread_num p" "int (k + f) \<le> task_queue_size p"
    "length tids = length (work_tids p)"
  proof (cases ?c)
    case True
    then show ?thesis using add_loop_ok [of p 0 running created 0 0 0] assms that by simp blast
  next
    case False
    then show ?thesis by (intro that [where k = 0 and f = 0 and tids = "work_tids p"]) (use assms in auto)
  qed
  let ?p = "p\<lparr>live_thread_num := live_thread_num p + int (k + f), work_tids := tids\<rparr>"
  have "\<exists>w. (if c then ?p\<lparr>wait_exit_thread_num := x\<rparr> else ?p) = ?p\<lparr>wait_exit_thread_num := w\<rparr>" for c x
    by (rule exI [of _ "if c then x else wait_exit_thread_num p"]) simp
  then obtain w where "manager_section running created p = Some (k, f, ?p\<lparr>wait_exit_thread_num := w\<rparr>)"
    unfolding manager_section_def A(1) by (simp del: threadpoll.simps of_nat_add) metis
  with A show ?thesis by blast
qed

text \<open>The queue and its contents do not depend on the other fields.\<close>

lemma queue_wf_update [simp]:
  "queue_wf (p\<lparr>wait_exit_thread_num := w\<rparr>) = queue_wf p" "queue_wf (p\<lparr>live_thread_num := l\<rparr>) = queue_wf p"
  "queue_wf (p\<lparr>work_tids := ts\<rparr>) = queue_wf p" "queue_wf (p\<lparr>busy_thread_num := l\<rparr>) = queue_wf p"
  "queue_wf (p\<lparr>tp_state := x\<rparr>) = queue_wf p"
  by (simp_all add: queue_wf_def)

lemma queue_items_update [simp]:
  "queue_items (p\<lparr>wait_exit_thread_num := w\<rparr>) = queue_items p" "queue_items (p\<lparr>live_thread_num := l\<rparr>) = queue_items p"
  "queue_items (p\<lparr>work_tids := ts\<rparr>) = queue_items p" "queue_items (p\<lparr>busy_thread_num := l\<rparr>) = queue_items p"
  "queue_items (p\<lparr>tp_state := x\<rparr>) = queue_items p"
  by (simp_all add: queue_items_def)

lemma set_update_Got: "W_Got x \<in> set (ws[i := w]) \<Longrightarrow> w \<noteq> W_Got x \<Longrightarrow> W_Got x \<in> set ws"
  using set_update_subset_insert [of ws i w] by auto

text \<open>Appending a task in a step: the queue grows at the end and every full slot stays full.\<close>

lemma add_task_ok:
  assumes "queue_wf p" "tp_state p \<in> {0, 1}" "threadpoll_add_task (Some p) (Some t) = Some (Added p')"
  shows "queue_wf p' \<and> queue_items p' = queue_items p @ [t] \<and> task_queue_size p < max_task_queue_size p
    \<and> p' = p\<lparr>task_queue_rear := int (next_rear p), task_queue := (task_queue p)[next_rear p := Some t],
        task_queue_size := task_queue_size p + 1\<rparr>"
proof -
  have app: "queue_append t p = Some p'" and room: "task_queue_size p < max_task_queue_size p"
    using assms by (auto simp: threadpoll_add_task_def queue_wf_def split: if_splits)
  have "0 < max_task_queue_size p" using assms(1) by (simp add: queue_wf_def)
  then have "p' = p\<lparr>task_queue_rear := int (next_rear p), task_queue := (task_queue p)[next_rear p := Some t],
        task_queue_size := task_queue_size p + 1\<rparr>"
    using app by (auto simp: queue_append_def Let_def upd_opt_eq_Some next_rear_def split: bind_splits)
  with queue_append_ok [OF assms(1) room, of t] app room show ?thesis by auto
qed

text \<open>Taking a task in a step.\<close>

lemma take_task_ok:
  assumes "queue_wf p" "tp_state p \<in> {0, 1}" "worker_section b p = Go_Work slot p'"
  shows "queue_wf p' \<and> queue_items p = the (task_queue p ! slot) # queue_items p'
    \<and> slot < length (task_queue p) \<and> task_queue p ! slot \<noteq> None
    \<and> (\<exists>w f. p' = p\<lparr>wait_exit_thread_num := w, task_queue_front := f, task_queue_size := task_queue_size p - 1,
          busy_thread_num := busy_thread_num p + 1\<rparr>)"
proof -
  obtain w where W: "queue_front (p\<lparr>wait_exit_thread_num := w\<rparr>) = (slot, p')" "0 < task_queue_size p"
    using worker_section_work [OF assms(3)] assms(1,2) by (auto simp: queue_wf_def)
  from queue_front_ok [of "p\<lparr>wait_exit_thread_num := w\<rparr>"] assms(1) W show ?thesis by fastforce
qed

lemma update_Some: "\<exists>y. xs ! i = Some y \<Longrightarrow> \<exists>y. xs[j := Some t] ! i = Some y"
  by (cases "i = j \<and> j < length xs") (auto simp: list_update_beyond)

lemma tasks_wf_step:
  assumes "pool_step prompt s s'" and "tasks_wf s" and "counters_wf s"
  shows "tasks_wf s'"
  using assms
proof (induction rule: pool_step.induct)
  case (step_add s t p)
  then show ?case
    using add_task_ok [of "pool s" t p] by (auto simp: tasks_wf_def intro!: update_Some)
next
  case (step_wait s i p)
  then show ?case
    using worker_section_wait [OF step_wait(4)] by (auto simp: tasks_wf_def dest!: set_update_Got)
next
  case (step_exit s i p)
  then show ?case
    using worker_section_exit [OF step_exit(4)] by (auto simp: tasks_wf_def dest!: set_update_Got)
next
  case (step_take s i slot p)
  then show ?case
    using take_task_ok [OF _ _ step_take(4)] by (auto simp: tasks_wf_def dest: set_update_Got)
next
  case (step_call s i slot t)
  then show ?case by (auto simp: tasks_wf_def dest!: set_update_Got)
next
  case (step_done s i t)
  then show ?case by (auto simp: tasks_wf_def worker_done_def dest!: set_update_Got)
next
  case (step_manage s running created started failed p)
  then have "0 \<le> task_queue_size (pool s)" by (simp add: tasks_wf_def queue_wf_def)
  then show ?case
    using manager_section_ok [of "pool s" running created] step_manage
    by (auto simp: tasks_wf_def counters_wf_def)
qed (auto simp: tasks_wf_def threadpoll_disable_def)

lemma counters_wf_step:
  assumes "pool_step prompt s s'" and "tasks_wf s" and "counters_wf s"
  shows "counters_wf s'"
  using assms
proof (induction rule: pool_step.induct)
  case (step_add s t p)
  then show ?case
    using add_task_ok [of "pool s" t p] by (auto simp: tasks_wf_def counters_wf_def)
next
  case (step_wait s i p)
  then show ?case
    using worker_section_wait [OF step_wait(4)] n_busy_update [OF step_wait(2), of W_Waiting]
      n_alive_update [OF step_wait(2), of W_Waiting]
    by (auto simp: counters_wf_def)
next
  case (step_exit s i p)
  then show ?case
    using worker_section_exit [OF step_exit(4)] n_busy_update [OF step_exit(2), of W_Exited]
      n_alive_update [OF step_exit(2), of W_Exited]
    by (auto simp: counters_wf_def)
next
  case (step_take s i slot p)
  then show ?case
    using take_task_ok [OF _ _ step_take(4)] n_busy_update [OF step_take(2), of "W_Got slot"]
      n_alive_update [OF step_take(2), of "W_Got slot"]
    by (auto simp: tasks_wf_def counters_wf_def)
next
  case (step_call s i slot t)
  then show ?case
    using n_busy_update [OF step_call(2), of "W_Running t"] n_alive_update [OF step_call(2), of "W_Running t"]
    by (auto simp: counters_wf_def)
next
  case (step_done s i t)
  then show ?case
    using n_busy_update [OF step_done(2), of W_Start] n_alive_update [OF step_done(2), of W_Start]
    by (auto simp: counters_wf_def worker_done_def)
next
  case (step_manage s running created started failed p)
  then have "0 \<le> task_queue_size (pool s)" by (simp add: tasks_wf_def queue_wf_def)
  then show ?case
    using manager_section_ok [of "pool s" running created] step_manage
    by (auto simp: counters_wf_def)
qed (auto simp: counters_wf_def threadpoll_disable_def)

section \<open>Reachable states\<close>

lemma new_pool_wf:
  assumes "0 < qsize"
  shows "queue_wf (new_pool min_n max_n qsize)" "queue_items (new_pool min_n max_n qsize) = []"
  using assms by (auto simp: queue_wf_def queue_items_def new_pool_def)

lemma pool_init_wf:
  assumes "0 < qsize" "0 \<le> max_n" "min_n \<le> max_n"
  shows "tasks_wf (pool_init min_n max_n qsize)" "counters_wf (pool_init min_n max_n qsize)"
  using assms
  by (simp_all add: tasks_wf_def pool_init_def new_pool_wf)
    (auto simp: new_pool_def counters_wf_def n_busy_def n_alive_def)

lemma pool_reachable_wf:
  assumes "pool_reachable prompt min_n max_n qsize s" "0 < qsize" "0 \<le> max_n" "min_n \<le> max_n"
  shows "tasks_wf s \<and> counters_wf s"
  using assms(1) unfolding pool_reachable_def
proof (induction rule: rtranclp_induct)
  case base
  then show ?case using pool_init_wf assms(2-4) by blast
next
  case (step s s')
  then show ?case using tasks_wf_step counters_wf_step by blast
qed

text \<open>The limits of the pool never change.\<close>

lemma pool_step_limits:
  assumes "pool_step prompt s s'" "tasks_wf s" "counters_wf s"
  shows "min_thread_num (pool s') = min_thread_num (pool s) \<and> max_thread_num (pool s') = max_thread_num (pool s)
    \<and> max_task_queue_size (pool s') = max_task_queue_size (pool s)"
  using assms
proof (induction rule: pool_step.induct)
  case (step_add s t p)
  then show ?case using add_task_ok [of "pool s" t p] by (auto simp: tasks_wf_def)
next
  case (step_wait s i p)
  then show ?case using worker_section_wait [OF step_wait(4)] by auto
next
  case (step_exit s i p)
  then show ?case using worker_section_exit [OF step_exit(4)] by auto
next
  case (step_take s i slot p)
  then show ?case using take_task_ok [OF _ _ step_take(4)] by (auto simp: tasks_wf_def)
next
  case (step_manage s running created started failed p)
  then have "0 \<le> task_queue_size (pool s)" by (simp add: tasks_wf_def queue_wf_def)
  then show ?case
    using manager_section_ok [of "pool s" running created] step_manage by (auto simp: counters_wf_def)
qed (auto simp: threadpoll_disable_def worker_done_def)

lemma pool_reachable_limits:
  assumes "pool_reachable prompt min_n max_n qsize s" "0 < qsize" "0 \<le> max_n" "min_n \<le> max_n"
  shows "min_thread_num (pool s) = min_n \<and> max_thread_num (pool s) = max_n \<and> max_task_queue_size (pool s) = qsize"
  using assms(1) unfolding pool_reachable_def
proof (induction rule: rtranclp_induct)
  case base
  then show ?case by (simp add: pool_init_def new_pool_def)
next
  case (step s s')
  then show ?case
    using pool_step_limits pool_reachable_wf [OF _ assms(2-4)] unfolding pool_reachable_def by metis
qed

text \<open>
  The tasks that were taken and not yet called are those in the held slots, as long as no held slot is
  written to.
\<close>

fun held_task :: "'t option list \<Rightarrow> 't worker \<Rightarrow> 't list" where
  "held_task q (W_Got slot) = [the (q ! slot)]"
| "held_task q _ = []"

definition held_tasks :: "'t option list \<Rightarrow> 't worker list \<Rightarrow> 't multiset" where
  "held_tasks q ws = mset (concat (map (held_task q) ws))"

lemma held_tasks_update:
  assumes "i < length ws"
  shows "held_tasks q (ws[i := w]) + mset (held_task q (ws ! i)) = held_tasks q ws + mset (held_task q w)"
proof -
  have "mset (concat (map (held_task q) (ws[i := w]))) = mset (concat (map (held_task q) (take i ws)))
      + mset (held_task q w) + mset (concat (map (held_task q) (drop (Suc i) ws)))"
    using assms by (simp add: upd_conv_take_nth_drop)
  moreover have "mset (concat (map (held_task q) ws)) = mset (concat (map (held_task q) (take i ws)))
      + mset (held_task q (ws ! i)) + mset (concat (map (held_task q) (drop (Suc i) ws)))"
    by (subst id_take_nth_drop [OF assms]) (simp del: append_take_drop_id)
  ultimately show ?thesis by (simp add: held_tasks_def)
qed

lemma held_tasks_append [simp]: "held_tasks q (ws @ replicate k W_Start) = held_tasks q ws"
  by (induction k) (simp_all add: held_tasks_def)

lemma held_tasks_write:
  assumes "W_Got r \<notin> set ws"
  shows "held_tasks (q[r := x]) ws = held_tasks q ws"
proof -
  have "held_task (q[r := x]) w = held_task q w" if "w \<in> set ws" for w
    using assms that by (cases w) (auto, metis nth_list_update_neq)
  then show ?thesis unfolding held_tasks_def by (metis map_eq_conv)
qed

lemma held_tasks_idle:
  assumes "i < length ws" "held_task q (ws ! i) = []" "held_task q w = []"
  shows "held_tasks q (ws[i := w]) = held_tasks q ws"
  using held_tasks_update [OF assms(1), of q w] assms(2,3) by simp

definition conserved :: "'t pool_sys \<Rightarrow> bool" where
  "conserved s \<longleftrightarrow> mset (taken s) = mset (ran s) + held_tasks (task_queue (pool s)) (workers s)"

lemma conserved_step:
  assumes "pool_step True s s'" "tasks_wf s" "counters_wf s" "conserved s"
  shows "conserved s'"
  using assms
proof (induction rule: pool_step.induct)
  case (step_add s t p)
  then show ?case
    using add_task_ok [of "pool s" t p] by (auto simp: tasks_wf_def conserved_def held_tasks_write)
next
  case (step_wait s i p)
  then have "task_queue p = task_queue (pool s)" using worker_section_wait [OF step_wait(4)] by auto
  then show ?case using step_wait by (auto simp: conserved_def held_tasks_idle)
next
  case (step_exit s i p)
  then have "task_queue p = task_queue (pool s)" using worker_section_exit [OF step_exit(4)] by auto
  then show ?case using step_exit by (auto simp: conserved_def held_tasks_idle)
next
  case (step_take s i slot p)
  then have "task_queue p = task_queue (pool s)"
    using take_task_ok [OF _ _ step_take(4)] by (auto simp: tasks_wf_def)
  then show ?case
    using step_take held_tasks_update [OF step_take(2), of "task_queue (pool s)" "W_Got slot"]
    by (auto simp: conserved_def)
next
  case (step_call s i slot t)
  then have "task_queue (pool s) ! slot = Some t" by (simp add: nth_opt_eq_Some)
  then show ?case
    using step_call held_tasks_update [OF step_call(2), of "task_queue (pool s)" "W_Running t"]
    by (auto simp: conserved_def)
next
  case (step_done s i t)
  then show ?case by (auto simp: conserved_def held_tasks_idle worker_done_def)
next
  case (step_manage s running created started failed p)
  then have "0 \<le> task_queue_size (pool s)" by (simp add: tasks_wf_def queue_wf_def)
  then have "task_queue p = task_queue (pool s)"
    using manager_section_ok [of "pool s" running created] step_manage by (auto simp: counters_wf_def)
  then show ?case using step_manage by (auto simp: conserved_def)
qed (auto simp: conserved_def threadpoll_disable_def)

lemma pool_reachable_conserved:
  assumes "pool_reachable True min_n max_n qsize s" "0 < qsize" "0 \<le> max_n" "min_n \<le> max_n"
  shows "conserved s"
  using assms(1) unfolding pool_reachable_def
proof (induction rule: rtranclp_induct)
  case base
  then show ?case by (auto simp: conserved_def pool_init_def held_tasks_def)
next
  case (step s s')
  then show ?case
    using conserved_step pool_reachable_wf [OF _ assms(2-4)] unfolding pool_reachable_def by metis
qed

section \<open>Properties of the pool\<close>

text \<open>
  C15: first in, first out. In every reachable state of the pool, whatever the interleaving of clients,
  workers, manager and destroyer, the tasks taken by workers are exactly the tasks added, in the same
  order, up to the ones still queued; the queue never holds more than its capacity, and a slot that a
  worker is about to read holds a task.
\<close>

theorem pool_fifo:
  assumes "pool_reachable prompt min_n max_n qsize s" "0 < qsize" "0 \<le> max_n" "min_n \<le> max_n"
  shows "added s = taken s @ queue_items (pool s) \<and> int (length (queue_items (pool s))) = task_queue_size (pool s)
    \<and> task_queue_size (pool s) \<le> qsize
    \<and> (\<forall>slot. W_Got slot \<in> set (workers s) \<longrightarrow> (\<exists>t. nth_opt (task_queue (pool s)) slot = Some (Some t)))"
proof -
  have inv: "tasks_wf s" "max_task_queue_size (pool s) = qsize"
    using pool_reachable_wf [OF assms] pool_reachable_limits [OF assms] by simp_all
  then have "task_queue_size (pool s) \<le> qsize" "int (length (queue_items (pool s))) = task_queue_size (pool s)"
    by (auto simp: tasks_wf_def queue_wf_def queue_items_def)
  with inv(1) show ?thesis by (auto simp: tasks_wf_def nth_opt_def)
qed

text \<open>
  C16: the counters. In every reachable state of a pool with sensible sizes \<open>busy_thread_num\<close> is the number of
  workers between taking a task and finishing it, \<open>live_thread_num\<close> is exactly the number of workers that have
  not exited plus the number of threads the manager failed to create, it never exceeds the maximum and does not
  fall below the minimum while the pool is enabled, and the identifiers fit their array.
\<close>

theorem pool_counters:
  assumes "pool_reachable prompt min_n max_n qsize s" "0 < qsize" "0 \<le> max_n" "min_n \<le> max_n"
  shows "busy_thread_num (pool s) = int (n_busy (workers s)) \<and> live_thread_num (pool s) = int (n_alive (workers s) + unborn s)
    \<and> live_thread_num (pool s) \<le> max_n \<and> (threadpoll_enable (Some (pool s)) \<noteq> 0 \<longrightarrow> min_n \<le> live_thread_num (pool s))
    \<and> length (work_tids (pool s)) = nat max_n"
  using pool_reachable_wf [OF assms] pool_reachable_limits [OF assms] by (auto simp: counters_wf_def)

text \<open>
  C17: no task is lost or run twice in the runs in which no client writes into a slot that a worker still
  has to read: every added task was called, is held by one worker, or is queued.
\<close>

theorem pool_no_task_lost:
  assumes "pool_reachable True min_n max_n qsize s" "0 < qsize" "0 \<le> max_n" "min_n \<le> max_n"
  shows "mset (added s) = mset (ran s) + held_tasks (task_queue (pool s)) (workers s) + mset (queue_items (pool s))"
  using pool_reachable_wf [OF assms] pool_reachable_conserved [OF assms]
  by (simp add: tasks_wf_def conserved_def)

section \<open>Runs\<close>

lemma pool_reachable_init [simp]: "pool_reachable prompt min_n max_n qsize (pool_init min_n max_n qsize)"
  by (simp add: pool_reachable_def)

lemma pool_reachable_step:
  "pool_reachable prompt min_n max_n qsize s \<Longrightarrow> pool_step prompt s s' \<Longrightarrow> pool_reachable prompt min_n max_n qsize s'"
  by (simp add: pool_reachable_def)

lemmas pool_eval = pool_init_def new_pool_def threadpoll_add_task_def queue_append_def worker_section_def
  queue_front_def worker_woken_def next_rear_def Let_def upd_opt_def threadpoll_disable_def worker_done_def

text \<open>The states of a pool with one worker and a queue of one slot.\<close>

definition one_slot :: "'t option \<Rightarrow> int \<Rightarrow> int \<Rightarrow> 't worker \<Rightarrow> 't list \<Rightarrow> 't list \<Rightarrow> 't list \<Rightarrow> 't pool_sys" where
  "one_slot q k b w as ts rs = \<lparr>pool = (new_pool 1 1 1)\<lparr>task_queue := [q], task_queue_size := k, busy_thread_num := b\<rparr>,
     workers = [w], mgr = M_Loop, added = as, taken = ts, ran = rs, unborn = 0, freed = False\<rparr>"

lemma one_slot_init: "pool_init 1 1 1 = one_slot None 0 0 W_Start [] [] []"
  by (simp add: one_slot_def pool_eval)

lemma one_slot_add: "pool_step False (one_slot q 0 b w as ts rs) (one_slot (Some t) 1 b w (as @ [t]) ts rs)"
  using step_add [of "one_slot q 0 b w as ts rs" t "pool (one_slot (Some t) 1 b w (as @ [t]) ts rs)" False]
  by (simp add: one_slot_def pool_eval)

lemma one_slot_take:
  "pool_step False (one_slot (Some t) 1 0 W_Start as ts rs) (one_slot (Some t) 0 1 (W_Got 0) as (ts @ [t]) rs)"
  using step_take [of "one_slot (Some t) 1 0 W_Start as ts rs" 0 0 "pool (one_slot (Some t) 0 1 (W_Got 0) as ts rs)" False]
  by (simp add: one_slot_def pool_eval)

lemma one_slot_call:
  "pool_step False (one_slot (Some t) k b (W_Got 0) as ts rs) (one_slot (Some t) k b (W_Running t) as ts (rs @ [t]))"
  using step_call [of "one_slot (Some t) k b (W_Got 0) as ts rs" 0 0 t False]
  by (simp add: one_slot_def pool_eval)

lemma one_slot_done:
  "pool_step False (one_slot q k 1 (W_Running t) as ts rs) (one_slot q k 0 W_Start as ts rs)"
  using step_done [of "one_slot q k 1 (W_Running t) as ts rs" 0 t False]
  by (simp add: one_slot_def pool_eval)

text \<open>
  C18: a task can be lost and another run twice. The worker reads its slot after it gave up the lock, so
  with a queue of one slot a second task overwrites the first between the two: both calls run the
  second task.
\<close>

theorem pool_task_overwritten:
  "\<exists>s. pool_reachable False 1 1 1 s \<and> added s = [t1, t2] \<and> taken s = [t1, t2] \<and> ran s = [t2, t2]
     \<and> queue_items (pool s) = []"
proof -
  note go = pool_reachable_step [of False 1 1 1, rotated]
  have "pool_reachable False 1 1 1 (one_slot None 0 0 W_Start [] [] [] :: 'a pool_sys)"
    using pool_reachable_init [of False 1 1 1] unfolding one_slot_init .
  from go [OF one_slot_add [of _ _ _ _ _ _ t1] this]
  have "pool_reachable False 1 1 1 (one_slot (Some t1) 1 0 W_Start [t1] [] [])" by simp
  from go [OF one_slot_take this]
  have "pool_reachable False 1 1 1 (one_slot (Some t1) 0 1 (W_Got 0) [t1] [t1] [])" by simp
  from go [OF one_slot_add [of _ _ _ _ _ _ t2] this]
  have "pool_reachable False 1 1 1 (one_slot (Some t2) 1 1 (W_Got 0) [t1, t2] [t1] [])" by simp
  from go [OF one_slot_done go [OF one_slot_call this]]
  have "pool_reachable False 1 1 1 (one_slot (Some t2) 1 0 W_Start [t1, t2] [t1] [t2])" by simp
  from go [OF one_slot_call go [OF one_slot_take this]]
  have "pool_reachable False 1 1 1 (one_slot (Some t2) 0 1 (W_Running t2) [t1, t2] [t1, t2] [t2, t2])" by simp
  then show ?thesis
    by (intro exI [of _ "one_slot (Some t2) 0 1 (W_Running t2) [t1, t2] [t1, t2] [t2, t2]"] conjI)
      (simp_all add: one_slot_def queue_items_def new_pool_def)
qed

text \<open>
  the pool can be freed under its workers. The manager's last wait is an \<open>if\<close> and not a loop, so
  after one spurious wake-up \<open>threadpoll_destroy\<close> joins the manager and frees the pool while a worker
  has not left it.
\<close>

theorem pool_freed_under_worker:
  "\<exists>s :: 't pool_sys. pool_reachable False 1 1 1 s \<and> freed s \<and> workers s = [W_Start] \<and> live_thread_num (pool s) = 1"
proof -
  let ?s = "\<lambda>st m f. \<lparr>pool = (new_pool 1 1 1)\<lparr>tp_state := st\<rparr>, workers = [W_Start], mgr = m, added = [], taken = [],
     ran = [], unborn = 0, freed = f\<rparr> :: 't pool_sys"
  have "pool_init 1 1 1 = ?s 1 M_Loop False" by (simp add: pool_eval)
  then have r: "pool_reachable False 1 1 1 (?s 1 M_Loop False)" by (metis pool_reachable_init)
  have s1: "pool_step False (?s 1 M_Loop False) (?s 0 M_Loop False)"
    using step_destroy [of "?s 1 M_Loop False" False] by (simp add: threadpoll_disable_def)
  have s2: "pool_step False (?s 0 M_Loop False) (?s 0 M_Final False)"
    using step_manage_stop [of "?s 0 M_Loop False" False] by simp
  have s3: "pool_step False (?s 0 M_Final False) (?s 0 M_Final_Wait False)"
    using step_final [of "?s 0 M_Final False" False] by (simp add: new_pool_def)
  have s4: "pool_step False (?s 0 M_Final_Wait False) (?s 0 M_Done False)"
    using step_final_wake [of "?s 0 M_Final_Wait False" False] by simp
  have s5: "pool_step False (?s 0 M_Done False) (?s 0 M_Done True)"
    using step_free [of "?s 0 M_Done False" False] by simp
  note go = pool_reachable_step [of False 1 1 1, rotated]
  have "pool_reachable False 1 1 1 (?s 0 M_Done True)" by (rule go [OF s5 go [OF s4 go [OF s3 go [OF s2 go [OF s1 r]]]]])
  then show ?thesis by (intro exI [of _ "?s 0 M_Done True"] conjI) (simp_all add: new_pool_def)
qed

section \<open>Creation and helpers\<close>

lemma malloc_take: "all_ok (take (Suc k) m) \<Longrightarrow> malloc_ok m = (True, tl m) \<and> all_ok (take k (tl m))"
  by (cases m) (auto simp: all_ok_def)

lemma create_threads_ok:
  assumes "all_ok (take k m)" "i + k \<le> length (work_tids p)"
  shows "create_threads i k p m = Some (True, p\<lparr>work_tids := take i (work_tids p) @ map Suc [i..<i + k] @ drop (i + k) (work_tids p),
       live_thread_num := live_thread_num p + int k\<rparr>, drop k m)"
  using assms
proof (induction k arbitrary: i p m)
  case (Suc k)
  note m = malloc_take [OF Suc.prems(1)]
  let ?tids = "(work_tids p)[i := Suc i]"
  let ?p = "p\<lparr>work_tids := ?tids, live_thread_num := live_thread_num p + 1\<rparr>"
  have i: "i < length (work_tids p)" using Suc.prems by simp
  have "[i..<i + Suc k] = i # [Suc i..<Suc i + k]" by (simp add: upt_rec)
  then have t: "take (Suc i) ?tids @ map Suc [Suc i..<Suc i + k] @ drop (Suc i + k) ?tids
      = take i (work_tids p) @ map Suc [i..<i + Suc k] @ drop (i + Suc k) (work_tids p)"
    using i by (simp add: take_Suc_conv_app_nth del: upt_Suc)
  have "create_threads i (Suc k) p m = create_threads (Suc i) k ?p (tl m)" using i m by simp
  also have "\<dots> = Some (True, ?p\<lparr>work_tids := take (Suc i) ?tids @ map Suc [Suc i..<Suc i + k] @ drop (Suc i + k) ?tids,
       live_thread_num := live_thread_num p + 1 + int k\<rparr>, drop k (tl m))"
    using Suc.IH [of "tl m" "Suc i" ?p] m Suc.prems(2) by (simp del: upt_Suc)
  finally show ?case unfolding t by (simp add: drop_Suc add.assoc del: upt_Suc)
qed simp

lemma create_threads_fail:
  assumes "j < k" "i + k \<le> length (work_tids p)"
  shows "\<exists>p'. create_threads i k p (replicate j True @ False # m) = Some (False, p', m)"
  using assms
proof (induction k arbitrary: i p j)
  case (Suc k)
  then show ?case by (cases j) auto
qed simp

lemma new_pool_created:
  assumes "min_n \<le> max_n" "all_ok (take (nat min_n) m)"
  shows "create_threads 0 (nat min_n) (pool_fields min_n max_n qsize) m = Some (True, new_pool min_n max_n qsize, drop (nat min_n) m)"
  using create_threads_ok [OF assms(2), of 0 "pool_fields min_n max_n qsize"] assms(1)
  by (simp add: pool_fields_def new_pool_def nat_mono)

text \<open>Freeing or destroying a pool any object of which is missing is undefined.\<close>

lemma give_up_incomplete:
  "po_alive_empty r \<noteq> Ready \<Longrightarrow> give_up r = None"
  by (auto simp: give_up_def threadpoll_free_def obj_destroy_def split: bind_splits)

lemma destroy_without_manager: "po_adjust_tid r = None \<Longrightarrow> threadpoll_destroy (Some (p, r)) = None"
  by (auto simp: threadpoll_destroy_def split: bind_splits)

lemma start_pool_ok:
  assumes "min_n \<le> max_n" "all_ok (take (Suc (nat min_n)) m)"
  shows "start_pool min_n max_n qsize r m = Some (Some (new_pool min_n max_n qsize, r\<lparr>po_adjust_tid := Some (Suc (nat min_n))\<rparr>))"
proof -
  let ?n = "nat min_n"
  have 1: "all_ok (take ?n m)" using assms(2) set_take_subset_set_take [of ?n "Suc ?n" m] by (auto simp: all_ok_def)
  have "fst (malloc_ok (drop ?n m))"
  proof (cases "?n < length m")
    case True
    then have "m ! ?n" using assms(2) by (simp add: all_ok_def take_Suc_conv_app_nth)
    then show ?thesis using True by (simp add: Cons_nth_drop_Suc [symmetric])
  qed simp
  note m = 1 this
  show ?thesis using m(2) by (auto simp: start_pool_def new_pool_created [OF assms(1) m(1)] split: prod.splits)
qed

lemma start_pool_fail:
  assumes "min_n \<le> max_n" "j \<le> nat min_n" "po_adjust_tid r = None"
  shows "start_pool min_n max_n qsize r (replicate j True @ False # m) = (None :: ('t threadpoll \<times> pool_objects) option option)"
proof (cases "j < nat min_n")
  case True
  have "0 + nat min_n \<le> length (work_tids (pool_fields min_n max_n qsize :: 't threadpoll))" using assms(1) by (simp add: pool_fields_def nat_mono)
  then obtain p where "create_threads 0 (nat min_n) (pool_fields min_n max_n qsize :: 't threadpoll) (replicate j True @ False # m) = Some (False, p, m)"
    using create_threads_fail [OF True] by blast
  then show ?thesis by (simp add: start_pool_def destroy_without_manager [OF assms(3)])
next
  case False
  then have j: "j = nat min_n" using assms(2) by simp
  have ok: "all_ok (take (nat min_n) (replicate (nat min_n) True @ False # m))" by (auto simp: all_ok_def)
  show ?thesis unfolding j start_pool_def by (simp add: new_pool_created [OF assms(1) ok] destroy_without_manager [OF assms(3)])
qed

text \<open>
  C19: creating and destroying a pool of sensible sizes. If every call succeeds, the result is a pool with all
  its objects, and \<open>threadpoll_destroy\<close> of it, after the manager has ended, destroys every object, frees every
  allocation, each exactly once, and returns 0. If the first allocation fails the result is NULL. But if any
  later call fails, up to the creation of the manager, the clean-up tests a pointer that was never assigned,
  destroys an object that was never initialised, or joins a manager that was never started.
\<close>

theorem threadpoll_create_outcomes:
  fixes p :: "'t threadpoll"
  assumes "0 \<le> min_n" "min_n \<le> max_n" "0 < qsize"
  shows "(all_ok m \<longrightarrow> threadpoll_create min_n max_n qsize m = Some (Some (new_pool min_n max_n qsize :: 't threadpoll, ready_objects (Suc (nat min_n)))))
    \<and> (\<exists>r. threadpoll_destroy (Some (p, ready_objects tid)) = Some (0, Some (threadpoll_disable p, Some r)) \<and> released r)
    \<and> threadpoll_create min_n max_n qsize (False # m) = (Some None :: ('t threadpoll \<times> pool_objects) option option)
    \<and> (\<forall>j. 0 < j \<and> j \<le> 10 + nat min_n \<longrightarrow>
          threadpoll_create min_n max_n qsize (replicate j True @ False # m) = (None :: ('t threadpoll \<times> pool_objects) option option))"
proof (intro conjI allI impI)
  assume ok: "all_ok m"
  have tl: "malloc_ok x = (True, tl x)" "all_ok (tl x)" if "all_ok x" for x
    using that by (cases x; simp add: all_ok_def)+
  have tk: "all_ok (take k x)" if "all_ok x" for k and x :: mem
    using that set_take_subset [of k x] unfolding all_ok_def by blast
  show "threadpoll_create min_n max_n qsize m = Some (Some (new_pool min_n max_n qsize :: 't threadpoll, ready_objects (Suc (nat min_n))))"
    using assms ok
    by (simp add: threadpoll_create_def alloc_call_def init_call_def tl tk start_pool_ok fresh_objects_def ready_objects_def)
next
  show "\<exists>r. threadpoll_destroy (Some (p, ready_objects tid)) = Some (0, Some (threadpoll_disable p, Some r)) \<and> released r"
    by (simp add: threadpoll_destroy_def threadpoll_free_def use_obj_def obj_destroy_def ready_objects_def released_def)
next
  show "threadpoll_create min_n max_n qsize (False # m) = (Some None :: ('t threadpoll \<times> pool_objects) option option)" by (simp add: threadpoll_create_def)
next
  fix j
  assume j: "0 < j \<and> j \<le> 10 + nat min_n"
  show "threadpoll_create min_n max_n qsize (replicate j True @ False # m) = (None :: ('t threadpoll \<times> pool_objects) option option)"
  proof (cases "j < 10")
    case True
    then have "j \<in> {1, 2, 3, 4, 5, 6, 7, 8, 9}" using j by auto
    then show ?thesis using assms
      by (auto simp: threadpoll_create_def alloc_call_def init_call_def give_up_incomplete fresh_objects_def numeral_eq_Suc)
  next
    case False
    then obtain i where i: "j = 10 + i" "i \<le> nat min_n" using j by (metis add_le_cancel_left le_add_diff_inverse not_less)
    have "replicate j True @ False # m = replicate 10 True @ replicate i True @ False # m" by (simp add: i(1) replicate_add)
    then show ?thesis using assms i(2)
      by (simp add: threadpoll_create_def alloc_call_def init_call_def fresh_objects_def numeral_eq_Suc start_pool_fail)
  qed
qed

text \<open>
  the deadline of the manager's timed wait is a normalised time exactly one second ahead.
\<close>

theorem manager_deadline_correct:
  assumes "0 \<le> tv_usec" "tv_usec < 1000000" and "manager_deadline tv_sec tv_usec = (s, ns)"
  shows "0 \<le> ns \<and> ns < 1000000000 \<and> s * 1000000000 + ns = (tv_sec + 1) * 1000000000 + tv_usec * 1000"
  using assms by (auto simp: manager_deadline_def TIMER_DEFAULT_def Let_def)

text \<open>
  Changing the maximum. Raising it reallocates the identifiers, keeps the old ones and clears the new
  slots; if the memory is missing nothing changes; lowering it only changes the number.
\<close>

theorem set_max_thread_num_correct:
  assumes "length (work_tids p) = nat (max_thread_num p)" "0 \<le> max_thread_num p"
  shows "set_max_thread_num (Some p) n m =
    (if n \<le> max_thread_num p then Some (0, Some (p\<lparr>max_thread_num := n\<rparr>), m)
     else if \<not> fst (malloc_ok m) then Some (-1, Some p, snd (malloc_ok m))
     else Some (0, Some (p\<lparr>work_tids := work_tids p @ replicate (nat (n - max_thread_num p)) 0, max_thread_num := n\<rparr>),
        snd (malloc_ok m)))"
  using assms by (auto simp: set_max_thread_num_def memcpy_def nat_diff_distrib split: prod.splits)

section \<open>Witnesses\<close>

lemma one_slot_reachable: "pool_reachable prompt 1 1 1 (one_slot (Some t) 1 0 W_Start [t] [] [])"
proof -
  have "pool_step prompt (one_slot None 0 0 W_Start [] [] []) (one_slot (Some t) 1 0 W_Start [t] [] [])"
    using step_add [of "one_slot None 0 0 W_Start [] [] []" t "pool (one_slot (Some t) 1 0 W_Start [t] [] [])" prompt]
    by (simp add: one_slot_def pool_eval)
  then show ?thesis
    using pool_reachable_step [OF pool_reachable_init [of prompt 1 1 1, unfolded one_slot_init]] by blast
qed

theorem pool_fifo_witness: "added (one_slot (Some (7::nat)) 1 0 W_Start [7] [] []) = [7]
  \<and> queue_items (pool (one_slot (Some (7::nat)) 1 0 W_Start [7] [] [])) = [7]"
  using pool_fifo [OF one_slot_reachable [of False "7::nat"]] by (simp add: one_slot_def)

theorem pool_counters_witness:
  "live_thread_num (pool (one_slot (Some (7::nat)) 1 0 W_Start [7] [] [])) = 1 + int (unborn (one_slot (Some (7::nat)) 1 0 W_Start [7] [] []))"
  using pool_counters [OF one_slot_reachable [of False "7::nat"]] by (simp add: one_slot_def n_alive_def)

theorem pool_no_task_lost_witness:
  "mset [7::nat] = mset (queue_items (pool (one_slot (Some 7) 1 0 W_Start [7] [] [])))"
  using pool_no_task_lost [OF one_slot_reachable [of True "7::nat"]] by (simp add: one_slot_def held_tasks_def)

theorem threadpoll_create_outcomes_witness:
  "threadpoll_create 1 2 4 [] = Some (Some (new_pool 1 2 4 :: nat threadpoll, ready_objects 2))
    \<and> threadpoll_create 1 2 4 [True, False] = (None :: (nat threadpoll \<times> pool_objects) option option)"
proof -
  have "threadpoll_create 1 2 4 (replicate 1 True @ [False]) = (None :: (nat threadpoll \<times> pool_objects) option option)"
    using threadpoll_create_outcomes [where min_n = 1 and max_n = 2 and qsize = 4 and m = "[]" and p = "new_pool 1 2 4 :: nat threadpoll" and tid = 0] by auto
  moreover have "threadpoll_create 1 2 4 [] = Some (Some (new_pool 1 2 4 :: nat threadpoll, ready_objects 2))"
    using threadpoll_create_outcomes [where min_n = 1 and max_n = 2 and qsize = 4 and m = "[]" and p = "new_pool 1 2 4 :: nat threadpoll" and tid = 0]
    by (simp add: numeral_2_eq_2)
  ultimately show ?thesis by simp
qed

theorem manager_deadline_correct_witness: "manager_deadline 10 999999 = (11, 999999000)
  \<and> (11::int) * 1000000000 + 999999000 = (10 + 1) * 1000000000 + 999999 * 1000"
  using manager_deadline_correct [of 999999 10 11 999999000] by (simp add: manager_deadline_def TIMER_DEFAULT_def)

theorem set_max_thread_num_correct_witness:
  "set_max_thread_num (Some (new_pool 1 1 4 :: nat threadpoll)) 2 [] = Some (0, Some ((new_pool 1 1 4)\<lparr>work_tids := [1, 0], max_thread_num := 2\<rparr>), [])"
  using set_max_thread_num_correct [of "new_pool 1 1 4 :: nat threadpoll" 2 "[]"] by (simp add: new_pool_def)

end
