(* ===== verification/Cjson_Item.thy ===== *)
theory Cjson_Item
  imports C_Prelude
begin

text \<open>
  The items of cJSON (\<open>20170801/cjson.c\<close> and \<open>cjson.h\<close>): the structure, the constructors, the type
  queries, access to arrays and objects, comparison and duplication.

  An item is a tree: the chain of children is a list, and strings are the C strings at the pointers.
  Pointer structure (\<open>next\<close>, \<open>prev\<close>) matters only for the functions that edit chains. Floating point is
  the machine's: \<open>fp\<close> collects the conversions and comparisons of \<open>double\<close> that the code uses, and
  theorems name what they need of it.
\<close>

section \<open>Floating point\<close>

record 'd fp =
  fp_zero :: 'd
  fp_finite :: "'d \<Rightarrow> bool"
  fp_eq :: "'d \<Rightarrow> 'd \<Rightarrow> bool"
  fp_ge_max :: "'d \<Rightarrow> bool"
  fp_le_min :: "'d \<Rightarrow> bool"
  fp_to_int :: "'d \<Rightarrow> int"
  fp_of_int :: "int \<Rightarrow> 'd"
  fp_g15 :: "'d \<Rightarrow> string"
  fp_g17 :: "'d \<Rightarrow> string"
  fp_strtod :: "string \<Rightarrow> 'd \<times> nat"
  fp_point :: char

text \<open>
  \<open>fp_finite\<close> is the test \<open>(d * 0) == 0\<close>, \<open>fp_ge_max\<close> and \<open>fp_le_min\<close> compare with \<open>INT_MAX\<close> and \<open>INT_MIN\<close>,
  \<open>fp_to_int\<close> is the cast, \<open>fp_g15\<close> and \<open>fp_g17\<close> print with 15 and 17 significant digits, \<open>fp_strtod\<close>
  gives the value and the number of characters it is read from (0 if there is no number), and
  \<open>fp_point\<close> is the decimal point of the locale.
\<close>

definition INT_MAX :: int where "INT_MAX = 2147483647"
definition INT_MIN :: int where "INT_MIN = -2147483648"

text \<open>The integer value of a number, with saturation.\<close>

definition saturate :: "'d fp \<Rightarrow> 'd \<Rightarrow> int" where
  "saturate fp number =
     (if fp_ge_max fp number then INT_MAX else if fp_le_min fp number then INT_MIN else fp_to_int fp number)"

section \<open>Items\<close>

definition cJSON_Invalid :: u32 where "cJSON_Invalid = 0"
definition cJSON_False :: u32 where "cJSON_False = 1"
definition cJSON_True :: u32 where "cJSON_True = 2"
definition cJSON_NULL :: u32 where "cJSON_NULL = 4"
definition cJSON_Number :: u32 where "cJSON_Number = 8"
definition cJSON_String :: u32 where "cJSON_String = 16"
definition cJSON_Array :: u32 where "cJSON_Array = 32"
definition cJSON_Object :: u32 where "cJSON_Object = 64"
definition cJSON_Raw :: u32 where "cJSON_Raw = 128"
definition cJSON_IsReference :: u32 where "cJSON_IsReference = 256"
definition cJSON_StringIsConst :: u32 where "cJSON_StringIsConst = 512"

lemmas cjson_types = cJSON_Invalid_def cJSON_False_def cJSON_True_def cJSON_NULL_def cJSON_Number_def
  cJSON_String_def cJSON_Array_def cJSON_Object_def cJSON_Raw_def cJSON_IsReference_def cJSON_StringIsConst_def

datatype 'd cJSON = CJSON
  (type_of: u32)
  (valuestring: "string option")
  (valueint: int)
  (valuedouble: 'd)
  (name_of: "string option")
  (child: "'d cJSON list")

definition kind_of :: "'d cJSON \<Rightarrow> u32" where
  "kind_of item = type_of item AND 0xFF"

section \<open>Strings and constructors\<close>

text \<open>The difference that the comparison returns is used only as a test for 0.\<close>

fun case_cmp_loop :: "string \<Rightarrow> string \<Rightarrow> int" where
  "case_cmp_loop [] [] = 0"
| "case_cmp_loop (c # s) [] = of_char (tolower c)"
| "case_cmp_loop [] (d # t) = - of_char (tolower d)"
| "case_cmp_loop (c # s) (d # t) =
     (if tolower c = tolower d then case_cmp_loop s t else of_char (tolower c) - of_char (tolower d))"

definition case_insensitive_strcmp :: "string option \<Rightarrow> string option \<Rightarrow> int" where
  "case_insensitive_strcmp string1 string2 =
     (case (string1, string2) of (Some s, Some t) \<Rightarrow> case_cmp_loop s t | _ \<Rightarrow> 1)"

fun cJSON_strdup :: "string option \<Rightarrow> mem \<Rightarrow> string option \<times> mem" where
  "cJSON_strdup None m = (None, m)"
| "cJSON_strdup (Some s) m = (case malloc_ok m of (ok, m) \<Rightarrow> (if ok then Some s else None, m))"

definition zero_item :: "'d fp \<Rightarrow> 'd cJSON" where
  "zero_item fp = CJSON 0 None 0 (fp_zero fp) None []"

definition cJSON_New_Item :: "'d fp \<Rightarrow> mem \<Rightarrow> 'd cJSON option \<times> mem" where
  "cJSON_New_Item fp m = (case malloc_ok m of (ok, m) \<Rightarrow> (if ok then Some (zero_item fp) else None, m))"

fun set_type :: "u32 \<Rightarrow> 'd cJSON \<Rightarrow> 'd cJSON" where
  "set_type t (CJSON _ vs vi vd nm cs) = CJSON t vs vi vd nm cs"

fun set_valuestring :: "string option \<Rightarrow> 'd cJSON \<Rightarrow> 'd cJSON" where
  "set_valuestring vs (CJSON t _ vi vd nm cs) = CJSON t vs vi vd nm cs"

fun set_valueint :: "int \<Rightarrow> 'd cJSON \<Rightarrow> 'd cJSON" where
  "set_valueint vi (CJSON t vs _ vd nm cs) = CJSON t vs vi vd nm cs"

fun set_valuedouble :: "'d \<Rightarrow> 'd cJSON \<Rightarrow> 'd cJSON" where
  "set_valuedouble vd (CJSON t vs vi _ nm cs) = CJSON t vs vi vd nm cs"

fun set_name :: "string option \<Rightarrow> 'd cJSON \<Rightarrow> 'd cJSON" where
  "set_name nm (CJSON t vs vi vd _ cs) = CJSON t vs vi vd nm cs"

fun set_child :: "'d cJSON list \<Rightarrow> 'd cJSON \<Rightarrow> 'd cJSON" where
  "set_child cs (CJSON t vs vi vd nm _) = CJSON t vs vi vd nm cs"

definition cJSON_SetNumberHelper :: "'d fp \<Rightarrow> 'd \<Rightarrow> 'd cJSON \<Rightarrow> 'd cJSON" where
  "cJSON_SetNumberHelper fp number object = set_valuedouble number (set_valueint (saturate fp number) object)"

text \<open>\<open>with_item\<close>: the rest of a constructor, when the allocation of the item succeeded.\<close>

definition with_item :: "'d fp \<Rightarrow> mem \<Rightarrow> ('d cJSON \<Rightarrow> 'd cJSON) \<Rightarrow> 'd cJSON option \<times> mem" where
  "with_item fp m f = (case cJSON_New_Item fp m of (item, m) \<Rightarrow> (map_option f item, m))"

definition cJSON_CreateNull :: "'d fp \<Rightarrow> mem \<Rightarrow> 'd cJSON option \<times> mem" where
  "cJSON_CreateNull fp m = with_item fp m (set_type cJSON_NULL)"

definition cJSON_CreateTrue :: "'d fp \<Rightarrow> mem \<Rightarrow> 'd cJSON option \<times> mem" where
  "cJSON_CreateTrue fp m = with_item fp m (set_type cJSON_True)"

definition cJSON_CreateFalse :: "'d fp \<Rightarrow> mem \<Rightarrow> 'd cJSON option \<times> mem" where
  "cJSON_CreateFalse fp m = with_item fp m (set_type cJSON_False)"

definition cJSON_CreateBool :: "'d fp \<Rightarrow> bool \<Rightarrow> mem \<Rightarrow> 'd cJSON option \<times> mem" where
  "cJSON_CreateBool fp b m = with_item fp m (set_type (if b then cJSON_True else cJSON_False))"

definition cJSON_CreateNumber :: "'d fp \<Rightarrow> 'd \<Rightarrow> mem \<Rightarrow> 'd cJSON option \<times> mem" where
  "cJSON_CreateNumber fp num m =
     with_item fp m (\<lambda>item. set_valueint (saturate fp num) (set_valuedouble num (set_type cJSON_Number item)))"

text \<open>The common part of \<open>cJSON_CreateString\<close> and \<open>cJSON_CreateRaw\<close>.\<close>

definition create_text :: "'d fp \<Rightarrow> u32 \<Rightarrow> string option \<Rightarrow> mem \<Rightarrow> 'd cJSON option \<times> mem" where
  "create_text fp t s m =
     (case cJSON_New_Item fp m of
        (None, m) \<Rightarrow> (None, m)
      | (Some item, m) \<Rightarrow>
          (case cJSON_strdup s m of
             (None, m) \<Rightarrow> (None, m)
           | (Some s, m) \<Rightarrow> (Some (set_valuestring (Some s) (set_type t item)), m)))"

definition cJSON_CreateString :: "'d fp \<Rightarrow> string option \<Rightarrow> mem \<Rightarrow> 'd cJSON option \<times> mem" where
  "cJSON_CreateString fp string m = create_text fp cJSON_String string m"

definition cJSON_CreateRaw :: "'d fp \<Rightarrow> string option \<Rightarrow> mem \<Rightarrow> 'd cJSON option \<times> mem" where
  "cJSON_CreateRaw fp raw m = create_text fp cJSON_Raw raw m"

definition cJSON_CreateArray :: "'d fp \<Rightarrow> mem \<Rightarrow> 'd cJSON option \<times> mem" where
  "cJSON_CreateArray fp m = with_item fp m (set_type cJSON_Array)"

definition cJSON_CreateObject :: "'d fp \<Rightarrow> mem \<Rightarrow> 'd cJSON option \<times> mem" where
  "cJSON_CreateObject fp m = with_item fp m (set_type cJSON_Object)"

text \<open>
  The loop of the four array constructors; \<open>new\<close> makes the item of one element. Reading an element
  beyond the array has no value. On a failed allocation the array made so far is deleted.
\<close>

fun create_elements :: "('a \<Rightarrow> mem \<Rightarrow> 'd cJSON option \<times> mem) \<Rightarrow> 'a list \<Rightarrow> nat \<Rightarrow> nat \<Rightarrow> 'd cJSON list \<Rightarrow> mem
    \<Rightarrow> ('d cJSON list option \<times> mem) option" where
  "create_elements new xs i 0 done m = Some (Some done, m)"
| "create_elements new xs i (Suc k) done m = do {
     x \<leftarrow> nth_opt xs i;
     (case new x m of
        (None, m) \<Rightarrow> Some (None, m)
      | (Some n, m) \<Rightarrow> create_elements new xs (Suc i) k (done @ [n]) m)
   }"

definition create_array_of :: "'d fp \<Rightarrow> ('a \<Rightarrow> mem \<Rightarrow> 'd cJSON option \<times> mem) \<Rightarrow> 'a list option \<Rightarrow> int \<Rightarrow> mem
    \<Rightarrow> ('d cJSON option \<times> mem) option" where
  "create_array_of fp new numbers count m =
     (case numbers of
        None \<Rightarrow> Some (None, m)
      | Some xs \<Rightarrow>
          (if count < 0 then Some (None, m)
           else case cJSON_CreateArray fp m of
               (None, m) \<Rightarrow> Some (None, m)
             | (Some a, m) \<Rightarrow> do {
                 (es, m) \<leftarrow> create_elements new xs 0 (nat count) [] m;
                 Some (map_option (\<lambda>es. set_child es a) es, m)
               }))"

definition cJSON_CreateIntArray :: "'d fp \<Rightarrow> int list option \<Rightarrow> int \<Rightarrow> mem \<Rightarrow> ('d cJSON option \<times> mem) option" where
  "cJSON_CreateIntArray fp = create_array_of fp (\<lambda>i. cJSON_CreateNumber fp (fp_of_int fp i))"

definition cJSON_CreateFloatArray :: "'d fp \<Rightarrow> ('f \<Rightarrow> 'd) \<Rightarrow> 'f list option \<Rightarrow> int \<Rightarrow> mem \<Rightarrow> ('d cJSON option \<times> mem) option" where
  "cJSON_CreateFloatArray fp of_float = create_array_of fp (\<lambda>f. cJSON_CreateNumber fp (of_float f))"

definition cJSON_CreateDoubleArray :: "'d fp \<Rightarrow> 'd list option \<Rightarrow> int \<Rightarrow> mem \<Rightarrow> ('d cJSON option \<times> mem) option" where
  "cJSON_CreateDoubleArray fp = create_array_of fp (cJSON_CreateNumber fp)"

definition cJSON_CreateStringArray :: "'d fp \<Rightarrow> string option list option \<Rightarrow> int \<Rightarrow> mem \<Rightarrow> ('d cJSON option \<times> mem) option" where
  "cJSON_CreateStringArray fp = create_array_of fp (cJSON_CreateString fp)"

section \<open>Queries\<close>

definition has_kind :: "u32 \<Rightarrow> 'd cJSON option \<Rightarrow> bool" where
  "has_kind k item = (case item of None \<Rightarrow> False | Some i \<Rightarrow> kind_of i = k)"

definition cJSON_IsInvalid :: "'d cJSON option \<Rightarrow> bool" where "cJSON_IsInvalid = has_kind cJSON_Invalid"
definition cJSON_IsFalse :: "'d cJSON option \<Rightarrow> bool" where "cJSON_IsFalse = has_kind cJSON_False"
definition cJSON_IsTrue :: "'d cJSON option \<Rightarrow> bool" where "cJSON_IsTrue = has_kind cJSON_True"
definition cJSON_IsNull :: "'d cJSON option \<Rightarrow> bool" where "cJSON_IsNull = has_kind cJSON_NULL"
definition cJSON_IsNumber :: "'d cJSON option \<Rightarrow> bool" where "cJSON_IsNumber = has_kind cJSON_Number"
definition cJSON_IsString :: "'d cJSON option \<Rightarrow> bool" where "cJSON_IsString = has_kind cJSON_String"
definition cJSON_IsArray :: "'d cJSON option \<Rightarrow> bool" where "cJSON_IsArray = has_kind cJSON_Array"
definition cJSON_IsObject :: "'d cJSON option \<Rightarrow> bool" where "cJSON_IsObject = has_kind cJSON_Object"
definition cJSON_IsRaw :: "'d cJSON option \<Rightarrow> bool" where "cJSON_IsRaw = has_kind cJSON_Raw"

definition cJSON_IsBool :: "'d cJSON option \<Rightarrow> bool" where
  "cJSON_IsBool item = (case item of None \<Rightarrow> False | Some i \<Rightarrow> type_of i AND (cJSON_True OR cJSON_False) \<noteq> 0)"

text \<open>The size is converted from \<open>size_t\<close> to a 32-bit \<open>int\<close>.\<close>

definition cJSON_GetArraySize :: "'d cJSON option \<Rightarrow> int" where
  "cJSON_GetArraySize array = (case array of None \<Rightarrow> 0 | Some a \<Rightarrow> sint (of_nat (length (child a)) :: 32 word))"

fun item_at :: "'d cJSON list \<Rightarrow> nat \<Rightarrow> 'd cJSON option" where
  "item_at [] _ = None"
| "item_at (c # cs) 0 = Some c"
| "item_at (c # cs) (Suc i) = item_at cs i"

definition get_array_item :: "'d cJSON option \<Rightarrow> nat \<Rightarrow> 'd cJSON option" where
  "get_array_item array index = (case array of None \<Rightarrow> None | Some a \<Rightarrow> item_at (child a) index)"

definition cJSON_GetArrayItem :: "'d cJSON option \<Rightarrow> int \<Rightarrow> 'd cJSON option" where
  "cJSON_GetArrayItem array index = (if index < 0 then None else get_array_item array (nat index))"

text \<open>\<open>strcmp\<close> on a member without a name reads through NULL; the other comparison checks for it.\<close>

fun find_member :: "string \<Rightarrow> bool \<Rightarrow> 'd cJSON list \<Rightarrow> 'd cJSON option option" where
  "find_member name case_sensitive [] = Some None"
| "find_member name case_sensitive (c # cs) =
     (if case_sensitive
      then (case name_of c of
              None \<Rightarrow> None
            | Some n \<Rightarrow> if n = name then Some (Some c) else find_member name case_sensitive cs)
      else if case_insensitive_strcmp (Some name) (name_of c) = 0 then Some (Some c)
      else find_member name case_sensitive cs)"

definition get_object_item :: "'d cJSON option \<Rightarrow> string option \<Rightarrow> bool \<Rightarrow> 'd cJSON option option" where
  "get_object_item object name case_sensitive =
     (case (object, name) of
        (Some ob, Some n) \<Rightarrow> find_member n case_sensitive (child ob)
      | _ \<Rightarrow> Some None)"

definition cJSON_GetObjectItem :: "'d cJSON option \<Rightarrow> string option \<Rightarrow> 'd cJSON option option" where
  "cJSON_GetObjectItem object string = get_object_item object string False"

definition cJSON_GetObjectItemCaseSensitive :: "'d cJSON option \<Rightarrow> string option \<Rightarrow> 'd cJSON option option" where
  "cJSON_GetObjectItemCaseSensitive object string = get_object_item object string True"

definition cJSON_HasObjectItem :: "'d cJSON option \<Rightarrow> string option \<Rightarrow> bool option" where
  "cJSON_HasObjectItem object string = map_option (\<lambda>r. r \<noteq> None) (cJSON_GetObjectItem object string)"

section \<open>Comparison\<close>

lemma find_member_in: "find_member n b cs = Some (Some c) \<Longrightarrow> c \<in> set cs"
  by (induction cs) (auto split: if_splits option.splits)

lemma size_child [termination_simp]: "c \<in> set (child item) \<Longrightarrow> size c < size item"
  by (cases item) (auto dest: size_list_estimation' [where f = size, OF _ order_refl])

lemma size_children: "size_list size (child item) < size item"
  by (cases item) auto

lemma get_object_item_size: "get_object_item (Some b) n cs = Some (Some y) \<Longrightarrow> size y < size b"
  by (auto simp: get_object_item_def split: option.splits dest!: find_member_in size_child)

definition valid_kind :: "u32 \<Rightarrow> bool" where
  "valid_kind k \<longleftrightarrow> k \<in> set [cJSON_False, cJSON_True, cJSON_NULL, cJSON_Number, cJSON_String, cJSON_Raw, cJSON_Array, cJSON_Object]"

text \<open>
  \<open>same\<close> tells whether the two arguments are one item (the pointers are equal); the items are not
  shared otherwise. The loops over arrays and over the members of an object are functions of their own.
\<close>

function cJSON_Compare :: "'d fp \<Rightarrow> bool \<Rightarrow> bool \<Rightarrow> 'd cJSON \<Rightarrow> 'd cJSON \<Rightarrow> bool option"
  and compare_elements :: "'d fp \<Rightarrow> bool \<Rightarrow> 'd cJSON list \<Rightarrow> 'd cJSON list \<Rightarrow> bool option"
  and compare_members :: "'d fp \<Rightarrow> bool \<Rightarrow> 'd cJSON list \<Rightarrow> 'd cJSON \<Rightarrow> bool option" where
  "cJSON_Compare fp same case_sensitive a b =
     (if kind_of a \<noteq> kind_of b \<or> cJSON_IsInvalid (Some a) then Some False
      else if \<not> valid_kind (kind_of a) then Some False
      else if same then Some True
      else if kind_of a \<in> {cJSON_False, cJSON_True, cJSON_NULL} then Some True
      else if kind_of a = cJSON_Number then Some (fp_eq fp (valuedouble a) (valuedouble b))
      else if kind_of a \<in> {cJSON_String, cJSON_Raw} then
        Some (case (valuestring a, valuestring b) of (Some s, Some t) \<Rightarrow> s = t | _ \<Rightarrow> False)
      else if kind_of a = cJSON_Array then compare_elements fp case_sensitive (child a) (child b)
      else do {
        r \<leftarrow> compare_members fp case_sensitive (child a) b;
        (if r then compare_members fp case_sensitive (child b) a else Some False)
      })"
| "compare_elements fp case_sensitive [] [] = Some True"
| "compare_elements fp case_sensitive (x # xs) [] = Some False"
| "compare_elements fp case_sensitive [] (y # ys) = Some False"
| "compare_elements fp case_sensitive (x # xs) (y # ys) = do {
     r \<leftarrow> cJSON_Compare fp False case_sensitive x y;
     (if r then compare_elements fp case_sensitive xs ys else Some False)
   }"
| "compare_members fp case_sensitive [] b = Some True"
| "compare_members fp case_sensitive (x # xs) b =
     (case get_object_item (Some b) (name_of x) case_sensitive of
        None \<Rightarrow> None
      | Some None \<Rightarrow> Some False
      | Some (Some y) \<Rightarrow> do {
          r \<leftarrow> cJSON_Compare fp False case_sensitive x y;
          (if r then compare_members fp case_sensitive xs b else Some False)
        })"
  by pat_completeness auto
termination
  by (relation "measure (\<lambda>x. case x of
      Inl (fp, same, cs, a, b) \<Rightarrow> size a + size b
    | Inr (Inl (fp, cs, xs, ys)) \<Rightarrow> size_list size xs + size_list size ys
    | Inr (Inr (fp, cs, xs, b)) \<Rightarrow> size_list size xs + size b)")
    (auto simp: add_less_mono size_children add.commute dest: get_object_item_size)

declare cJSON_Compare.simps [simp del]

section \<open>Duplication\<close>

fun cJSON_Duplicate :: "'d fp \<Rightarrow> bool \<Rightarrow> 'd cJSON \<Rightarrow> mem \<Rightarrow> 'd cJSON option \<times> mem"
  and duplicate_children :: "'d fp \<Rightarrow> 'd cJSON list \<Rightarrow> mem \<Rightarrow> 'd cJSON list option \<times> mem" where
  "cJSON_Duplicate fp recurse (CJSON t vs vi vd nm cs) m =
     (case cJSON_New_Item fp m of
        (None, m) \<Rightarrow> (None, m)
      | (Some new, m) \<Rightarrow>
     (case cJSON_strdup vs m of (vs', m) \<Rightarrow>
        if vs \<noteq> None \<and> vs' = None then (None, m)
        else
     (case (if t AND cJSON_StringIsConst \<noteq> 0 then (nm, m) else cJSON_strdup nm m) of (nm', m) \<Rightarrow>
        if nm \<noteq> None \<and> nm' = None then (None, m)
        else if \<not> recurse then (Some (CJSON (t AND NOT cJSON_IsReference) vs' vi vd nm' []), m)
        else
     (case duplicate_children fp cs m of
        (None, m) \<Rightarrow> (None, m)
      | (Some cs', m) \<Rightarrow> (Some (CJSON (t AND NOT cJSON_IsReference) vs' vi vd nm' cs'), m)))))"
| "duplicate_children fp [] m = (Some [], m)"
| "duplicate_children fp (c # cs) m =
     (case cJSON_Duplicate fp True c m of
        (None, m) \<Rightarrow> (None, m)
      | (Some c', m) \<Rightarrow>
          (case duplicate_children fp cs m of
             (None, m) \<Rightarrow> (None, m)
           | (Some cs', m) \<Rightarrow> (Some (c' # cs'), m)))"

section \<open>What items denote\<close>

text \<open>
  A JSON value: numbers up to the equality of the machine, objects as finite maps. Keys are compared as
  they are or up to letter case.
\<close>

datatype 'n jval = JFalse | JTrue | JNull | JNum 'n | JStr string | JRaw string
  | JArr "'n jval list" | JObj "string \<Rightarrow> 'n jval option"

definition json_key :: "bool \<Rightarrow> string \<Rightarrow> string" where
  "json_key case_sensitive n = (if case_sensitive then n else map tolower n)"

fun value_of :: "('d \<Rightarrow> 'n) \<Rightarrow> bool \<Rightarrow> 'd cJSON \<Rightarrow> 'n jval" where
  "value_of num cs item =
     (if kind_of item = cJSON_False then JFalse
      else if kind_of item = cJSON_True then JTrue
      else if kind_of item = cJSON_NULL then JNull
      else if kind_of item = cJSON_Number then JNum (num (valuedouble item))
      else if kind_of item = cJSON_String then JStr (the (valuestring item))
      else if kind_of item = cJSON_Raw then JRaw (the (valuestring item))
      else if kind_of item = cJSON_Array then JArr (map (value_of num cs) (child item))
      else JObj (map_of (map (\<lambda>c. (json_key cs (the (name_of c)), value_of num cs c)) (child item))))"

declare value_of.simps [simp del]

text \<open>
  An item that denotes a value: a known kind; a number that equals itself (not NaN); a string or raw
  item with a string; an object whose members have distinct names.
\<close>

definition named :: "'d cJSON \<Rightarrow> bool" where
  "named c \<longleftrightarrow> name_of c \<noteq> None \<and> CHR 0x00 \<notin> set (the (name_of c))"

fun denotes :: "('d \<Rightarrow> bool) \<Rightarrow> bool \<Rightarrow> 'd cJSON \<Rightarrow> bool" where
  "denotes ok_num cs item \<longleftrightarrow> valid_kind (kind_of item)
     \<and> (kind_of item = cJSON_Number \<longrightarrow> ok_num (valuedouble item))
     \<and> (kind_of item \<in> {cJSON_String, cJSON_Raw} \<longrightarrow> valuestring item \<noteq> None)
     \<and> (kind_of item \<in> {cJSON_Array, cJSON_Object} \<longrightarrow> (\<forall>c \<in> set (child item). denotes ok_num cs c))
     \<and> (kind_of item = cJSON_Object \<longrightarrow> (\<forall>c \<in> set (child item). named c)
          \<and> distinct (map (\<lambda>c. json_key cs (the (name_of c))) (child item)))"

declare denotes.simps [simp del]

lemma denotesD:
  assumes "denotes ok_num cs item"
  shows "valid_kind (kind_of item)" "kind_of item = cJSON_Number \<Longrightarrow> ok_num (valuedouble item)"
    "kind_of item = cJSON_String \<or> kind_of item = cJSON_Raw \<Longrightarrow> \<exists>s. valuestring item = Some s"
    "kind_of item = cJSON_Array \<or> kind_of item = cJSON_Object \<Longrightarrow> \<forall>c \<in> set (child item). denotes ok_num cs c"
    "kind_of item = cJSON_Object \<Longrightarrow> \<forall>c \<in> set (child item). named c"
    "kind_of item = cJSON_Object \<Longrightarrow> distinct (map (\<lambda>c. json_key cs (the (name_of c))) (child item))"
  using assms by (subst (asm) denotes.simps, auto)+

lemma of_char_zero: "of_char c = (0::int) \<longleftrightarrow> c = CHR 0x00"
proof -
  have "of_char c = (0::int) \<longleftrightarrow> of_char c = (of_char (CHR 0x00) :: int)" by simp
  then show ?thesis by (simp only: of_char_eq_iff)
qed

lemma tolower_NUL: "tolower c = CHR 0x00 \<longleftrightarrow> c = CHR 0x00"
proof -
  have "char_of (of_char c + 32 :: nat) \<noteq> CHR 0x00" if "(of_char c :: nat) \<le> 90"
  proof
    assume "char_of (of_char c + 32 :: nat) = CHR 0x00"
    then have "of_char (char_of (of_char c + 32 :: nat)) = (0::nat)" by simp
    with that show False by simp
  qed
  then show ?thesis by (auto simp: tolower_def)
qed

lemma case_cmp_loop_eq:
  "CHR 0x00 \<notin> set s \<Longrightarrow> CHR 0x00 \<notin> set t \<Longrightarrow> case_cmp_loop s t = 0 \<longleftrightarrow> map tolower s = map tolower t"
proof (induction s t rule: case_cmp_loop.induct)
  case (2 c s)
  then show ?case using of_char_zero [of "tolower c"] tolower_NUL [of c] by auto
next
  case (3 d t)
  then show ?case using of_char_zero [of "tolower d"] tolower_NUL [of d] by auto
next
  case (4 c s d t)
  then show ?case by simp
qed simp

lemma find_member_find:
  assumes "\<forall>c \<in> set xs. named c" and "CHR 0x00 \<notin> set n"
  shows "find_member n cs xs = Some (find (\<lambda>c. json_key cs (the (name_of c)) = json_key cs n) xs)"
  using assms
proof (induction xs)
  case (Cons c xs)
  then obtain m where m: "name_of c = Some m" "CHR 0x00 \<notin> set m" by (auto simp: named_def)
  then show ?case
    using Cons by (auto simp: json_key_def case_insensitive_strcmp_def case_cmp_loop_eq)
qed simp

lemma map_of_find:
  "map_of (map (\<lambda>c. (f c, g c)) xs) k = map_option g (find (\<lambda>c. f c = k) xs)"
  by (induction xs) auto

text \<open>Looking a member up is the map that the object denotes.\<close>

definition members_of :: "('d \<Rightarrow> 'n) \<Rightarrow> bool \<Rightarrow> 'd cJSON list \<Rightarrow> string \<Rightarrow> 'n jval option" where
  "members_of num cs xs = map_of (map (\<lambda>c. (json_key cs (the (name_of c)), value_of num cs c)) xs)"

lemma members_of_self:
  assumes "distinct (map (\<lambda>c. json_key cs (the (name_of c))) xs)" "c \<in> set xs"
  shows "members_of num cs xs (json_key cs (the (name_of c))) = Some (value_of num cs c)"
  using assms unfolding members_of_def by (intro map_of_is_SomeI) (auto simp: comp_def)

lemma members_of_eq:
  assumes "distinct (map (\<lambda>c. json_key cs (the (name_of c))) xs)" "distinct (map (\<lambda>c. json_key cs (the (name_of c))) ys)"
  shows "members_of num cs xs = members_of num cs ys \<longleftrightarrow>
    (\<forall>x \<in> set xs. members_of num cs ys (json_key cs (the (name_of x))) = Some (value_of num cs x))
    \<and> (\<forall>y \<in> set ys. members_of num cs xs (json_key cs (the (name_of y))) = Some (value_of num cs y))"
    (is "?l \<longleftrightarrow> ?r1 \<and> ?r2")
proof
  assume ?l
  then show "?r1 \<and> ?r2" using members_of_self assms by metis
next
  assume r: "?r1 \<and> ?r2"
  have le: "members_of num cs us \<subseteq>\<^sub>m members_of num cs vs"
    if "\<forall>x \<in> set us. members_of num cs vs (json_key cs (the (name_of x))) = Some (value_of num cs x)" for us vs
    unfolding map_le_def
  proof
    fix k
    assume "k \<in> dom (members_of num cs us)"
    then obtain y where y: "members_of num cs us k = Some y" by auto
    then have "(k, y) \<in> set (map (\<lambda>c. (json_key cs (the (name_of c)), value_of num cs c)) us)"
      unfolding members_of_def by (rule map_of_SomeD)
    with that y show "members_of num cs us k = members_of num cs vs k" by auto
  qed
  show ?l using map_le_antisym [OF le le] r by blast
qed

lemma kinds_distinct:
  "cJSON_Number \<notin> {cJSON_False, cJSON_True, cJSON_NULL}" "cJSON_String \<notin> {cJSON_False, cJSON_True, cJSON_NULL, cJSON_Number}"
  "cJSON_Raw \<notin> {cJSON_False, cJSON_True, cJSON_NULL, cJSON_Number, cJSON_String}"
  "cJSON_Array \<notin> {cJSON_False, cJSON_True, cJSON_NULL, cJSON_Number, cJSON_String, cJSON_Raw}"
  "cJSON_Object \<notin> {cJSON_False, cJSON_True, cJSON_NULL, cJSON_Number, cJSON_String, cJSON_Raw, cJSON_Array}"
  "cJSON_False \<noteq> cJSON_True" "cJSON_False \<noteq> cJSON_NULL" "cJSON_True \<noteq> cJSON_NULL"
  "\<not> valid_kind cJSON_Invalid" "cJSON_Array \<noteq> cJSON_Invalid" "cJSON_Object \<noteq> cJSON_Invalid"
  by (simp_all add: cjson_types valid_kind_def)

lemma valid_kind_cases:
  assumes "valid_kind k"
  obtains "k = cJSON_False" | "k = cJSON_True" | "k = cJSON_NULL" | "k = cJSON_Number" | "k = cJSON_String"
    | "k = cJSON_Raw" | "k = cJSON_Array" | "k = cJSON_Object"
  using assms by (auto simp: valid_kind_def)

lemma value_of_kind:
  "kind_of item = cJSON_False \<Longrightarrow> value_of num cs item = JFalse"
  "kind_of item = cJSON_True \<Longrightarrow> value_of num cs item = JTrue"
  "kind_of item = cJSON_NULL \<Longrightarrow> value_of num cs item = JNull"
  "kind_of item = cJSON_Number \<Longrightarrow> value_of num cs item = JNum (num (valuedouble item))"
  "kind_of item = cJSON_String \<Longrightarrow> value_of num cs item = JStr (the (valuestring item))"
  "kind_of item = cJSON_Raw \<Longrightarrow> value_of num cs item = JRaw (the (valuestring item))"
  "kind_of item = cJSON_Array \<Longrightarrow> value_of num cs item = JArr (map (value_of num cs) (child item))"
  "kind_of item = cJSON_Object \<Longrightarrow> value_of num cs item = JObj (members_of num cs (child item))"
  using kinds_distinct by (simp_all add: value_of.simps members_of_def)

lemma value_of_kind_eq:
  assumes "valid_kind (kind_of a)" "valid_kind (kind_of b)" "value_of num cs a = value_of num cs b"
  shows "kind_of a = kind_of b"
  by (rule valid_kind_cases [OF assms(1)]; rule valid_kind_cases [OF assms(2)])
    (use assms(3) in \<open>simp_all add: value_of_kind\<close>)

lemma Compare_kind:
  assumes "kind_of b = kind_of a"
  shows "kind_of a \<in> {cJSON_False, cJSON_True, cJSON_NULL} \<Longrightarrow> cJSON_Compare fp False cs a b = Some True"
    "kind_of a = cJSON_Number \<Longrightarrow> cJSON_Compare fp False cs a b = Some (fp_eq fp (valuedouble a) (valuedouble b))"
    "kind_of a \<in> {cJSON_String, cJSON_Raw} \<Longrightarrow> cJSON_Compare fp False cs a b
      = Some (case (valuestring a, valuestring b) of (Some s, Some t) \<Rightarrow> s = t | _ \<Rightarrow> False)"
    "kind_of a = cJSON_Array \<Longrightarrow> cJSON_Compare fp False cs a b = compare_elements fp cs (child a) (child b)"
    "kind_of a = cJSON_Object \<Longrightarrow> cJSON_Compare fp False cs a b = do {
        r \<leftarrow> compare_members fp cs (child a) b;
        (if r then compare_members fp cs (child b) a else Some False) }"
  using assms
  by (subst cJSON_Compare.simps, auto simp: cJSON_IsInvalid_def has_kind_def valid_kind_def cjson_types)+

lemma Compare_other_kind: "kind_of a \<noteq> kind_of b \<Longrightarrow> cJSON_Compare fp same cs a b = Some False"
  by (subst cJSON_Compare.simps) simp

lemma Compare_correct:
  assumes "\<And>x y. ok_num x \<Longrightarrow> ok_num y \<Longrightarrow> fp_eq fp x y \<longleftrightarrow> num x = num y"
  shows "\<not> same \<Longrightarrow> denotes ok_num cs a \<Longrightarrow> denotes ok_num cs b \<Longrightarrow>
      cJSON_Compare fp same cs a b = Some (value_of num cs a = value_of num cs b)"
    and "\<forall>x \<in> set xs. denotes ok_num cs x \<Longrightarrow> \<forall>x \<in> set ys. denotes ok_num cs x \<Longrightarrow>
      compare_elements fp cs xs ys = Some (map (value_of num cs) xs = map (value_of num cs) ys)"
    and "\<forall>x \<in> set xs. denotes ok_num cs x \<and> named x \<Longrightarrow> denotes ok_num cs ob \<Longrightarrow> kind_of ob = cJSON_Object \<Longrightarrow>
      compare_members fp cs xs ob = Some (\<forall>x \<in> set xs.
        members_of num cs (child ob) (json_key cs (the (name_of x))) = Some (value_of num cs x))"
  using assms
proof (induction fp same cs a b and fp cs xs ys and fp cs xs ob
    rule: cJSON_Compare_compare_elements_compare_members.induct)
  case (1 fp same cs a b)
  show ?case
  proof (cases "kind_of b = kind_of a")
    case False
    then show ?thesis
      using value_of_kind_eq [of a b num cs] denotesD(1) [OF 1(5)] denotesD(1) [OF 1(6)] by (auto simp: Compare_other_kind)
  next
    case True
    note a = denotesD [OF 1(5)] and b = denotesD [OF 1(6)]
    note kinds = Compare_kind [OF True, of fp cs]
    have same: "same = False" using 1(4) by simp
    from a(1) show ?thesis
    proof (cases rule: valid_kind_cases)
      case 4
      then show ?thesis using a(2) b(2) 1(7) True unfolding same by (simp add: kinds value_of_kind)
    next
      case 5
      then show ?thesis using a(3) b(3) True unfolding same by (auto simp: kinds value_of_kind)
    next
      case 6
      then show ?thesis using a(3) b(3) True unfolding same by (auto simp: kinds value_of_kind)
    next
      case 7
      then have "compare_elements fp cs (child a) (child b)
          = Some (map (value_of num cs) (child a) = map (value_of num cs) (child b))"
        using 1(1) a(1,4) b(4) True 1(4,7) kinds_distinct by (auto simp: cJSON_IsInvalid_def has_kind_def)
      then show ?thesis using 7 True unfolding same by (simp add: kinds value_of_kind)
    next
      case 8
      let ?R = "\<lambda>a b. \<forall>x \<in> set (child a). members_of num cs (child b) (json_key cs (the (name_of x))) = Some (value_of num cs x)"
      note ind = 8 a(1,4,5) b(4,5) True 1(4-7) kinds_distinct
      have ab: "compare_members fp cs (child a) b = Some (?R a b)"
        using 1(2) ind by (auto simp: cJSON_IsInvalid_def has_kind_def)
      have ba: "compare_members fp cs (child b) a = Some (?R b a)" if "?R a b"
        using 1(3) [OF _ _ _ _ _ _ _ ab] that ind by (auto simp: cJSON_IsInvalid_def has_kind_def)
      show ?thesis
      proof (cases "?R a b")
        case True
        with ab ba show ?thesis
          using 8 \<open>kind_of b = kind_of a\<close> members_of_eq [OF a(6) b(6), of num] unfolding same by (simp add: kinds value_of_kind)
      next
        case False
        with ab show ?thesis
          using 8 \<open>kind_of b = kind_of a\<close> members_of_eq [OF a(6) b(6), of num] unfolding same by (auto simp: kinds value_of_kind)
      qed
    qed (use True same in \<open>simp_all add: kinds value_of_kind\<close>)
  qed
next
  case (7 fp cs x xs ob)
  obtain n where n: "name_of x = Some n" "CHR 0x00 \<notin> set n" using 7(3) by (auto simp: named_def)
  note ob = denotesD [OF 7(4)]
  let ?f = "find (\<lambda>c. json_key cs (the (name_of c)) = json_key cs n) (child ob)"
  have get: "get_object_item (Some ob) (name_of x) cs = Some ?f"
    using find_member_find [OF ob(5) n(2)] 7(5) n by (simp add: get_object_item_def)
  have mem: "members_of num cs (child ob) (json_key cs n) = map_option (value_of num cs) ?f"
    by (simp add: members_of_def map_of_find)
  show ?case
  proof (cases ?f)
    case None
    then show ?thesis using get mem n by simp
  next
    case (Some y)
    then have "y \<in> set (child ob)" by (auto simp: find_Some_iff)
    then have "denotes ok_num cs y" using ob(4) 7(5) by blast
    then have "cJSON_Compare fp False cs x y = Some (value_of num cs x = value_of num cs y)"
      using 7(1) [of "Some y" y] get Some 7(3,6) by auto
    moreover have "compare_members fp cs xs ob = Some (\<forall>x \<in> set xs.
        members_of num cs (child ob) (json_key cs (the (name_of x))) = Some (value_of num cs x))"
      if "value_of num cs x = value_of num cs y"
      using 7(2) [of "Some y" y True] get Some 7(3-6) that calculation by auto
    ultimately show ?thesis using get mem n Some by auto
  qed
qed auto

text \<open>
  C27: \<open>cJSON_Compare\<close> decides equality of the denoted values, for two items that denote one (no NaN,
  no NULL string, distinct member names): objects as finite maps, whatever the order of their members,
  arrays element by element, with names compared as they are or up to letter case. It never reads
  through NULL on such items.
\<close>

theorem cjson_compare_correct:
  assumes "\<And>x y. ok_num x \<Longrightarrow> ok_num y \<Longrightarrow> fp_eq fp x y \<longleftrightarrow> num x = num y"
    and "denotes ok_num cs a" and "denotes ok_num cs b"
  shows "cJSON_Compare fp False cs a b = Some (value_of num cs a = value_of num cs b)"
  using Compare_correct(1) [OF assms(1)] assms(2,3) by blast

section \<open>A duplicate is the item without references\<close>

fun unref :: "'d cJSON \<Rightarrow> 'd cJSON" where
  "unref (CJSON t vs vi vd nm cs) = CJSON (t AND NOT cJSON_IsReference) vs vi vd nm (map unref cs)"

lemma strdup_cases: "cJSON_strdup s m = (s', m') \<Longrightarrow> s' = None \<or> s' = s"
  by (cases s) (auto split: prod.splits if_splits)

lemma strdup_all_ok: "all_ok m \<Longrightarrow> \<exists>m'. cJSON_strdup s m = (s, m') \<and> all_ok m'"
  by (cases s) (auto dest: malloc_all_ok)

lemma New_Item_all_ok: "all_ok m \<Longrightarrow> \<exists>m'. cJSON_New_Item fp m = (Some (zero_item fp), m') \<and> all_ok m'"
  by (auto simp: cJSON_New_Item_def dest: malloc_all_ok)

lemma Duplicate_step_cases:
  assumes "\<And>m. fst (duplicate_children fp cs m) = None \<or> fst (duplicate_children fp cs m) = Some cs'"
  shows "fst (cJSON_Duplicate fp True (CJSON t vs vi vd nm cs) m) = None
    \<or> fst (cJSON_Duplicate fp True (CJSON t vs vi vd nm cs) m) = Some (CJSON (t AND NOT cJSON_IsReference) vs vi vd nm cs')"
proof -
  obtain i m1 where i: "cJSON_New_Item fp m = (i, m1)" by (rule prod.exhaust)
  obtain vs' m2 where vs': "cJSON_strdup vs m1 = (vs', m2)" by (rule prod.exhaust)
  obtain nm' m3 where nm': "(if t AND cJSON_StringIsConst \<noteq> 0 then (nm, m2) else cJSON_strdup nm m2) = (nm', m3)"
    by (rule prod.exhaust)
  have "nm' = None \<or> nm' = nm" using nm' strdup_cases [of nm m2 nm' m3] by (auto split: if_splits)
  then show ?thesis
    using assms [of m3] strdup_cases [OF vs']
    unfolding cJSON_Duplicate.simps i vs' prod.case nm' by (auto split: option.splits prod.splits)
qed

lemma Duplicate_cases:
  "fst (cJSON_Duplicate fp True item m) = None \<or> fst (cJSON_Duplicate fp True item m) = Some (unref item)"
proof (induction item arbitrary: m)
  case (CJSON t vs vi vd nm cs)
  then have "fst (duplicate_children fp cs m) = None \<or> fst (duplicate_children fp cs m) = Some (map unref cs)" for m
  proof (induction cs arbitrary: m)
    case (Cons c cs)
    obtain r1 m1 where 1: "cJSON_Duplicate fp True c m = (r1, m1)" by (rule prod.exhaust)
    obtain r2 m2 where 2: "duplicate_children fp cs m1 = (r2, m2)" by (rule prod.exhaust)
    from Cons(1) [of m1] Cons(2) 2 have "r2 = None \<or> r2 = Some (map unref cs)" by simp
    moreover from Cons(2) [of c m] 1 have "r1 = None \<or> r1 = Some (unref c)" by simp
    ultimately show ?case using 1 2 by (auto split: option.splits)
  qed simp
  from Duplicate_step_cases [OF this] show ?case by simp
qed

lemma Duplicate_all_ok:
  "all_ok m \<Longrightarrow> \<exists>m'. cJSON_Duplicate fp True item m = (Some (unref item), m') \<and> all_ok m'"
proof (induction item arbitrary: m)
  case (CJSON t vs vi vd nm cs)
  obtain m1 where m1: "cJSON_New_Item fp m = (Some (zero_item fp), m1)" "all_ok m1" using New_Item_all_ok [OF CJSON(2)] by blast
  obtain m2 where m2: "cJSON_strdup vs m1 = (vs, m2)" "all_ok m2" using strdup_all_ok [OF m1(2)] by blast
  obtain m3 where m3: "(if t AND cJSON_StringIsConst \<noteq> 0 then (nm, m2) else cJSON_strdup nm m2) = (nm, m3)" "all_ok m3"
    using strdup_all_ok [OF m2(2)] m2(2) by (metis (full_types))
  have "\<exists>m'. duplicate_children fp cs m = (Some (map unref cs), m') \<and> all_ok m'" if "all_ok m" for m
    using CJSON(1) that
  proof (induction cs arbitrary: m)
    case (Cons c cs)
    then obtain m1 where m1: "cJSON_Duplicate fp True c m = (Some (unref c), m1)" "all_ok m1" by fastforce
    with Cons obtain m2 where "duplicate_children fp cs m1 = (Some (map unref cs), m2)" "all_ok m2" by fastforce
    with m1 show ?case by simp
  qed simp
  from this [OF m3(2)] obtain m4 where "duplicate_children fp cs m3 = (Some (map unref cs), m4)" "all_ok m4" by blast
  then show ?case
    unfolding cJSON_Duplicate.simps m1(1) prod.case option.case m2(1) m3(1) by auto
qed

text \<open>Without \<open>recurse\<close> the copy has no children.\<close>

fun copied :: "bool \<Rightarrow> 'd cJSON \<Rightarrow> 'd cJSON" where
  "copied recurse (CJSON t vs vi vd nm cs) = CJSON (t AND NOT cJSON_IsReference) vs vi vd nm (if recurse then map unref cs else [])"

lemma copied_unref: "copied True item = unref item"
  by (cases item) simp

lemma Duplicate_flat_cases:
  "fst (cJSON_Duplicate fp False item m) = None \<or> fst (cJSON_Duplicate fp False item m) = Some (copied False item)"
proof (cases item)
  case (CJSON t vs vi vd nm cs)
  obtain i m1 where i: "cJSON_New_Item fp m = (i, m1)" by (rule prod.exhaust)
  obtain vs' m2 where vs': "cJSON_strdup vs m1 = (vs', m2)" by (rule prod.exhaust)
  obtain nm' m3 where nm': "(if t AND cJSON_StringIsConst \<noteq> 0 then (nm, m2) else cJSON_strdup nm m2) = (nm', m3)"
    by (rule prod.exhaust)
  have "nm' = None \<or> nm' = nm" using nm' strdup_cases [of nm m2 nm' m3] by (auto split: if_splits)
  then show ?thesis using strdup_cases [OF vs']
    unfolding CJSON cJSON_Duplicate.simps i vs' prod.case nm' by (auto split: option.splits)
qed

lemma Duplicate_flat_all_ok:
  assumes "all_ok m"
  shows "fst (cJSON_Duplicate fp False item m) = Some (copied False item)"
proof (cases item)
  case (CJSON t vs vi vd nm cs)
  obtain m1 where m1: "cJSON_New_Item fp m = (Some (zero_item fp), m1)" "all_ok m1"
    using malloc_all_ok [OF assms] by (auto simp: cJSON_New_Item_def)
  obtain m2 where m2: "cJSON_strdup vs m1 = (vs, m2)" "all_ok m2" using strdup_all_ok [OF m1(2)] by blast
  obtain m3 where m3: "(if t AND cJSON_StringIsConst \<noteq> 0 then (nm, m2) else cJSON_strdup nm m2) = (nm, m3)"
    using strdup_all_ok [OF m2(2)] m2(2) by (cases "t AND cJSON_StringIsConst \<noteq> 0") auto
  show ?thesis unfolding CJSON cJSON_Duplicate.simps m1(1) m2(1) prod.case option.case m3 by auto
qed

text \<open>
  C28: \<open>cJSON_Duplicate\<close> returns NULL or a complete copy, never a partial one: with \<open>recurse\<close> the whole tree with
  the reference flags cleared, without it the item alone, without its children; and it returns the copy when
  every allocation succeeds.
\<close>

theorem cjson_duplicate_correct:
  "(fst (cJSON_Duplicate fp recurse item m) = None \<or> fst (cJSON_Duplicate fp recurse item m) = Some (copied recurse item))
   \<and> (all_ok m \<longrightarrow> fst (cJSON_Duplicate fp recurse item m) = Some (copied recurse item))"
  using Duplicate_cases [of fp item m] Duplicate_all_ok [of m fp item] Duplicate_flat_cases [of fp item m] Duplicate_flat_all_ok [of m fp item]
  by (cases recurse) (auto simp: copied_unref)

section \<open>The array constructors\<close>

lemma create_elements_ok:
  assumes "\<And>x m. x \<in> set xs \<Longrightarrow> all_ok m \<Longrightarrow> \<exists>m'. new x m = (Some (f x), m') \<and> all_ok m'"
  shows "all_ok m \<Longrightarrow> i + k \<le> length xs \<Longrightarrow>
    \<exists>m'. create_elements new xs i k es m = Some (Some (es @ map f (take k (drop i xs))), m') \<and> all_ok m'"
proof (induction k arbitrary: i es m)
  case (Suc k)
  obtain m1 where m1: "new (xs ! i) m = (Some (f (xs ! i)), m1)" "all_ok m1" using assms [of "xs ! i" m] Suc(2,3) by auto
  have "take (Suc k) (drop i xs) = xs ! i # take k (drop (Suc i) xs)"
    using Suc(3) by (simp add: Cons_nth_drop_Suc [symmetric])
  then show ?case using Suc(1) [OF m1(2), of "Suc i" "es @ [f (xs ! i)]"] Suc(3) m1 by simp
qed auto

lemma create_array_of_ok:
  assumes "\<And>x m. x \<in> set xs \<Longrightarrow> all_ok m \<Longrightarrow> \<exists>m'. new x m = (Some (f x), m') \<and> all_ok m'"
    and "all_ok m" and "0 \<le> count" and "nat count \<le> length xs"
  shows "\<exists>m'. create_array_of fp new (Some xs) count m
    = Some (Some (CJSON cJSON_Array None 0 (fp_zero fp) None (map f (take (nat count) xs))), m')"
proof -
  obtain m1 where m1: "cJSON_New_Item fp m = (Some (zero_item fp), m1)" "all_ok m1" using New_Item_all_ok [OF assms(2)] by blast
  obtain m2 where "create_elements new xs 0 (nat count) [] m1 = Some (Some (map f (take (nat count) xs)), m2)"
    using create_elements_ok [of xs new f m1 0 "nat count" "[]"] assms m1(2) by auto
  then show ?thesis using m1 assms(3)
    by (simp add: create_array_of_def cJSON_CreateArray_def with_item_def zero_item_def)
qed

definition number_item :: "'d fp \<Rightarrow> 'd \<Rightarrow> 'd cJSON" where
  "number_item fp d = CJSON cJSON_Number None (saturate fp d) d None []"

definition text_item :: "'d fp \<Rightarrow> u32 \<Rightarrow> string \<Rightarrow> 'd cJSON" where
  "text_item fp t s = CJSON t (Some s) 0 (fp_zero fp) None []"

lemma CreateNumber_ok: "all_ok m \<Longrightarrow> \<exists>m'. cJSON_CreateNumber fp d m = (Some (number_item fp d), m') \<and> all_ok m'"
  by (auto simp: cJSON_CreateNumber_def with_item_def number_item_def zero_item_def dest: New_Item_all_ok [of _ fp])

lemma CreateString_ok:
  assumes "all_ok m"
  shows "\<exists>m'. cJSON_CreateString fp (Some s) m = (Some (text_item fp cJSON_String s), m') \<and> all_ok m'"
proof -
  obtain m1 where m1: "cJSON_New_Item fp m = (Some (zero_item fp), m1)" "all_ok m1" using New_Item_all_ok [OF assms] by blast
  obtain m2 where "cJSON_strdup (Some s) m1 = (Some s, m2)" "all_ok m2" using strdup_all_ok [OF m1(2)] by blast
  with m1 show ?thesis by (simp add: cJSON_CreateString_def create_text_def text_item_def zero_item_def)
qed

text \<open>
  \<open>cJSON_CreateIntArray\<close> with enough memory makes an array of the first \<open>count\<close> numbers in order,
  each with its saturated integer value, and a negative count or a NULL array gives NULL.
\<close>

theorem cjson_create_int_array_correct:
  assumes "all_ok m" and "count \<le> int (length xs)"
  shows "\<exists>m'. cJSON_CreateIntArray fp (Some xs) count m =
      Some (if count < 0 then None
            else Some (CJSON cJSON_Array None 0 (fp_zero fp) None
              (map (\<lambda>i. number_item fp (fp_of_int fp i)) (take (nat count) xs))), m')"
proof (cases "count < 0")
  case True
  then show ?thesis by (simp add: cJSON_CreateIntArray_def create_array_of_def)
next
  case False
  have "nat count \<le> length xs" using assms(2) by linarith
  moreover have "\<exists>m'. cJSON_CreateNumber fp (fp_of_int fp i) m = (Some (number_item fp (fp_of_int fp i)), m') \<and> all_ok m'"
    if "i \<in> set xs" "all_ok m" for i m by (rule CreateNumber_ok [OF that(2)])
  ultimately have "\<exists>m'. create_array_of fp (\<lambda>i. cJSON_CreateNumber fp (fp_of_int fp i)) (Some xs) count m
      = Some (Some (CJSON cJSON_Array None 0 (fp_zero fp) None (map (\<lambda>i. number_item fp (fp_of_int fp i)) (take (nat count) xs))), m')"
    using create_array_of_ok [of xs "\<lambda>i. cJSON_CreateNumber fp (fp_of_int fp i)" "\<lambda>i. number_item fp (fp_of_int fp i)" m count fp]
      assms(1) False by (meson not_less)
  then show ?thesis using False by (simp add: cJSON_CreateIntArray_def)
qed

lemma create_string_array_correct:
  assumes "all_ok m" and "0 \<le> count" and "count \<le> int (length xs)"
  shows "\<exists>m'. cJSON_CreateStringArray fp (Some (map Some xs)) count m =
      Some (Some (CJSON cJSON_Array None 0 (fp_zero fp) None (map (text_item fp cJSON_String) (take (nat count) xs))), m')"
proof -
  have "\<exists>m'. cJSON_CreateString fp x m = (Some (text_item fp cJSON_String (the x)), m') \<and> all_ok m'"
    if "x \<in> set (map Some xs)" "all_ok m" for x m using CreateString_ok that by auto
  moreover have "nat count \<le> length (map Some xs)" using assms(3) by simp
  ultimately show ?thesis
    using create_array_of_ok [of "map Some xs" "cJSON_CreateString fp" "\<lambda>x. text_item fp cJSON_String (the x)" m count fp]
      assms(1,2) by (auto simp: cJSON_CreateStringArray_def take_map comp_def)
qed

section \<open>Access to arrays and objects\<close>

lemma item_at_nth: "item_at cs i = (if i < length cs then Some (cs ! i) else None)"
  by (induction cs i rule: item_at.induct) auto

text \<open>
  access. \<open>cJSON_GetArrayItem\<close> is indexing with NULL out of range, \<open>cJSON_GetArraySize\<close> the length as
  long as it fits an \<open>int\<close>, and on an object whose members have names the two lookups return the first
  member with that name, as it is or up to letter case.
\<close>

theorem cjson_access_correct:
  assumes "\<forall>c \<in> set (child a). named c" "CHR 0x00 \<notin> set n"
  shows "cJSON_GetArrayItem (Some a) i = (if 0 \<le> i \<and> i < int (length (child a)) then Some (child a ! nat i) else None)
    \<and> (length (child a) < 2 ^ 31 \<longrightarrow> cJSON_GetArraySize (Some a) = int (length (child a)))
    \<and> cJSON_GetObjectItem (Some a) (Some n) = Some (find (\<lambda>c. map tolower (the (name_of c)) = map tolower n) (child a))
    \<and> cJSON_GetObjectItemCaseSensitive (Some a) (Some n) = Some (find (\<lambda>c. the (name_of c) = n) (child a))
    \<and> cJSON_HasObjectItem (Some a) (Some n) = Some (\<exists>c \<in> set (child a). map tolower (the (name_of c)) = map tolower n)"
proof -
  have find: "get_object_item (Some a) (Some n) cs = Some (find (\<lambda>c. json_key cs (the (name_of c)) = json_key cs n) (child a))" for cs
    using find_member_find [OF assms] by (simp add: get_object_item_def)
  have "cJSON_GetArraySize (Some a) = int (length (child a))" if "length (child a) < 2 ^ 31"
    using that by (simp add: cJSON_GetArraySize_def signed_of_nat signed_take_bit_int_eq_self)
  moreover have "cJSON_GetArrayItem (Some a) i = (if 0 \<le> i \<and> i < int (length (child a)) then Some (child a ! nat i) else None)"
    by (auto simp: cJSON_GetArrayItem_def get_array_item_def item_at_nth nat_less_iff)
  moreover have "(find P xs \<noteq> None) = (\<exists>c \<in> set xs. P c)" for P and xs :: "'a cJSON list"
    by (auto simp: find_None_iff simp del: not_None_eq)
  ultimately show ?thesis
    using find [of False] find [of True]
    by (simp add: cJSON_GetObjectItem_def cJSON_GetObjectItemCaseSensitive_def cJSON_HasObjectItem_def json_key_def del: not_None_eq)
qed

text \<open>The type queries: on an item of a known kind exactly one of the eight kinds answers.\<close>

lemma cjson_type_queries:
  assumes "valid_kind (kind_of i)"
  shows "length (filter (\<lambda>q. q (Some i)) [cJSON_IsFalse, cJSON_IsTrue, cJSON_IsNull, cJSON_IsNumber, cJSON_IsString,
      cJSON_IsRaw, cJSON_IsArray, cJSON_IsObject]) = 1 \<and> \<not> cJSON_IsInvalid (Some i)"
  using assms
  by (cases rule: valid_kind_cases)
    (simp_all add: cJSON_IsFalse_def cJSON_IsTrue_def cJSON_IsNull_def cJSON_IsNumber_def cJSON_IsString_def cJSON_IsRaw_def
      cJSON_IsArray_def cJSON_IsObject_def cJSON_IsInvalid_def has_kind_def cjson_types)

section \<open>Examples\<close>

text \<open>A machine whose floating point numbers are the integers, printed in decimal.\<close>

fun show_nat :: "nat \<Rightarrow> string" where
  "show_nat n = (if n < 10 then [char_of (48 + n)] else show_nat (n div 10) @ [char_of (48 + n mod 10)])"

definition show_int :: "int \<Rightarrow> string" where
  "show_int i = (if i < 0 then CHR ''-'' # show_nat (nat (- i)) else show_nat (nat i))"

definition is_digit :: "char \<Rightarrow> bool" where
  "is_digit c \<longleftrightarrow> 48 \<le> (of_char c :: nat) \<and> (of_char c :: nat) \<le> 57"

definition read_nat :: "string \<Rightarrow> int" where
  "read_nat ds = foldl (\<lambda>n c. 10 * n + (of_char c - 48)) 0 ds"

definition int_strtod :: "string \<Rightarrow> int \<times> nat" where
  "int_strtod s =
     (let neg = (s \<noteq> [] \<and> hd s = CHR ''-''); ds = takeWhile is_digit (if neg then tl s else s)
      in if ds = [] then (0, 0) else if neg then (- read_nat ds, Suc (length ds)) else (read_nat ds, length ds))"

definition int_fp :: "int fp" where
  "int_fp = \<lparr>fp_zero = 0, fp_finite = (\<lambda>_. True), fp_eq = (=), fp_ge_max = (\<lambda>d. INT_MAX \<le> d), fp_le_min = (\<lambda>d. d \<le> INT_MIN),
     fp_to_int = (\<lambda>d. d), fp_of_int = (\<lambda>d. d), fp_g15 = show_int, fp_g17 = show_int, fp_strtod = int_strtod, fp_point = CHR ''.''\<rparr>"

lemmas denotes_CJSON = denotes.simps [of _ _ "CJSON t vs vi vd nm ch" for t vs vi vd nm ch]
lemmas value_of_CJSON = value_of.simps [of _ _ "CJSON t vs vi vd nm ch" for t vs vi vd nm ch]

abbreviation ex_num :: "string option \<Rightarrow> int \<Rightarrow> int cJSON" where
  "ex_num n i \<equiv> CJSON 8 None i i n []"

theorem cjson_compare_correct_witness:
  "cJSON_Compare int_fp False False (CJSON 64 None 0 0 None [ex_num (Some ''a'') 1, ex_num (Some ''B'') 2])
     (CJSON 64 None 0 0 None [ex_num (Some ''b'') 2, ex_num (Some ''A'') 1]) = Some True"
proof -
  have keys: "map tolower ''a'' = ''a''" "map tolower ''B'' = ''b''" "map tolower ''b'' = ''b''" "map tolower ''A'' = ''a''"
    by code_simp+
  have d: "denotes (\<lambda>_. True) False (CJSON 64 None 0 0 None [ex_num (Some n) i, ex_num (Some m) j])"
    if "map tolower n \<noteq> map tolower m" "CHR 0x00 \<notin> set n" "CHR 0x00 \<notin> set m" for n m i j
    using that by (simp add: denotes_CJSON kind_of_def cjson_types valid_kind_def named_def json_key_def)
  show ?thesis
    using cjson_compare_correct [of "\<lambda>_. True" int_fp "\<lambda>x. x", OF _ d d, of "''a''" "''B''" "''b''" "''A''" 1 2 2 1] keys
    by (simp add: int_fp_def value_of_CJSON kind_of_def cjson_types json_key_def fun_upd_twist)
qed

theorem cjson_duplicate_correct_witness:
  "fst (cJSON_Duplicate int_fp True (CJSON 320 None 0 0 None [ex_num (Some ''a'') 1]) []) =
     Some (CJSON 64 None 0 0 None [ex_num (Some ''a'') 1])"
  using cjson_duplicate_correct [of int_fp True "CJSON 320 None 0 0 None [ex_num (Some ''a'') 1]" "[]"]
  by (simp add: cjson_types)

theorem cjson_create_int_array_correct_witness:
  "\<exists>m'. cJSON_CreateIntArray int_fp (Some [1, 2, 3]) 2 [] =
     Some (Some (CJSON cJSON_Array None 0 0 None [number_item int_fp 1, number_item int_fp 2]), m')"
  using cjson_create_int_array_correct [of "[]" 2 "[1, 2, 3]" int_fp] by (simp add: int_fp_def)

theorem cjson_access_correct_witness:
  "cJSON_GetObjectItemCaseSensitive (Some (CJSON 64 None 0 0 None [ex_num (Some ''a'') 1, ex_num (Some ''b'') 2])) (Some ''b'')
    = Some (Some (ex_num (Some ''b'') 2))"
  using cjson_access_correct [of "CJSON 64 None 0 0 None [ex_num (Some ''a'') 1, ex_num (Some ''b'') 2]" "''b''" 0]
  by (simp add: named_def)

end
