(* ===== verification/Cjson_Print.thy ===== *)
theory Cjson_Print
  imports Cjson_Item
begin

text \<open>
  Printing in cJSON (\<open>20170801/cjson.c\<close>): the growing print buffer, numbers, escaped strings, arrays and
  objects, and the four entry points.

  The buffer is an array of bytes that may be indeterminate (\<open>None\<close>); every write is checked against the
  allocated size and reading an indeterminate byte has no value. The hooks are the outcomes of the coming
  allocations and whether \<open>reallocate\<close> is available (it is not when custom hooks are installed).
\<close>

section \<open>The print buffer\<close>

datatype pbuf = Null_Buf | Live "char option list" | Freed_Buf

record printbuffer =
  pb_buffer :: pbuf
  pb_length :: nat
  pb_offset :: nat
  pb_depth :: nat
  pb_noalloc :: bool
  pb_format :: bool
  pb_reallocate :: bool

text \<open>The result of a printing function: the returned truth value, the buffer and the allocations left.\<close>

type_synonym print_result = "(bool \<times> printbuffer \<times> mem) option"

definition ensure :: "printbuffer \<Rightarrow> nat \<Rightarrow> mem \<Rightarrow> (nat option \<times> printbuffer \<times> mem) option" where
  "ensure p needed m =
     (if pb_buffer p = Null_Buf then Some (None, p, m)
      else if 0 < pb_length p \<and> pb_length p \<le> pb_offset p then Some (None, p, m)
      else if INT_MAX < int needed then Some (None, p, m)
      else let needed = needed + (pb_offset p + 1) in
        if needed \<le> pb_length p then Some (Some (pb_offset p), p, m)
        else if pb_noalloc p then Some (None, p, m)
        else if INT_MAX div 2 < int needed \<and> INT_MAX < int needed then Some (None, p, m)
        else let newsize = (if INT_MAX div 2 < int needed then nat INT_MAX else needed * 2) in
          case pb_buffer p of
            Live b \<Rightarrow>
              (case malloc_ok m of (ok, m) \<Rightarrow>
                 if \<not> ok then Some (None, p\<lparr>pb_length := 0, pb_buffer := Null_Buf\<rparr>, m)
                 else if pb_reallocate p
                 then Some (Some (pb_offset p),
                        p\<lparr>pb_length := newsize, pb_buffer := Live (take newsize b @ replicate (newsize - length b) None)\<rparr>, m)
                 else do {
                   new \<leftarrow> memcpy (replicate newsize None) 0 b 0 (int (pb_offset p + 1));
                   Some (Some (pb_offset p), p\<lparr>pb_length := newsize, pb_buffer := Live new\<rparr>, m)
                 })
          | _ \<Rightarrow> None)"

definition put_chars :: "nat \<Rightarrow> string \<Rightarrow> printbuffer \<Rightarrow> printbuffer option" where
  "put_chars at s p =
     (case pb_buffer p of
        Live b \<Rightarrow>
          (if at + length s \<le> length b
           then Some (p\<lparr>pb_buffer := Live (take at b @ map Some s @ drop (at + length s) b)\<rparr>)
           else None)
      | _ \<Rightarrow> None)"

fun strlen_at :: "char option list \<Rightarrow> nat option" where
  "strlen_at [] = None"
| "strlen_at (None # _) = None"
| "strlen_at (Some c # cs) = (if c = CHR 0x00 then Some 0 else map_option Suc (strlen_at cs))"

definition update_offset :: "printbuffer \<Rightarrow> printbuffer option" where
  "update_offset p =
     (case pb_buffer p of
        Null_Buf \<Rightarrow> Some p
      | Live b \<Rightarrow> do { n \<leftarrow> strlen_at (drop (pb_offset p) b); Some (p\<lparr>pb_offset := pb_offset p + n\<rparr>) }
      | Freed_Buf \<Rightarrow> None)"

text \<open>
  The pattern of all printing code: reserve \<open>n\<close> bytes, give up if that fails, write \<open>s\<close> and \<open>z\<close>, and
  advance the offset behind \<open>s\<close>. \<open>and_then\<close> continues after a success and passes a failure on.
\<close>

definition emit :: "nat \<Rightarrow> string \<Rightarrow> string \<Rightarrow> printbuffer \<Rightarrow> mem \<Rightarrow> print_result" where
  "emit n s z p m = do {
     (output, p, m) \<leftarrow> ensure p n m;
     (case output of
        None \<Rightarrow> Some (False, p, m)
      | Some at \<Rightarrow> do {
          p \<leftarrow> put_chars at (s @ z) p;
          Some (True, p\<lparr>pb_offset := pb_offset p + length s\<rparr>, m)
        })
   }"

definition and_then :: "print_result \<Rightarrow> (printbuffer \<Rightarrow> mem \<Rightarrow> print_result) \<Rightarrow> print_result" where
  "and_then r k = do { (ok, p, m) \<leftarrow> r; (if ok then k p m else Some (False, p, m)) }"

lemma and_then_cong [fundef_cong]:
  "r = r' \<Longrightarrow> (\<And>p m. k p m = k' p m) \<Longrightarrow> and_then r k = and_then r' k'"
  by (metis ext)

definition advance :: "printbuffer \<Rightarrow> mem \<Rightarrow> print_result" where
  "advance p m = do { p \<leftarrow> update_offset p; Some (True, p, m) }"

section \<open>Numbers and strings\<close>

text \<open>The text of a number in \<open>number_buffer\<close>, which has 26 bytes.\<close>

definition number_buffer :: "'d fp \<Rightarrow> 'd \<Rightarrow> string option" where
  "number_buffer fp d =
     (if \<not> fp_finite fp d then Some ''null''
      else if 25 < length (fp_g15 fp d) then None
      else case fp_strtod fp (fp_g15 fp d) of (test, n) \<Rightarrow>
        if n = 0 \<or> \<not> fp_eq fp test d
        then (if 25 < length (fp_g17 fp d) then None else Some (fp_g17 fp d))
        else Some (fp_g15 fp d))"

definition dot_point :: "'d fp \<Rightarrow> string \<Rightarrow> string" where
  "dot_point fp s = map (\<lambda>c. if c = fp_point fp then CHR ''.'' else c) s"

definition print_number :: "'d fp \<Rightarrow> 'd \<Rightarrow> printbuffer \<Rightarrow> mem \<Rightarrow> print_result" where
  "print_number fp d p m = do {
     s \<leftarrow> number_buffer fp d;
     emit (length s) (dot_point fp s) [CHR 0x00] p m
   }"

definition short_escape :: "char \<Rightarrow> char option" where
  "short_escape c =
     (if c = CHR 0x5C then Some (CHR 0x5C) else if c = CHR 0x22 then Some (CHR 0x22)
      else if c = CHR 0x08 then Some (CHR ''b'') else if c = CHR 0x0C then Some (CHR ''f'')
      else if c = CHR 0x0A then Some (CHR ''n'') else if c = CHR 0x0D then Some (CHR ''r'')
      else if c = CHR 0x09 then Some (CHR ''t'') else None)"

definition escape_extra :: "char \<Rightarrow> nat" where
  "escape_extra c = (if short_escape c \<noteq> None then 1 else if (of_char c :: nat) < 32 then 5 else 0)"

definition hex_digit :: "nat \<Rightarrow> char" where
  "hex_digit n = (if n < 10 then char_of (48 + n) else char_of (87 + n))"

text \<open>\<open>sprintf (output_pointer, "u%04x", c)\<close> without the terminating NUL.\<close>

definition hex4 :: "char \<Rightarrow> string" where
  "hex4 c = [CHR ''u'', CHR ''0'', CHR ''0'', hex_digit (of_char c div 16), hex_digit (of_char c mod 16)]"

definition plain_char :: "char \<Rightarrow> bool" where
  "plain_char c \<longleftrightarrow> 31 < (of_char c :: nat) \<and> c \<noteq> CHR 0x22 \<and> c \<noteq> CHR 0x5C"

fun escape_loop :: "string \<Rightarrow> nat \<Rightarrow> printbuffer \<Rightarrow> printbuffer option" where
  "escape_loop [] at p = Some p"
| "escape_loop (c # cs) at p =
     (if plain_char c then do { p \<leftarrow> put_chars at [c] p; escape_loop cs (at + 1) p }
      else case short_escape c of
          Some e \<Rightarrow> do { p \<leftarrow> put_chars at [CHR 0x5C, e] p; escape_loop cs (at + 2) p }
        | None \<Rightarrow> do { p \<leftarrow> put_chars at (CHR 0x5C # hex4 c @ [CHR 0x00]) p; escape_loop cs (at + 6) p })"

definition print_string_ptr :: "string option \<Rightarrow> printbuffer \<Rightarrow> mem \<Rightarrow> print_result" where
  "print_string_ptr input p m =
     (case input of
        None \<Rightarrow> emit 3 [] [CHR 0x22, CHR 0x22, CHR 0x00] p m
      | Some s \<Rightarrow>
          (let escape_characters = sum_list (map escape_extra s);
               output_length = length s + escape_characters
           in do {
             (output, p, m) \<leftarrow> ensure p (output_length + 3) m;
             (case output of
                None \<Rightarrow> Some (False, p, m)
              | Some at \<Rightarrow>
                  (if escape_characters = 0
                   then do { p \<leftarrow> put_chars at (CHR 0x22 # s @ [CHR 0x22, CHR 0x00]) p; Some (True, p, m) }
                   else do {
                     p \<leftarrow> put_chars at [CHR 0x22] p;
                     p \<leftarrow> escape_loop s (at + 1) p;
                     p \<leftarrow> put_chars (at + output_length + 1) [CHR 0x22, CHR 0x00] p;
                     Some (True, p, m)
                   }))
           }))"

section \<open>Values\<close>

definition TAB :: char where "TAB = CHR 0x09"
definition NL :: char where "NL = CHR 0x0A"

fun print_value :: "'d fp \<Rightarrow> 'd cJSON \<Rightarrow> printbuffer \<Rightarrow> mem \<Rightarrow> print_result"
  and print_elements :: "'d fp \<Rightarrow> 'd cJSON list \<Rightarrow> printbuffer \<Rightarrow> mem \<Rightarrow> print_result"
  and print_members :: "'d fp \<Rightarrow> 'd cJSON list \<Rightarrow> printbuffer \<Rightarrow> mem \<Rightarrow> print_result" where
  "print_value fp (CJSON t vs vi vd nm cs) p m =
     (if t AND 0xFF = cJSON_NULL then emit 5 [] (''null'' @ [CHR 0x00]) p m
      else if t AND 0xFF = cJSON_False then emit 6 [] (''false'' @ [CHR 0x00]) p m
      else if t AND 0xFF = cJSON_True then emit 5 [] (''true'' @ [CHR 0x00]) p m
      else if t AND 0xFF = cJSON_Number then print_number fp vd p m
      else if t AND 0xFF = cJSON_Raw then
        (case vs of
           None \<Rightarrow>
             (if pb_noalloc p then Some (False, p, m)
              else case pb_buffer p of
                  Null_Buf \<Rightarrow> Some (False, p, m)
                | Live b \<Rightarrow> Some (False, p\<lparr>pb_buffer := Freed_Buf\<rparr>, m)
                | Freed_Buf \<Rightarrow> None)
         | Some s \<Rightarrow> emit (length s + 1) [] (s @ [CHR 0x00]) p m)
      else if t AND 0xFF = cJSON_String then print_string_ptr vs p m
      else if t AND 0xFF = cJSON_Array then
        and_then (emit 1 ''['' [] p m) (\<lambda>p m.
        and_then (print_elements fp cs (p\<lparr>pb_depth := pb_depth p + 1\<rparr>) m) (\<lambda>p m.
        and_then (emit 2 [] ('']'' @ [CHR 0x00]) p m) (\<lambda>p m.
          Some (True, p\<lparr>pb_depth := pb_depth p - 1\<rparr>, m))))
      else if t AND 0xFF = cJSON_Object then
        and_then (emit (if pb_format p then 3 else 2) (if pb_format p then [CHR ''{'', NL] else ''{'') [] p m) (\<lambda>p m.
        and_then (print_members fp cs (p\<lparr>pb_depth := pb_depth p + 1\<rparr>) m) (\<lambda>p m.
        and_then (emit (if pb_format p then pb_depth p + 1 else 2) []
            ((if pb_format p then replicate (pb_depth p - 1) TAB else []) @ [CHR ''}'', CHR 0x00]) p m) (\<lambda>p m.
          Some (True, p\<lparr>pb_depth := pb_depth p - 1\<rparr>, m))))
      else Some (False, p, m))"
| "print_elements fp [] p m = Some (True, p, m)"
| "print_elements fp (c # cs) p m =
     and_then (print_value fp c p m) (\<lambda>p m.
     and_then (advance p m) (\<lambda>p m.
     and_then
       (if cs \<noteq> []
        then emit (if pb_format p then 3 else 2) (if pb_format p then '', '' else '','') [CHR 0x00] p m
        else Some (True, p, m)) (\<lambda>p m.
     print_elements fp cs p m)))"
| "print_members fp [] p m = Some (True, p, m)"
| "print_members fp (c # cs) p m =
     and_then (if pb_format p then emit (pb_depth p) (replicate (pb_depth p) TAB) [] p m else Some (True, p, m)) (\<lambda>p m.
     and_then (print_string_ptr (name_of c) p m) (\<lambda>p m.
     and_then (advance p m) (\<lambda>p m.
     and_then (emit (if pb_format p then 2 else 1) (if pb_format p then [CHR '':'', TAB] else '':'') [] p m) (\<lambda>p m.
     and_then (print_value fp c p m) (\<lambda>p m.
     and_then (advance p m) (\<lambda>p m.
     and_then (emit ((if pb_format p then 1 else 0) + (if cs \<noteq> [] then 1 else 0) + 1)
         ((if cs \<noteq> [] then '','' else []) @ (if pb_format p then [NL] else [])) [CHR 0x00] p m) (\<lambda>p m.
     print_members fp cs p m)))))))"

section \<open>Entry points\<close>

text \<open>
  The functions return the contents of the buffer they hand out. Freeing a buffer twice has no value.
\<close>

definition deallocate :: "pbuf \<Rightarrow> unit option" where
  "deallocate b = (if b = Freed_Buf then None else Some ())"

definition print :: "'d fp \<Rightarrow> 'd cJSON option \<Rightarrow> bool \<Rightarrow> bool \<Rightarrow> mem \<Rightarrow> (char option list option \<times> mem) option" where
  "print fp item format reallocate m =
     (case malloc_ok m of (ok, m) \<Rightarrow>
        if \<not> ok then Some (None, m)
        else do {
          (ok, p, m) \<leftarrow>
            (let p = \<lparr>pb_buffer = Live (replicate 256 None), pb_length = 0, pb_offset = 0, pb_depth = 0,
                      pb_noalloc = False, pb_format = format, pb_reallocate = reallocate\<rparr>
             in case item of None \<Rightarrow> Some (False, p, m) | Some i \<Rightarrow> print_value fp i p m);
          (if \<not> ok then do { deallocate (pb_buffer p); Some (None, m) }
           else do {
             p \<leftarrow> update_offset p;
             (case pb_buffer p of
                Live b \<Rightarrow>
                  (case malloc_ok m of (ok, m) \<Rightarrow>
                     if \<not> ok then Some (None, m)
                     else if reallocate then Some (Some (take (pb_length p) b), m)
                     else do {
                       printed \<leftarrow> memcpy (replicate (pb_offset p + 1) None) 0 b 0 (int (min (pb_length p) (pb_offset p + 1)));
                       printed \<leftarrow> upd_opt printed (pb_offset p) (Some (CHR 0x00));
                       Some (Some printed, m)
                     })
              | _ \<Rightarrow> None)
           })
        })"

definition cJSON_Print :: "'d fp \<Rightarrow> 'd cJSON option \<Rightarrow> bool \<Rightarrow> mem \<Rightarrow> (char option list option \<times> mem) option" where
  "cJSON_Print fp item reallocate m = print fp item True reallocate m"

definition cJSON_PrintUnformatted :: "'d fp \<Rightarrow> 'd cJSON option \<Rightarrow> bool \<Rightarrow> mem \<Rightarrow> (char option list option \<times> mem) option" where
  "cJSON_PrintUnformatted fp item reallocate m = print fp item False reallocate m"

definition cJSON_PrintBuffered :: "'d fp \<Rightarrow> 'd cJSON option \<Rightarrow> int \<Rightarrow> bool \<Rightarrow> bool \<Rightarrow> mem \<Rightarrow> (char option list option \<times> mem) option" where
  "cJSON_PrintBuffered fp item prebuffer fmt reallocate m =
     (if prebuffer < 0 then Some (None, m)
      else case malloc_ok m of (ok, m) \<Rightarrow>
        if \<not> ok then Some (None, m)
        else do {
          (ok, p, m) \<leftarrow>
            (let p = \<lparr>pb_buffer = Live (replicate (nat prebuffer) None), pb_length = nat prebuffer, pb_offset = 0, pb_depth = 0,
                      pb_noalloc = False, pb_format = fmt, pb_reallocate = reallocate\<rparr>
             in case item of None \<Rightarrow> Some (False, p, m) | Some i \<Rightarrow> print_value fp i p m);
          (if \<not> ok then do { deallocate (pb_buffer p); Some (None, m) }
           else case pb_buffer p of Live b \<Rightarrow> Some (Some b, m) | _ \<Rightarrow> None)
        })"

definition cJSON_PrintPreallocated :: "'d fp \<Rightarrow> 'd cJSON option \<Rightarrow> char option list option \<Rightarrow> int \<Rightarrow> bool \<Rightarrow> bool
    \<Rightarrow> (bool \<times> char option list option) option" where
  "cJSON_PrintPreallocated fp item buf len fmt reallocate =
     (if len < 0 then Some (False, buf)
      else case buf of
          None \<Rightarrow> Some (False, None)
        | Some b \<Rightarrow> do {
            (ok, p, m) \<leftarrow>
              (let p = \<lparr>pb_buffer = Live b, pb_length = nat len, pb_offset = 0, pb_depth = 0, pb_noalloc = True,
                        pb_format = fmt, pb_reallocate = reallocate\<rparr>
               in case item of None \<Rightarrow> Some (False, p, []) | Some i \<Rightarrow> print_value fp i p []);
            (case pb_buffer p of Live b \<Rightarrow> Some (ok, Some b) | _ \<Rightarrow> None)
          })"

section \<open>Buffers that are being filled\<close>

text \<open>
  A usable buffer: \<open>pb_length\<close> bytes are allocated and the offset is inside them, or nothing was reserved
  yet. \<open>print\<close> starts with an allocated buffer whose recorded length is 0.
\<close>

definition pb_wf :: "printbuffer \<Rightarrow> bool" where
  "pb_wf p \<longleftrightarrow> (\<exists>b. pb_buffer p = Live b \<and> pb_length p \<le> length b \<and> int (pb_length p) \<le> INT_MAX
     \<and> (if pb_length p = 0 then pb_offset p = 0 \<and> (pb_noalloc p \<or> pb_reallocate p \<or> b \<noteq> []) else pb_offset p < pb_length p))"

text \<open>\<open>extends p s p'\<close>: from \<open>p\<close> to \<open>p'\<close> exactly the text \<open>s\<close> was added.\<close>

definition extends :: "printbuffer \<Rightarrow> string \<Rightarrow> printbuffer \<Rightarrow> bool" where
  "extends p s p' \<longleftrightarrow> (\<exists>b b'. pb_buffer p = Live b \<and> pb_buffer p' = Live b' \<and> pb_offset p' = pb_offset p + length s
     \<and> take (pb_offset p') b' = take (pb_offset p) b @ map Some s \<and> pb_length p \<le> pb_length p'
     \<and> pb_noalloc p' = pb_noalloc p \<and> pb_format p' = pb_format p \<and> pb_reallocate p' = pb_reallocate p \<and> pb_wf p'
     \<and> (pb_noalloc p \<longrightarrow> pb_length p' = pb_length p \<and> length b' = length b))"

lemma extends_refl: "pb_wf p \<Longrightarrow> extends p [] p"
  by (auto simp: extends_def pb_wf_def)

lemma extends_trans: "extends p s p1 \<Longrightarrow> extends p1 t p2 \<Longrightarrow> extends p (s @ t) p2"
  by (auto simp: extends_def)

lemma pb_depth_irrelevant [simp]:
  "pb_wf (p\<lparr>pb_depth := d\<rparr>) = pb_wf p" "extends (p\<lparr>pb_depth := d\<rparr>) s p' = extends p s p'"
  "extends p s (p'\<lparr>pb_depth := d\<rparr>) = extends p s p'"
  by (simp_all add: pb_wf_def extends_def)

lemma extendsD:
  assumes "extends p s p'"
  shows "pb_wf p'" "pb_noalloc p' = pb_noalloc p" "pb_format p' = pb_format p" "pb_offset p' = pb_offset p + length s"
    "pb_length p \<le> pb_length p'"
  using assms by (auto simp: extends_def)

text \<open>There is room for \<open>n\<close> more bytes, in the buffer or by reallocation.\<close>

definition room :: "printbuffer \<Rightarrow> mem \<Rightarrow> nat \<Rightarrow> bool" where
  "room p m n \<longleftrightarrow> pb_offset p + n \<le> pb_length p \<or> (\<not> pb_noalloc p \<and> all_ok m \<and> int (pb_offset p + n) \<le> INT_MAX)"

lemma room_mono: "room p m n \<Longrightarrow> k \<le> n \<Longrightarrow> room p m k"
  by (auto simp: room_def)

lemma room_extends:
  assumes "extends p s p'" "room p m (length s + n)" "all_ok m \<longrightarrow> all_ok m'"
  shows "room p' m' n"
  using assms extendsD [OF assms(1)] by (auto simp: room_def)

lemma room_depth [simp]: "room (p\<lparr>pb_depth := d\<rparr>) m n = room p m n"
  by (simp add: room_def)

text \<open>Reserving space never goes wrong; when it succeeds there is space for the bytes and one more.\<close>

lemma ensure_grow:
  assumes "pb_buffer p = Live b" "pb_wf p" "pb_offset p < newsize" "pb_length p \<le> newsize" "newsize \<noteq> 0"
    "int newsize \<le> INT_MAX" "\<not> pb_noalloc p"
  shows "extends p [] (p\<lparr>pb_length := newsize, pb_buffer := Live (take newsize b @ replicate (newsize - length b) None)\<rparr>)"
    and "\<not> pb_reallocate p \<Longrightarrow> \<exists>new. memcpy (replicate newsize None) 0 b 0 (int (pb_offset p + 1)) = Some new
      \<and> extends p [] (p\<lparr>pb_length := newsize, pb_buffer := Live new\<rparr>)"
proof -
  have off: "pb_offset p \<le> length b" using assms(1,2) by (auto simp: pb_wf_def split: if_splits)
  then have "take (pb_offset p) (take newsize b @ replicate (newsize - length b) None) = take (pb_offset p) b"
    using assms(3) by simp
  then show "extends p [] (p\<lparr>pb_length := newsize, pb_buffer := Live (take newsize b @ replicate (newsize - length b) None)\<rparr>)"
    using assms off by (auto simp: extends_def pb_wf_def min_def)
  assume "\<not> pb_reallocate p"
  then have "pb_offset p + 1 \<le> length b"
    using assms(1,2,7) by (auto simp: pb_wf_def Suc_le_eq split: if_splits)
  then show "\<exists>new. memcpy (replicate newsize None) 0 b 0 (int (pb_offset p + 1)) = Some new
      \<and> extends p [] (p\<lparr>pb_length := newsize, pb_buffer := Live new\<rparr>)"
    using assms memcpy_nat [of 0 "pb_offset p + 1" "replicate newsize None" 0 b]
    by (auto simp: extends_def pb_wf_def min_def)
qed

lemma ensure_ok:
  assumes "pb_wf p"
  shows "\<exists>r p' m'. ensure p n m = Some (r, p', m') \<and> pb_buffer p' \<noteq> Freed_Buf
    \<and> (r \<noteq> None \<longrightarrow> r = Some (pb_offset p) \<and> extends p [] p' \<and> pb_offset p + n + 1 \<le> pb_length p'
         \<and> pb_depth p' = pb_depth p \<and> (all_ok m \<longrightarrow> all_ok m'))
    \<and> (room p m (n + 1) \<longrightarrow> r \<noteq> None) \<and> (pb_noalloc p \<longrightarrow> p' = p)"
proof -
  obtain b where b: "pb_buffer p = Live b" "pb_length p \<le> length b" using assms by (auto simp: pb_wf_def)
  have off: "\<not> (0 < pb_length p \<and> pb_length p \<le> pb_offset p)" using assms by (auto simp: pb_wf_def)
  obtain ok m' where m': "malloc_ok m = (ok, m')" by (rule prod.exhaust)
  define newsize where "newsize = (if INT_MAX div 2 < int (n + (pb_offset p + 1)) then nat INT_MAX else (n + (pb_offset p + 1)) * 2)"
  consider (fits) "\<not> INT_MAX < int n" "n + (pb_offset p + 1) \<le> pb_length p"
    | (null) "INT_MAX < int n \<or> \<not> n + (pb_offset p + 1) \<le> pb_length p \<and> (pb_noalloc p \<or> INT_MAX < int (n + (pb_offset p + 1)))"
    | (grow) "\<not> INT_MAX < int n" "\<not> n + (pb_offset p + 1) \<le> pb_length p" "\<not> pb_noalloc p" "\<not> INT_MAX < int (n + (pb_offset p + 1))"
    by blast
  then show ?thesis
  proof cases
    case fits
    then have "ensure p n m = Some (Some (pb_offset p), p, m)"
      using b off by (simp add: ensure_def)
    then show ?thesis using extends_refl [OF assms] b fits by auto
  next
    case null
    then have "ensure p n m = Some (None, p, m)" using b off by (auto simp: ensure_def Let_def INT_MAX_def)
    moreover have "\<not> room p m (n + 1)"
      using null assms by (auto simp: room_def pb_wf_def)
    ultimately show ?thesis using b by auto
  next
    case grow
    then have new: "n + (pb_offset p + 1) \<le> newsize" by (auto simp: newsize_def INT_MAX_def)
    then have 1: "pb_offset p < newsize" "pb_length p \<le> newsize" "newsize \<noteq> 0" using grow by auto
    have 2: "int newsize \<le> INT_MAX" by (auto simp: newsize_def INT_MAX_def)
    note big = ensure_grow [OF b(1) assms 1 2 grow(3)]
    have eq: "ensure p n m = (if \<not> ok then Some (None, p\<lparr>pb_length := 0, pb_buffer := Null_Buf\<rparr>, m')
       else if pb_reallocate p
       then Some (Some (pb_offset p),
              p\<lparr>pb_length := newsize, pb_buffer := Live (take newsize b @ replicate (newsize - length b) None)\<rparr>, m')
       else do {
         new \<leftarrow> memcpy (replicate newsize None) 0 b 0 (int (pb_offset p + 1));
         Some (Some (pb_offset p), p\<lparr>pb_length := newsize, pb_buffer := Live new\<rparr>, m')
       })"
      unfolding ensure_def Let_def newsize_def if_not_P [OF off] using grow b m' by simp
    have okm: "all_ok m \<longrightarrow> ok \<and> all_ok m'" using m' malloc_all_ok [of m] by auto
    have need: "room p m (n + 1) \<longrightarrow> ok" using grow(2) okm by (auto simp: room_def)
    show ?thesis
    proof (cases "ok \<and> \<not> pb_reallocate p")
      case True
      then obtain new where "memcpy (replicate newsize None) 0 b 0 (int (pb_offset p + 1)) = Some new"
        "extends p [] (p\<lparr>pb_length := newsize, pb_buffer := Live new\<rparr>)" using big(2) by blast
      then show ?thesis using True okm \<open>n + (pb_offset p + 1) \<le> newsize\<close> grow(3) unfolding eq by auto
    next
      case False
      then show ?thesis using big(1) okm need \<open>n + (pb_offset p + 1) \<le> newsize\<close> grow(3) unfolding eq by auto
    qed
  qed
qed

section \<open>Composing printers\<close>

definition keeps_live :: "printbuffer \<Rightarrow> printbuffer \<Rightarrow> bool" where
  "keeps_live p p' \<longleftrightarrow> (pb_noalloc p \<longrightarrow>
     (\<exists>b b'. pb_buffer p = Live b \<and> pb_buffer p' = Live b' \<and> length b' = length b))"

text \<open>
  \<open>emits p m s r\<close>: the run \<open>r\<close>, started on \<open>p\<close>, has a value; if it reports success, the text \<open>s\<close> was added and
  the offset moved behind it; and it does succeed if there is room for the text and two more bytes.
  \<open>prints\<close> is the same for the functions that leave the text behind the offset, ended by a NUL, for
  \<open>update_offset\<close> to find.
\<close>

definition emits :: "printbuffer \<Rightarrow> mem \<Rightarrow> string \<Rightarrow> print_result \<Rightarrow> bool" where
  "emits p m s r \<longleftrightarrow> (\<exists>ok p' m'. r = Some (ok, p', m') \<and> pb_buffer p' \<noteq> Freed_Buf \<and> keeps_live p p'
     \<and> (ok \<longrightarrow> extends p s p' \<and> pb_depth p' = pb_depth p \<and> (all_ok m \<longrightarrow> all_ok m'))
     \<and> (room p m (length s + 2) \<longrightarrow> ok))"

definition prints :: "printbuffer \<Rightarrow> mem \<Rightarrow> string \<Rightarrow> print_result \<Rightarrow> bool" where
  "prints p m s r \<longleftrightarrow> (\<exists>ok p' m'. r = Some (ok, p', m') \<and> pb_buffer p' \<noteq> Freed_Buf \<and> keeps_live p p'
     \<and> (ok \<longrightarrow> (\<exists>p''. update_offset p' = Some p'' \<and> extends p s p'') \<and> 0 < pb_length p' \<and> pb_depth p' = pb_depth p \<and> (all_ok m \<longrightarrow> all_ok m'))
     \<and> (room p m (length s + 2) \<longrightarrow> ok))"

lemma keeps_live_trans: "keeps_live p p1 \<Longrightarrow> extends p s p1 \<Longrightarrow> keeps_live p1 p2 \<Longrightarrow> keeps_live p p2"
  by (auto simp: keeps_live_def dest: extendsD(2))

lemma update_offset_same:
  "update_offset p = Some p' \<Longrightarrow> pb_buffer p' = pb_buffer p \<and> pb_depth p' = pb_depth p"
  by (auto simp: update_offset_def split: pbuf.splits bind_splits)

lemma emits_then:
  assumes r: "emits p m s r"
    and k: "\<And>p1 m1. extends p s p1 \<Longrightarrow> pb_depth p1 = pb_depth p \<Longrightarrow> emits p1 m1 t (k p1 m1)"
  shows "emits p m (s @ t) (and_then r k)"
proof -
  obtain ok p1 m1 where 1: "r = Some (ok, p1, m1)" "pb_buffer p1 \<noteq> Freed_Buf" "keeps_live p p1"
    "ok \<Longrightarrow> extends p s p1 \<and> pb_depth p1 = pb_depth p \<and> (all_ok m \<longrightarrow> all_ok m1)" "room p m (length s + 2) \<Longrightarrow> ok"
    using r unfolding emits_def by blast
  have fit: "room p m (length (s @ t) + 2) \<Longrightarrow> room p m (length s + 2)"
    using room_mono [of p m "length (s @ t) + 2" "length s + 2"] by simp
  show ?thesis
  proof (cases ok)
    case False
    then show ?thesis using 1 fit by (auto simp: emits_def and_then_def)
  next
    case True
    note s = 1(4) [OF True]
    obtain ok2 p2 m2 where 2: "k p1 m1 = Some (ok2, p2, m2)" "pb_buffer p2 \<noteq> Freed_Buf" "keeps_live p1 p2"
      "ok2 \<Longrightarrow> extends p1 t p2 \<and> pb_depth p2 = pb_depth p1 \<and> (all_ok m1 \<longrightarrow> all_ok m2)" "room p1 m1 (length t + 2) \<Longrightarrow> ok2"
      using k [of p1 m1] s unfolding emits_def by blast
    have "room p m (length (s @ t) + 2) \<Longrightarrow> ok2"
      using 2(5) room_extends [of p s p1 m "length t + 2" m1] s by (simp add: add.assoc)
    then show ?thesis
      using 1(1) True 2(1-4) s extends_trans keeps_live_trans [OF 1(3), of s p2]
      unfolding emits_def and_then_def by fastforce
  qed
qed

lemma prints_then:
  assumes r: "emits p m s r"
    and k: "\<And>p1 m1. extends p s p1 \<Longrightarrow> pb_depth p1 = pb_depth p \<Longrightarrow> prints p1 m1 t (k p1 m1)"
  shows "prints p m (s @ t) (and_then r k)"
proof -
  obtain ok p1 m1 where 1: "r = Some (ok, p1, m1)" "pb_buffer p1 \<noteq> Freed_Buf" "keeps_live p p1"
    "ok \<Longrightarrow> extends p s p1 \<and> pb_depth p1 = pb_depth p \<and> (all_ok m \<longrightarrow> all_ok m1)" "room p m (length s + 2) \<Longrightarrow> ok"
    using r unfolding emits_def by blast
  have fit: "room p m (length (s @ t) + 2) \<Longrightarrow> room p m (length s + 2)"
    using room_mono [of p m "length (s @ t) + 2" "length s + 2"] by simp
  show ?thesis
  proof (cases ok)
    case False
    then show ?thesis using 1 fit by (auto simp: prints_def and_then_def)
  next
    case True
    note s = 1(4) [OF True]
    obtain ok2 p2 m2 where 2: "k p1 m1 = Some (ok2, p2, m2)" "pb_buffer p2 \<noteq> Freed_Buf" "keeps_live p1 p2"
      "ok2 \<Longrightarrow> (\<exists>p''. update_offset p2 = Some p'' \<and> extends p1 t p'') \<and> 0 < pb_length p2 \<and> pb_depth p2 = pb_depth p1 \<and> (all_ok m1 \<longrightarrow> all_ok m2)"
      "room p1 m1 (length t + 2) \<Longrightarrow> ok2"
      using k [of p1 m1] s unfolding prints_def by blast
    have "room p m (length (s @ t) + 2) \<Longrightarrow> ok2"
      using 2(5) room_extends [of p s p1 m "length t + 2" m1] s by (simp add: add.assoc)
    then show ?thesis
      using 1(1) True 2(1-4) s extends_trans keeps_live_trans [OF 1(3), of s p2]
      unfolding prints_def and_then_def by fastforce
  qed
qed

lemma prints_advance:
  assumes "prints p m s r"
  shows "emits p m s (and_then r advance)"
proof -
  obtain ok p1 m1 where 1: "r = Some (ok, p1, m1)" "pb_buffer p1 \<noteq> Freed_Buf" "keeps_live p p1"
    "ok \<Longrightarrow> (\<exists>p''. update_offset p1 = Some p'' \<and> extends p s p'') \<and> 0 < pb_length p1 \<and> pb_depth p1 = pb_depth p \<and> (all_ok m \<longrightarrow> all_ok m1)"
    "room p m (length s + 2) \<Longrightarrow> ok"
    using assms unfolding prints_def by blast
  show ?thesis
  proof (cases ok)
    case False
    then show ?thesis using 1 by (auto simp: emits_def and_then_def)
  next
    case True
    then obtain p2 where 2: "update_offset p1 = Some p2" "extends p s p2" using 1(4) by blast
    have "keeps_live p p2" using update_offset_same [OF 2(1)] 1(3) by (auto simp: keeps_live_def)
    then show ?thesis
      using 1 2 True update_offset_same [OF 2(1)] by (auto simp: emits_def and_then_def advance_def)
  qed
qed

lemma emits_nothing: "pb_wf p \<Longrightarrow> emits p m [] (Some (True, p, m))"
proof -
  assume wf: "pb_wf p"
  then have "keeps_live p p" "pb_buffer p \<noteq> Freed_Buf" by (auto simp: keeps_live_def pb_wf_def)
  with extends_refl [OF wf] show ?thesis by (auto simp: emits_def)
qed

section \<open>Writing into reserved space\<close>

lemma put_chars_ok:
  assumes "extends p [] p1" "pb_offset p + n + 1 \<le> pb_length p1" "length s \<le> n" "length (s @ z) \<le> n + 1"
  shows "\<exists>p2. put_chars (pb_offset p) (s @ z) p1 = Some p2 \<and> pb_offset p2 = pb_offset p \<and> pb_depth p2 = pb_depth p1
    \<and> extends p s (p2\<lparr>pb_offset := pb_offset p + length s\<rparr>) \<and> pb_length p2 = pb_length p1
    \<and> (\<exists>b2 rest. pb_buffer p2 = Live b2 \<and> drop (pb_offset p + length s) b2 = map Some z @ rest)"
proof -
  obtain b b1 where b: "pb_buffer p = Live b" "pb_buffer p1 = Live b1" "pb_offset p1 = pb_offset p"
      "take (pb_offset p) b1 = take (pb_offset p) b" "pb_length p1 \<le> length b1"
    using assms(1) by (auto simp: extends_def pb_wf_def)
  define b2 where "b2 = take (pb_offset p) b1 @ map Some (s @ z) @ drop (pb_offset p + length (s @ z)) b1"
  define p2 where "p2 = p1\<lparr>pb_buffer := Live b2\<rparr>"
  have le: "pb_offset p + length (s @ z) \<le> length b1" using assms b(5) by simp
  then have put: "put_chars (pb_offset p) (s @ z) p1 = Some p2"
    by (simp add: put_chars_def b p2_def b2_def)
  have min: "min (length b1) (pb_offset p) = pb_offset p" using le by simp
  have len: "length b2 = length b1" using le by (simp add: b2_def)
  have tk: "take (pb_offset p + length s) b2 = take (pb_offset p) b @ map Some s"
    unfolding b(4) [symmetric] using min by (simp add: b2_def)
  have dr: "drop (pb_offset p + length s) b2 = map Some z @ drop (pb_offset p + length (s @ z)) b1"
    using min by (simp add: b2_def)
  have "pb_offset p + length s < pb_length p1" using assms(2,3) by simp
  then have "extends p s (p2\<lparr>pb_offset := pb_offset p + length s\<rparr>)"
    using assms(1) tk len b by (auto simp: extends_def pb_wf_def p2_def)
  then show ?thesis using put dr b(3) by (auto simp: p2_def)
qed

lemma strlen_at_text: "CHR 0x00 \<notin> set t \<Longrightarrow> strlen_at (map Some t @ Some (CHR 0x00) # rest) = Some (length t)"
  by (induction t) auto

lemma emit_cases:
  assumes "pb_wf p" "length s \<le> n" "length (s @ z) \<le> n + 1" "n + 1 \<le> k"
  shows "\<exists>ok p' m'. emit n s z p m = Some (ok, p', m') \<and> pb_buffer p' \<noteq> Freed_Buf \<and> keeps_live p p'
    \<and> (room p m k \<longrightarrow> ok)
    \<and> (ok \<longrightarrow> extends p s p' \<and> pb_depth p' = pb_depth p \<and> (all_ok m \<longrightarrow> all_ok m') \<and> pb_offset p + n + 1 \<le> pb_length p'
         \<and> (\<exists>b' rest. pb_buffer p' = Live b' \<and> drop (pb_offset p') b' = map Some z @ rest))"
proof -
  obtain r p1 m1 where 1: "ensure p n m = Some (r, p1, m1)" "pb_buffer p1 \<noteq> Freed_Buf"
    "r \<noteq> None \<Longrightarrow> r = Some (pb_offset p) \<and> extends p [] p1 \<and> pb_offset p + n + 1 \<le> pb_length p1
         \<and> pb_depth p1 = pb_depth p \<and> (all_ok m \<longrightarrow> all_ok m1)"
    "room p m (n + 1) \<Longrightarrow> r \<noteq> None" "pb_noalloc p \<Longrightarrow> p1 = p"
    using ensure_ok [OF assms(1), of n m] by blast
  have live: "keeps_live p p1" using 1(5) assms(1) by (auto simp: keeps_live_def pb_wf_def)
  have k: "room p m k \<Longrightarrow> r \<noteq> None" using 1(4) room_mono [OF _ assms(4)] by blast
  show ?thesis
  proof (cases r)
    case None
    then show ?thesis using 1 live k by (auto simp: emit_def)
  next
    case (Some at)
    then have 2: "at = pb_offset p" "extends p [] p1" "pb_offset p + n + 1 \<le> pb_length p1" "pb_depth p1 = pb_depth p"
      "all_ok m \<longrightarrow> all_ok m1" using 1(3) by auto
    obtain p2 b2 rest where 3: "put_chars (pb_offset p) (s @ z) p1 = Some p2" "pb_offset p2 = pb_offset p" "pb_depth p2 = pb_depth p1"
      "extends p s (p2\<lparr>pb_offset := pb_offset p + length s\<rparr>)" "pb_length p2 = pb_length p1" "pb_buffer p2 = Live b2"
      "drop (pb_offset p + length s) b2 = map Some z @ rest"
      using put_chars_ok [OF 2(2,3) assms(2,3)] by blast
    have "emit n s z p m = Some (True, p2\<lparr>pb_offset := pb_offset p + length s\<rparr>, m1)"
      using 1(1) Some 2(1) 3(1,2) by (simp add: emit_def)
    moreover have "keeps_live p (p2\<lparr>pb_offset := pb_offset p + length s\<rparr>)"
      using 3(4) by (auto simp: keeps_live_def extends_def)
    ultimately show ?thesis using 2 3 by auto
  qed
qed

lemma emits_emit:
  assumes "pb_wf p" "length s \<le> n" "length (s @ z) \<le> n + 1" "n \<le> length s + 1"
  shows "emits p m s (emit n s z p m)"
  using emit_cases [OF assms(1-3), of "length s + 2" m] assms(4) unfolding emits_def by auto

lemma update_offset_text:
  assumes "extends p [] p1" "pb_buffer p1 = Live b1" "length b2 = length b1"
    "take (pb_offset p + length s + 1) b2 = take (pb_offset p) b1 @ map Some (s @ [CHR 0x00])"
    "pb_offset p + length s + 1 \<le> pb_length p1" "CHR 0x00 \<notin> set s"
  shows "\<exists>p''. update_offset (p1\<lparr>pb_buffer := Live b2\<rparr>) = Some p'' \<and> extends p s p''"
proof -
  obtain b where b: "pb_buffer p = Live b" "pb_offset p1 = pb_offset p" "take (pb_offset p) b1 = take (pb_offset p) b"
      "pb_length p1 \<le> length b1"
    using assms(1,2) by (auto simp: extends_def pb_wf_def)
  have len: "length (take (pb_offset p) b1) = pb_offset p" using assms(5) b(4) by simp
  have dr: "drop (pb_offset p) b2 = map Some s @ Some (CHR 0x00) # drop (pb_offset p + length s + 1) b2"
  proof -
    have "b2 = take (pb_offset p + length s + 1) b2 @ drop (pb_offset p + length s + 1) b2" by simp
    then show ?thesis unfolding assms(4) using len
      by (metis append.assoc append_Cons append_Nil append_eq_conv_conj list.map(2) map_append list.map(1))
  qed
  have tk: "take (pb_offset p + length s) b2 = take (pb_offset p) b @ map Some s"
  proof -
    have "take (pb_offset p + length s) b2 = take (pb_offset p + length s) (take (pb_offset p + length s + 1) b2)" by simp
    then show ?thesis unfolding assms(4) using len b(3) by simp
  qed
  define p2 where "p2 = p1\<lparr>pb_buffer := Live b2, pb_offset := pb_offset p + length s\<rparr>"
  have "update_offset (p1\<lparr>pb_buffer := Live b2\<rparr>) = Some p2"
    using dr strlen_at_text [OF assms(6)] b(2) by (simp add: update_offset_def p2_def)
  moreover have "extends p s p2"
    using assms(1,2,3,5) tk b by (auto simp: extends_def pb_wf_def p2_def)
  ultimately show ?thesis by blast
qed

lemma prints_emit:
  assumes "pb_wf p" "length (s @ t) \<le> n" "n \<le> length (s @ t) + 1" "CHR 0x00 \<notin> set t"
  shows "prints p m (s @ t) (emit n s (t @ [CHR 0x00]) p m)"
proof -
  obtain ok p1 m1 where 1: "emit n s (t @ [CHR 0x00]) p m = Some (ok, p1, m1)" "pb_buffer p1 \<noteq> Freed_Buf" "keeps_live p p1"
    "room p m (length (s @ t) + 2) \<Longrightarrow> ok"
    "ok \<Longrightarrow> extends p s p1 \<and> pb_depth p1 = pb_depth p \<and> (all_ok m \<longrightarrow> all_ok m1) \<and> pb_offset p + n + 1 \<le> pb_length p1
         \<and> (\<exists>b' rest. pb_buffer p1 = Live b' \<and> drop (pb_offset p1) b' = map Some (t @ [CHR 0x00]) @ rest)"
    using emit_cases [OF assms(1), of s n "t @ [CHR 0x00]" "length (s @ t) + 2" m] assms(2,3) by auto
  show ?thesis
  proof (cases ok)
    case False
    then show ?thesis using 1 by (auto simp: prints_def)
  next
    case True
    then obtain b1 rest where 2: "extends p s p1" "pb_depth p1 = pb_depth p" "all_ok m \<longrightarrow> all_ok m1" "pb_buffer p1 = Live b1"
      "drop (pb_offset p1) b1 = map Some t @ Some (CHR 0x00) # rest" "pb_offset p + n + 1 \<le> pb_length p1" using 1(5) by auto
    define p2 where "p2 = p1\<lparr>pb_offset := pb_offset p1 + length t\<rparr>"
    have "update_offset p1 = Some p2"
      using 2(4,5) strlen_at_text [OF assms(4)] by (simp add: update_offset_def p2_def)
    moreover have "extends p (s @ t) p2"
    proof -
      have "take (pb_offset p1 + length t) b1 = take (pb_offset p1) b1 @ map Some t"
        using 2(5) by (simp add: take_add)
      moreover have "pb_offset p1 + length t < pb_length p1"
        using 2(6) assms(2) extendsD(4) [OF 2(1)] by simp
      ultimately show ?thesis using 2(1,4) by (auto simp: extends_def pb_wf_def p2_def)
    qed
    ultimately show ?thesis using 1 2 by (auto simp: prints_def)
  qed
qed

section \<open>Escaped strings\<close>

text \<open>The text of a string, with quotes and escapes.\<close>

definition escape :: "char \<Rightarrow> string" where
  "escape c = (if plain_char c then [c]
     else case short_escape c of Some e \<Rightarrow> [CHR 0x5C, e] | None \<Rightarrow> CHR 0x5C # hex4 c)"

definition escaped :: "string \<Rightarrow> string" where
  "escaped s = concat (map escape s)"

definition quoted :: "string \<Rightarrow> string" where
  "quoted s = CHR 0x22 # escaped s @ [CHR 0x22]"

lemma plain_char_extra: "plain_char c \<longleftrightarrow> escape_extra c = 0"
  by (auto simp: plain_char_def escape_extra_def short_escape_def)

lemma length_escape: "length (escape c) = 1 + escape_extra c"
  using plain_char_extra [of c] by (auto simp: escape_def escape_extra_def hex4_def split: option.splits if_splits)

lemma length_escaped: "length (escaped s) = length s + sum_list (map escape_extra s)"
  by (induction s) (simp_all add: escaped_def length_escape)

lemma escaped_plain: "sum_list (map escape_extra s) = 0 \<Longrightarrow> escaped s = s"
  by (induction s) (simp_all add: escaped_def escape_def plain_char_extra)

lemma of_char_less: "of_char c < (256::nat)"
proof -
  have "of_char (char_of (of_char c :: nat) :: char) = (of_char c :: nat) mod 256" by (rule of_char_of)
  then show ?thesis by (metis char_of_char mod_less_divisor zero_less_numeral)
qed

lemma hex_digit_not_NUL: "n < 16 \<Longrightarrow> hex_digit n \<noteq> CHR 0x00"
proof
  assume n: "n < 16" and "hex_digit n = CHR 0x00"
  then have "of_char (hex_digit n) = (0::nat)" by simp
  with n show False by (auto simp: hex_digit_def split: if_splits)
qed

lemma escape_no_NUL: "CHR 0x00 \<notin> set (escape c)"
proof -
  have "of_char c div 16 < (16::nat)" by (rule less_mult_imp_div_less) (use of_char_less [of c] in simp)
  then show ?thesis
    using hex_digit_not_NUL [of "of_char c div 16"] hex_digit_not_NUL [of "of_char c mod 16"]
    by (auto simp: escape_def hex4_def short_escape_def plain_char_def split: option.splits if_splits)
qed

lemma escaped_no_NUL: "CHR 0x00 \<notin> set (escaped s)"
  using escape_no_NUL by (auto simp: escaped_def)

text \<open>
  The loop writes the escapes; behind them it may leave the NUL of the last \<open>sprintf\<close>, one byte that the
  closing quote then overwrites.
\<close>

lemma escape_loop_ok:
  assumes "pb_buffer p = Live b" "at + length (escaped s) < length b"
  shows "\<exists>b'. escape_loop s at p = Some (p\<lparr>pb_buffer := Live b'\<rparr>) \<and> length b' = length b
    \<and> take (at + length (escaped s)) b' = take at b @ map Some (escaped s)"
  using assms
proof (induction s arbitrary: at p b)
  case Nil
  then show ?case by (auto simp: escaped_def intro!: exI [of _ b])
next
  case (Cons c s)
  define z where "z = (if plain_char c \<or> short_escape c \<noteq> None then [] else [CHR 0x00])"
  define b1 where "b1 = take at b @ map Some (escape c @ z) @ drop (at + length (escape c @ z)) b"
  define p1 where "p1 = p\<lparr>pb_buffer := Live b1\<rparr>"
  have es: "escaped (c # s) = escape c @ escaped s" by (simp add: escaped_def)
  have z: "length z \<le> 1" by (simp add: z_def)
  have fit: "at + length (escape c @ z) \<le> length b" using Cons(3) z es by simp
  then have put: "put_chars at (escape c @ z) p = Some p1" using Cons(2) by (simp add: put_chars_def p1_def b1_def)
  have loop: "escape_loop (c # s) at p = escape_loop s (at + length (escape c)) p1"
  proof (cases "plain_char c \<or> short_escape c \<noteq> None")
    case True
    then show ?thesis using put by (auto simp: escape_def z_def split: option.splits if_splits)
  next
    case False
    then have "escape c = CHR 0x5C # hex4 c" "length (escape c) = 6" "z = [CHR 0x00]"
      by (simp_all add: escape_def hex4_def z_def)
    with False put show ?thesis by simp
  qed
  have len: "length b1 = length b" using fit by (simp add: b1_def)
  have b1: "pb_buffer p1 = Live b1" by (simp add: p1_def)
  from Cons(1) [OF b1, of "at + length (escape c)"] Cons(3) es len
  obtain b' where b': "escape_loop s (at + length (escape c)) p1 = Some (p1\<lparr>pb_buffer := Live b'\<rparr>)" "length b' = length b1"
    "take (at + length (escape c) + length (escaped s)) b' = take (at + length (escape c)) b1 @ map Some (escaped s)"
    by (auto simp: add.assoc)
  have "min (length b) at = at" using fit by simp
  then have "take (at + length (escape c)) b1 = take at b @ map Some (escape c)"
    by (simp add: b1_def)
  then show ?case
    using loop b' len es by (auto simp: p1_def add.assoc)
qed

lemma take_put: "a \<le> length b \<Longrightarrow> take (a + length w) (take a b @ w @ r) = take a b @ w"
  by simp

lemma prints_string_ptr:
  assumes "pb_wf p" "CHR 0x00 \<notin> set s"
  shows "prints p m (quoted s) (print_string_ptr (Some s) p m)"
proof -
  define n where "n = length (escaped s) + 3"
  obtain r p1 m1 where 1: "ensure p n m = Some (r, p1, m1)" "pb_buffer p1 \<noteq> Freed_Buf"
    "r \<noteq> None \<Longrightarrow> r = Some (pb_offset p) \<and> extends p [] p1 \<and> pb_offset p + n + 1 \<le> pb_length p1
         \<and> pb_depth p1 = pb_depth p \<and> (all_ok m \<longrightarrow> all_ok m1)"
    "room p m (n + 1) \<Longrightarrow> r \<noteq> None" "pb_noalloc p \<Longrightarrow> p1 = p"
    using ensure_ok [OF assms(1), of n m] by blast
  have n: "n = length s + sum_list (map escape_extra s) + 3" by (simp add: n_def length_escaped)
  have eq: "print_string_ptr (Some s) p m = (case r of
       None \<Rightarrow> Some (False, p1, m1)
     | Some at \<Rightarrow>
         (if sum_list (map escape_extra s) = 0
          then do { p \<leftarrow> put_chars at (CHR 0x22 # s @ [CHR 0x22, CHR 0x00]) p1; Some (True, p, m1) }
          else do {
            p \<leftarrow> put_chars at [CHR 0x22] p1;
            p \<leftarrow> escape_loop s (at + 1) p;
            p \<leftarrow> put_chars (at + length (escaped s) + 1) [CHR 0x22, CHR 0x00] p;
            Some (True, p, m1)
          }))"
    using 1(1) unfolding n length_escaped by (simp add: print_string_ptr_def Let_def)
  have live: "keeps_live p p1" using 1(5) assms(1) by (auto simp: keeps_live_def pb_wf_def)
  show ?thesis
  proof (cases r)
    case None
    then have "\<not> room p m (length (quoted s) + 2)" using 1(4) by (auto simp: quoted_def n_def eval_nat_numeral)
    then show ?thesis using None eq 1(2) live by (auto simp: prints_def)
  next
    case (Some at)
    have 2: "at = pb_offset p" "extends p [] p1" "pb_offset p + n + 1 \<le> pb_length p1" "pb_depth p1 = pb_depth p"
      "all_ok m \<longrightarrow> all_ok m1" using 1(3) Some by auto
    obtain b b1 where b: "pb_buffer p = Live b" "pb_buffer p1 = Live b1" "pb_offset p1 = pb_offset p"
        "take (pb_offset p) b1 = take (pb_offset p) b" "pb_length p1 \<le> length b1" "pb_noalloc p \<longrightarrow> length b1 = length b"
      using 2(2) by (auto simp: extends_def pb_wf_def)
    have "\<exists>b2. print_string_ptr (Some s) p m = Some (True, p1\<lparr>pb_buffer := Live b2\<rparr>, m1) \<and> length b2 = length b1
      \<and> take (pb_offset p + length (quoted s) + 1) b2 = take (pb_offset p) b1 @ map Some (quoted s @ [CHR 0x00])"
    proof (cases "sum_list (map escape_extra s) = 0")
      case True
      then have q: "quoted s = CHR 0x22 # s @ [CHR 0x22]" by (simp add: quoted_def escaped_plain)
      then have "pb_offset p + length (quoted s) + 1 \<le> length b1" using 2(3) b(5) n True by simp
      moreover define w where "w = quoted s @ [CHR 0x00]"
      ultimately have fit: "pb_offset p + length w \<le> length b1" by simp
      have "print_string_ptr (Some s) p m = do { p \<leftarrow> put_chars (pb_offset p) w p1; Some (True, p, m1) }"
        using eq Some 2(1) True q by (simp add: w_def)
      then show ?thesis
        using fit b(2) take_put [of "pb_offset p" b1 "map Some w"] unfolding w_def [symmetric]
        by (intro exI [of _ "take (pb_offset p) b1 @ map Some w @ drop (pb_offset p + length w) b1"])
          (simp add: put_chars_def w_def)
    next
      case False
      have fit: "pb_offset p + length (escaped s) + 4 \<le> length b1" using 2(3) b(5) by (simp add: n_def)
      define c where "c = take (pb_offset p) b1 @ [Some (CHR 0x22)] @ drop (pb_offset p + 1) b1"
      define pc where "pc = p1\<lparr>pb_buffer := Live c\<rparr>"
      have c: "put_chars (pb_offset p) [CHR 0x22] p1 = Some pc" "length c = length b1"
        using fit b(2) by (simp_all add: put_chars_def c_def pc_def)
      obtain d where d: "escape_loop s (pb_offset p + 1) pc = Some (pc\<lparr>pb_buffer := Live d\<rparr>)" "length d = length c"
        "take (pb_offset p + 1 + length (escaped s)) d = take (pb_offset p + 1) c @ map Some (escaped s)"
        using escape_loop_ok [of pc c "pb_offset p + 1" s] fit c(2) by (auto simp: pc_def)
      define e where "e = take (pb_offset p + length (escaped s) + 1) d @ map Some [CHR 0x22, CHR 0x00]
          @ drop (pb_offset p + length (escaped s) + 3) d"
      have put: "put_chars (pb_offset p + length (escaped s) + 1) [CHR 0x22, CHR 0x00] (pc\<lparr>pb_buffer := Live d\<rparr>)
          = Some (p1\<lparr>pb_buffer := Live e\<rparr>)"
        using fit c(2) d(2) by (simp add: put_chars_def e_def pc_def eval_nat_numeral)
      have run: "print_string_ptr (Some s) p m = Some (True, p1\<lparr>pb_buffer := Live e\<rparr>, m1)"
        using eq c(1) d(1) put unfolding Some 2(1) option.case if_not_P [OF False] by simp
      have "take (pb_offset p + 1) c = take (pb_offset p) b1 @ [Some (CHR 0x22)]"
        using fit by (simp add: c_def min_def)
      then have e: "e = take (pb_offset p) b1 @ map Some (quoted s @ [CHR 0x00]) @ drop (pb_offset p + length (escaped s) + 3) d"
        using d(3) by (simp add: e_def quoted_def add.commute add.left_commute)
      have "length e = length b1" using fit c(2) d(2) by (simp add: e_def)
      moreover have "take (pb_offset p + length (quoted s) + 1) e = take (pb_offset p) b1 @ map Some (quoted s @ [CHR 0x00])"
        using take_put [of "pb_offset p" b1 "map Some (quoted s @ [CHR 0x00])"] fit unfolding e by (simp add: add.assoc)
      ultimately show ?thesis using run by blast
    qed
    then obtain b2 where b2: "print_string_ptr (Some s) p m = Some (True, p1\<lparr>pb_buffer := Live b2\<rparr>, m1)" "length b2 = length b1"
      "take (pb_offset p + length (quoted s) + 1) b2 = take (pb_offset p) b1 @ map Some (quoted s @ [CHR 0x00])" by blast
    have "\<exists>p''. update_offset (p1\<lparr>pb_buffer := Live b2\<rparr>) = Some p'' \<and> extends p (quoted s) p''"
      using update_offset_text [OF 2(2) b(2) b2(2,3)] 2(3) escaped_no_NUL [of s] by (simp add: quoted_def n_def)
    moreover have "0 < pb_length p1" using 2(3) by simp
    moreover have "keeps_live p (p1\<lparr>pb_buffer := Live b2\<rparr>)" using b b2(2) by (auto simp: keeps_live_def)
    ultimately show ?thesis unfolding prints_def b2(1) using 2(4,5) by (intro exI conjI) (rule refl, auto)
  qed
qed

section \<open>The rendered text\<close>

text \<open>
  The text of an item, as a function: the reference that the buffered printers are compared with.
  \<open>d\<close> is the nesting depth, used for indentation.
\<close>

definition text_of :: "string option \<Rightarrow> string" where
  "text_of s = (case s of None \<Rightarrow> [] | Some s \<Rightarrow> s)"

definition number_text :: "'d fp \<Rightarrow> 'd \<Rightarrow> string" where
  "number_text fp d = dot_point fp (the (number_buffer fp d))"

fun render :: "'d fp \<Rightarrow> bool \<Rightarrow> nat \<Rightarrow> 'd cJSON \<Rightarrow> string"
  and render_elements :: "'d fp \<Rightarrow> bool \<Rightarrow> nat \<Rightarrow> 'd cJSON list \<Rightarrow> string"
  and render_members :: "'d fp \<Rightarrow> bool \<Rightarrow> nat \<Rightarrow> 'd cJSON list \<Rightarrow> string" where
  "render fp fmt d (CJSON t vs vi vd nm cs) =
     (if t AND 0xFF = cJSON_NULL then ''null''
      else if t AND 0xFF = cJSON_False then ''false''
      else if t AND 0xFF = cJSON_True then ''true''
      else if t AND 0xFF = cJSON_Number then number_text fp vd
      else if t AND 0xFF = cJSON_Raw then text_of vs
      else if t AND 0xFF = cJSON_String then quoted (text_of vs)
      else if t AND 0xFF = cJSON_Array then ''['' @ render_elements fp fmt (d + 1) cs @ '']''
      else (if fmt then [CHR ''{'', NL] else ''{'') @ render_members fp fmt (d + 1) cs
           @ (if fmt then replicate d TAB else []) @ ''}'')"
| "render_elements fp fmt d [] = []"
| "render_elements fp fmt d (c # cs) =
     render fp fmt d c @ (if cs \<noteq> [] then (if fmt then '', '' else '','') else []) @ render_elements fp fmt d cs"
| "render_members fp fmt d [] = []"
| "render_members fp fmt d (c # cs) =
     (if fmt then replicate d TAB else []) @ quoted (text_of (name_of c)) @ (if fmt then [CHR '':'', TAB] else '':'')
     @ render fp fmt d c @ ((if cs \<noteq> [] then '','' else []) @ (if fmt then [NL] else [])) @ render_members fp fmt d cs"

text \<open>Items that can be printed: known kinds, numbers that fit the number buffer, C strings, raw items with a string.\<close>

definition c_string :: "string option \<Rightarrow> bool" where
  "c_string s \<longleftrightarrow> CHR 0x00 \<notin> set (text_of s)"

fun printable :: "'d fp \<Rightarrow> 'd cJSON \<Rightarrow> bool" where
  "printable fp (CJSON t vs vi vd nm cs) \<longleftrightarrow> valid_kind (t AND 0xFF) \<and> c_string vs \<and> c_string nm
     \<and> (t AND 0xFF = cJSON_Number \<longrightarrow> number_buffer fp vd \<noteq> None)
     \<and> (t AND 0xFF = cJSON_Raw \<longrightarrow> vs \<noteq> None)
     \<and> (\<forall>c \<in> set cs. printable fp c)"

lemma prints_text:
  assumes "pb_wf p" "c_string s"
  shows "prints p m (quoted (text_of s)) (print_string_ptr s p m)"
proof (cases s)
  case None
  have q: "quoted [] = [CHR 0x22, CHR 0x22]" by (simp add: quoted_def escaped_def)
  have "prints p m ([] @ [CHR 0x22, CHR 0x22]) (emit 3 [] ([CHR 0x22, CHR 0x22] @ [CHR 0x00]) p m)"
    by (rule prints_emit [OF assms(1)]) simp_all
  then show ?thesis using None q by (simp add: text_of_def print_string_ptr_def)
next
  case (Some t)
  then show ?thesis using prints_string_ptr [OF assms(1), of t] assms(2) by (simp add: text_of_def c_string_def)
qed

lemma and_then_assoc: "and_then (and_then r k) f = and_then r (\<lambda>p m. and_then (k p m) f)"
  by (cases r) (auto simp: and_then_def)

lemma emits_depth: "emits (p\<lparr>pb_depth := d\<rparr>) m s r \<Longrightarrow> pb_depth p = d \<Longrightarrow> emits p m s r"
  by (auto simp: emits_def keeps_live_def)

lemma update_offset_depth:
  "update_offset (p\<lparr>pb_depth := d\<rparr>) = map_option (\<lambda>q. q\<lparr>pb_depth := d\<rparr>) (update_offset p)"
  by (auto simp: update_offset_def split: pbuf.splits bind_splits option.splits)

lemma prints_nested:
  assumes "prints (p\<lparr>pb_depth := pb_depth p + 1\<rparr>) m s r"
  shows "prints p m s (and_then r (\<lambda>p m. Some (True, p\<lparr>pb_depth := pb_depth p - 1\<rparr>, m)))"
proof -
  obtain ok p1 m1 where 1: "r = Some (ok, p1, m1)" "pb_buffer p1 \<noteq> Freed_Buf" "keeps_live p p1"
    "ok \<Longrightarrow> (\<exists>p''. update_offset p1 = Some p'' \<and> extends p s p'') \<and> 0 < pb_length p1 \<and> pb_depth p1 = pb_depth p + 1 \<and> (all_ok m \<longrightarrow> all_ok m1)"
    "room p m (length s + 2) \<Longrightarrow> ok"
    using assms unfolding prints_def by (auto simp: keeps_live_def)
  show ?thesis
  proof (cases ok)
    case False
    then show ?thesis using 1 by (auto simp: prints_def and_then_def)
  next
    case True
    then obtain p2 where "update_offset p1 = Some p2" "extends p s p2" using 1(4) by blast
    then have "update_offset (p1\<lparr>pb_depth := pb_depth p\<rparr>) = Some (p2\<lparr>pb_depth := pb_depth p\<rparr>)"
      "extends p s (p2\<lparr>pb_depth := pb_depth p\<rparr>)" by (simp_all add: update_offset_depth)
    then show ?thesis
      using 1 True by (auto simp: prints_def and_then_def keeps_live_def)
  qed
qed

lemma prints_elements:
  assumes "\<And>c p m. c \<in> set cs \<Longrightarrow> pb_wf p \<Longrightarrow> prints p m (render fp (pb_format p) (pb_depth p) c) (print_value fp c p m)"
    and "pb_wf p"
  shows "emits p m (render_elements fp (pb_format p) (pb_depth p) cs) (print_elements fp cs p m)"
  using assms
proof (induction cs arbitrary: p m)
  case Nil
  then show ?case by (simp add: emits_nothing)
next
  case (Cons c cs)
  have v: "emits p m (render fp (pb_format p) (pb_depth p) c) (and_then (print_value fp c p m) advance)"
    by (rule prints_advance, rule Cons(2)) (simp_all add: Cons(3))
  have sep: "emits p1 m1 (if cs \<noteq> [] then (if pb_format p then '', '' else '','') else [])
      (if cs \<noteq> [] then emit (if pb_format p1 then 3 else 2) (if pb_format p1 then '', '' else '','') [CHR 0x00] p1 m1
       else Some (True, p1, m1))" if "pb_wf p1" "pb_format p1 = pb_format p" for p1 m1
    using that emits_nothing [OF that(1)] by (auto intro!: emits_emit)
  let ?k = "\<lambda>p m. if cs \<noteq> [] then emit (if pb_format p then 3 else 2) (if pb_format p then '', '' else '','') [CHR 0x00] p m
      else Some (True, p, m)"
  let ?B = "if cs \<noteq> [] then (if pb_format p then '', '' else '','') else []"
  have b: "emits p m (render fp (pb_format p) (pb_depth p) c @ ?B) (and_then (and_then (print_value fp c p m) advance) ?k)"
    by (rule emits_then [OF v]) (metis sep extendsD(1,3))
  have "emits p m ((render fp (pb_format p) (pb_depth p) c @ ?B) @ render_elements fp (pb_format p) (pb_depth p) cs)
      (and_then (and_then (and_then (print_value fp c p m) advance) ?k) (print_elements fp cs))"
  proof (rule emits_then [OF b])
    fix p1 m1
    assume x: "extends p (render fp (pb_format p) (pb_depth p) c @ ?B) p1" "pb_depth p1 = pb_depth p"
    have "emits p1 m1 (render_elements fp (pb_format p1) (pb_depth p1) cs) (print_elements fp cs p1 m1)"
      by (rule Cons(1), rule Cons(2)) (simp_all add: extendsD(1) [OF x(1)])
    then show "emits p1 m1 (render_elements fp (pb_format p) (pb_depth p) cs) (print_elements fp cs p1 m1)"
      using extendsD(3) [OF x(1)] x(2) by simp
  qed
  then show ?case by (simp add: and_then_assoc)
qed

lemma emits_step:
  assumes "emits p m s r"
    and "\<And>p1 m1. pb_wf p1 \<Longrightarrow> pb_format p1 = pb_format p \<Longrightarrow> pb_depth p1 = pb_depth p \<Longrightarrow> emits p1 m1 t (k p1 m1)"
  shows "emits p m (s @ t) (and_then r k)"
  by (rule emits_then [OF assms(1)]) (metis assms(2) extendsD(1,3))

lemma prints_step:
  assumes "emits p m s r"
    and "\<And>p1 m1. pb_wf p1 \<Longrightarrow> pb_format p1 = pb_format p \<Longrightarrow> pb_depth p1 = pb_depth p \<Longrightarrow> prints p1 m1 t (k p1 m1)"
  shows "prints p m (s @ t) (and_then r k)"
  by (rule prints_then [OF assms(1)]) (metis assms(2) extendsD(1,3))

lemma prints_members:
  assumes "\<And>c p m. c \<in> set cs \<Longrightarrow> pb_wf p \<Longrightarrow> prints p m (render fp (pb_format p) (pb_depth p) c) (print_value fp c p m)"
    and "\<And>c. c \<in> set cs \<Longrightarrow> c_string (name_of c)" and "pb_wf p"
  shows "emits p m (render_members fp (pb_format p) (pb_depth p) cs) (print_members fp cs p m)"
  using assms
proof (induction cs arbitrary: p m)
  case Nil
  then show ?case by (simp add: emits_nothing)
next
  case (Cons c cs)
  define fmt d where "fmt = pb_format p" and "d = pb_depth p"
  let ?I = "if fmt then replicate d TAB else []" and ?Q = "quoted (text_of (name_of c))"
    and ?C = "if fmt then [CHR '':'', TAB] else '':''" and ?V = "render fp fmt d c"
    and ?S = "(if cs \<noteq> [] then '','' else []) @ (if fmt then [NL] else [])" and ?R = "render_members fp fmt d cs"
  let ?kI = "if pb_format p then emit (pb_depth p) (replicate (pb_depth p) TAB) [] p m else Some (True, p, m)"
    and ?kQ = "\<lambda>p m. and_then (print_string_ptr (name_of c) p m) advance"
    and ?kC = "\<lambda>p m. emit (if pb_format p then 2 else 1) (if pb_format p then [CHR '':'', TAB] else '':'') [] p m"
    and ?kV = "\<lambda>p m. and_then (print_value fp c p m) advance"
    and ?kS = "\<lambda>p m. emit ((if pb_format p then 1 else 0) + (if cs \<noteq> [] then 1 else 0) + 1)
         ((if cs \<noteq> [] then '','' else []) @ (if pb_format p then [NL] else [])) [CHR 0x00] p m"
  have 1: "emits p m ?I ?kI"
    using Cons(4) emits_nothing [OF Cons(4)] by (auto simp: fmt_def d_def intro!: emits_emit)
  have 2: "emits p m (?I @ ?Q) (and_then ?kI ?kQ)"
    by (rule emits_step [OF 1], rule prints_advance, rule prints_text) (simp_all add: Cons(3))
  have 3: "emits p m ((?I @ ?Q) @ ?C) (and_then (and_then ?kI ?kQ) ?kC)"
    by (rule emits_step [OF 2]) (auto simp: fmt_def intro!: emits_emit)
  have 4: "emits p m (((?I @ ?Q) @ ?C) @ ?V) (and_then (and_then (and_then ?kI ?kQ) ?kC) ?kV)"
  proof (rule emits_step [OF 3])
    fix p1 m1
    assume x: "pb_wf p1" "pb_format p1 = pb_format p" "pb_depth p1 = pb_depth p"
    have "prints p1 m1 (render fp (pb_format p1) (pb_depth p1) c) (print_value fp c p1 m1)"
      by (rule Cons(2)) (simp_all add: x)
    then show "emits p1 m1 ?V (and_then (print_value fp c p1 m1) advance)"
      unfolding x(2,3) fmt_def [symmetric] d_def [symmetric] by (rule prints_advance)
  qed
  have 5: "emits p m ((((?I @ ?Q) @ ?C) @ ?V) @ ?S) (and_then (and_then (and_then (and_then ?kI ?kQ) ?kC) ?kV) ?kS)"
    by (rule emits_step [OF 4]) (auto simp: fmt_def intro!: emits_emit)
  have "emits p m (((((?I @ ?Q) @ ?C) @ ?V) @ ?S) @ ?R)
      (and_then (and_then (and_then (and_then (and_then ?kI ?kQ) ?kC) ?kV) ?kS) (print_members fp cs))"
  proof (rule emits_step [OF 5])
    fix p1 m1
    assume x: "pb_wf p1" "pb_format p1 = pb_format p" "pb_depth p1 = pb_depth p"
    have "emits p1 m1 (render_members fp (pb_format p1) (pb_depth p1) cs) (print_members fp cs p1 m1)"
      by (rule Cons(1), rule Cons(2)) (simp_all add: x Cons(3))
    then show "emits p1 m1 ?R (print_members fp cs p1 m1)" using x by (simp add: fmt_def d_def)
  qed
  then show ?case
    unfolding print_members.simps render_members.simps and_then_assoc append_assoc fmt_def d_def .
qed

lemma prints_literal: "pb_wf p \<Longrightarrow> CHR 0x00 \<notin> set s \<Longrightarrow> prints p m s (emit (length s + 1) [] (s @ [CHR 0x00]) p m)"
  using prints_emit [of p "[]" s "length s + 1" m] by simp

lemma prints_value:
  "printable fp item \<Longrightarrow> pb_wf p \<Longrightarrow> prints p m (render fp (pb_format p) (pb_depth p) item) (print_value fp item p m)"
proof (induction item arbitrary: p m)
  case (CJSON t vs vi vd nm cs)
  have cs: "prints p m (render fp (pb_format p) (pb_depth p) c) (print_value fp c p m)" if "c \<in> set cs" "pb_wf p" for c p m
    using CJSON(1) CJSON(2) that by simp
  have valid: "valid_kind (t AND 0xFF)" using CJSON(2) by simp
  have fixed: "prints p m ''null'' (emit 5 [] (''null'' @ [CHR 0x00]) p m)"
    "prints p m ''false'' (emit 6 [] (''false'' @ [CHR 0x00]) p m)" "prints p m ''true'' (emit 5 [] (''true'' @ [CHR 0x00]) p m)"
    using prints_emit [OF CJSON(3), of "[]" "''null''" 5 m] prints_emit [OF CJSON(3), of "[]" "''false''" 6 m]
      prints_emit [OF CJSON(3), of "[]" "''true''" 5 m] by simp_all
  from valid show ?case
  proof (cases rule: valid_kind_cases)
    case 1
    then show ?thesis using fixed kinds_distinct by simp
  next
    case 2
    then show ?thesis using fixed kinds_distinct by simp
  next
    case 3
    then show ?thesis using fixed kinds_distinct by simp
  next
    case 4
    then obtain s where s: "number_buffer fp vd = Some s" using CJSON(2) by auto
    have "prints p m (dot_point fp s @ []) (emit (length s) (dot_point fp s) ([] @ [CHR 0x00]) p m)"
      by (rule prints_emit [OF CJSON(3)]) (simp_all add: dot_point_def)
    then show ?thesis using 4 s kinds_distinct by (simp add: print_number_def number_text_def)
  next
    case 5
    then show ?thesis using prints_text [OF CJSON(3), of vs m] CJSON(2) by (simp add: cjson_types)
  next
    case 6
    then obtain s where "vs = Some s" "CHR 0x00 \<notin> set s" using CJSON(2) by (auto simp: c_string_def text_of_def)
    then show ?thesis using 6 prints_literal [OF CJSON(3), of s m] kinds_distinct by (simp add: text_of_def)
  next
    case 7
    have "prints p m (''['' @ render_elements fp (pb_format p) (pb_depth p + 1) cs @ '']'')
        (and_then (emit 1 ''['' [] p m) (\<lambda>p m.
        and_then (and_then (print_elements fp cs (p\<lparr>pb_depth := pb_depth p + 1\<rparr>) m)
          (\<lambda>p m. emit 2 [] ('']'' @ [CHR 0x00]) p m)) (\<lambda>p m. Some (True, p\<lparr>pb_depth := pb_depth p - 1\<rparr>, m))))"
    proof (rule prints_step)
      show "emits p m ''['' (emit 1 ''['' [] p m)" by (rule emits_emit [OF CJSON(3)]) simp_all
      fix p1 m1
      assume x: "pb_wf p1" "pb_format p1 = pb_format p" "pb_depth p1 = pb_depth p"
      let ?q = "p1\<lparr>pb_depth := pb_depth p1 + 1\<rparr>"
      have e: "emits ?q m1 (render_elements fp (pb_format ?q) (pb_depth ?q) cs) (print_elements fp cs ?q m1)"
        by (rule prints_elements [OF cs]) (simp_all add: x)
      have "prints ?q m1 (render_elements fp (pb_format ?q) (pb_depth ?q) cs @ '']'')
          (and_then (print_elements fp cs ?q m1) (\<lambda>p m. emit 2 [] ('']'' @ [CHR 0x00]) p m))"
        by (rule prints_step [OF e], insert prints_emit [of _ "[]" "'']''" 2]) simp
      then show "prints p1 m1 (render_elements fp (pb_format p) (pb_depth p + 1) cs @ '']'')
          (and_then (and_then (print_elements fp cs ?q m1) (\<lambda>p m. emit 2 [] ('']'' @ [CHR 0x00]) p m))
            (\<lambda>p m. Some (True, p\<lparr>pb_depth := pb_depth p - 1\<rparr>, m)))"
        using prints_nested [of p1 m1] x by simp
    qed
    then show ?thesis using 7 kinds_distinct by (simp add: and_then_assoc)
  next
    case 8
    let ?O = "if pb_format p then [CHR ''{'', NL] else ''{''"
    let ?kE = "\<lambda>p m. emit (if pb_format p then pb_depth p + 1 else 2) []
            ((if pb_format p then replicate (pb_depth p - 1) TAB else []) @ [CHR ''}'', CHR 0x00]) p m"
    let ?E = "(if pb_format p then replicate (pb_depth p) TAB else []) @ ''}''"
    have "prints p m (?O @ render_members fp (pb_format p) (pb_depth p + 1) cs @ ?E)
        (and_then (emit (if pb_format p then 3 else 2) ?O [] p m) (\<lambda>p m.
        and_then (and_then (print_members fp cs (p\<lparr>pb_depth := pb_depth p + 1\<rparr>) m) ?kE)
          (\<lambda>p m. Some (True, p\<lparr>pb_depth := pb_depth p - 1\<rparr>, m))))"
    proof (rule prints_step)
      show "emits p m ?O (emit (if pb_format p then 3 else 2) ?O [] p m)" using CJSON(3) by (auto intro!: emits_emit)
      fix p1 m1
      assume x: "pb_wf p1" "pb_format p1 = pb_format p" "pb_depth p1 = pb_depth p"
      let ?q = "p1\<lparr>pb_depth := pb_depth p1 + 1\<rparr>"
      have "c_string (name_of c)" if "c \<in> set cs" for c
        using CJSON(2) that by (cases c) auto
      then have e: "emits ?q m1 (render_members fp (pb_format ?q) (pb_depth ?q) cs) (print_members fp cs ?q m1)"
        by (intro prints_members [OF cs]) (simp_all add: x)
      have "prints ?q m1 (render_members fp (pb_format ?q) (pb_depth ?q) cs @ ?E) (and_then (print_members fp cs ?q m1) ?kE)"
      proof (rule prints_step [OF e])
        fix p2 m2
        assume y: "pb_wf p2" "pb_format p2 = pb_format ?q" "pb_depth p2 = pb_depth ?q"
        have "prints p2 m2 ([] @ ?E) (emit (if pb_format p then pb_depth p + 2 else 2) [] (?E @ [CHR 0x00]) p2 m2)"
          by (rule prints_emit [OF y(1)]) (auto simp: TAB_def)
        then show "prints p2 m2 ?E (?kE p2 m2)" using x y by (auto split: if_splits)
      qed
      then show "prints p1 m1 (render_members fp (pb_format p) (pb_depth p + 1) cs @ ?E)
          (and_then (and_then (print_members fp cs ?q m1) ?kE) (\<lambda>p m. Some (True, p\<lparr>pb_depth := pb_depth p - 1\<rparr>, m)))"
        using prints_nested [of p1 m1] x by simp
    qed
    then show ?thesis using 8 kinds_distinct by (simp add: and_then_assoc)
  qed
qed

section \<open>The entry points\<close>

text \<open>A buffer that begins with a text and its NUL.\<close>

definition holds_text :: "char option list \<Rightarrow> string \<Rightarrow> bool" where
  "holds_text b s \<longleftrightarrow> take (length s + 1) b = map Some (s @ [CHR 0x00])"

text \<open>After a successful run from offset 0 the buffer holds the text.\<close>

lemma strlen_at_NUL: "strlen_at b = Some n \<Longrightarrow> n < length b \<and> b ! n = Some (CHR 0x00)"
  by (induction b arbitrary: n rule: strlen_at.induct) (auto split: if_splits)

lemma update_offset_holds:
  assumes "update_offset p' = Some p''" "extends p s p''" "pb_offset p = 0" "0 < pb_length p'"
  shows "\<exists>b. pb_buffer p' = Live b \<and> pb_buffer p'' = Live b \<and> holds_text b s \<and> pb_offset p'' = length s
    \<and> pb_length p'' = pb_length p' \<and> length s < pb_length p'' \<and> pb_length p'' \<le> length b"
proof -
  obtain b where b: "pb_buffer p'' = Live b" "take (length s) b = map Some s" "pb_offset p'' = length s" "pb_wf p''"
    using assms(2,3) by (auto simp: extends_def)
  then have b': "pb_buffer p' = Live b" using update_offset_same [OF assms(1)] by simp
  then obtain n where n: "strlen_at (drop (pb_offset p') b) = Some n" "p'' = p'\<lparr>pb_offset := pb_offset p' + n\<rparr>"
    using assms(1) by (auto simp: update_offset_def split: bind_splits)
  then have "length s < length b" "b ! length s = Some (CHR 0x00)" using strlen_at_NUL [OF n(1)] b(3) by auto
  then have "holds_text b s" using b(2) by (simp add: holds_text_def take_Suc_conv_app_nth)
  moreover have "length s < pb_length p''" using b(3,4) n(2) assms(4) by (auto simp: pb_wf_def)
  ultimately show ?thesis using b b' n(2) by (auto simp: pb_wf_def)
qed

lemma print_ok:
  assumes "printable fp item"
  shows "\<exists>r m'. print fp (Some item) fmt reallocate m = Some (r, m')
    \<and> (\<forall>b. r = Some b \<longrightarrow> holds_text b (render fp fmt 0 item))
    \<and> (all_ok m \<and> int (length (render fp fmt 0 item)) + 2 \<le> INT_MAX \<longrightarrow> r \<noteq> None)"
proof -
  obtain ok0 m0 where m0: "malloc_ok m = (ok0, m0)" by (rule prod.exhaust)
  show ?thesis
  proof (cases ok0)
    case False
    then show ?thesis using m0 by (auto simp: print_def dest: malloc_all_ok)
  next
    case True
    have okm: "all_ok m \<Longrightarrow> all_ok m0" using m0 malloc_all_ok [of m] by auto
    define p where "p = \<lparr>pb_buffer = Live (replicate 256 None), pb_length = 0, pb_offset = 0, pb_depth = 0,
                      pb_noalloc = False, pb_format = fmt, pb_reallocate = reallocate\<rparr>"
    have wf: "pb_wf p" by (simp add: pb_wf_def p_def INT_MAX_def)
    let ?s = "render fp fmt 0 item"
    obtain ok p1 m1 where 1: "print_value fp item p m0 = Some (ok, p1, m1)" "pb_buffer p1 \<noteq> Freed_Buf"
      "ok \<Longrightarrow> (\<exists>p''. update_offset p1 = Some p'' \<and> extends p ?s p'') \<and> 0 < pb_length p1 \<and> (all_ok m0 \<longrightarrow> all_ok m1)"
      "room p m0 (length ?s + 2) \<Longrightarrow> ok"
      using prints_value [OF assms wf, of m0] unfolding prints_def by (auto simp: p_def)
    have big: "all_ok m \<and> int (length ?s) + 2 \<le> INT_MAX \<longrightarrow> ok"
      using 1(4) okm by (auto simp: room_def p_def)
    show ?thesis
    proof (cases ok)
      case False
      have "print fp (Some item) fmt reallocate m = Some (None, m1)"
        using m0 True 1(1,2) False by (simp add: print_def p_def [symmetric] deallocate_def)
      then show ?thesis using big False by auto
    next
      case True
      then obtain p2 where p2: "update_offset p1 = Some p2" "extends p ?s p2" "0 < pb_length p1" "all_ok m0 \<longrightarrow> all_ok m1" using 1(3) by blast
      obtain b where b: "pb_buffer p2 = Live b" "holds_text b ?s" "pb_offset p2 = length ?s" "length ?s < pb_length p2" "pb_length p2 \<le> length b"
        using update_offset_holds [OF p2(1,2) _ p2(3)] by (auto simp: p_def)
      obtain ok2 m2 where m2: "malloc_ok m1 = (ok2, m2)" by (rule prod.exhaust)
      have ok2: "all_ok m \<longrightarrow> ok2" using m2 malloc_all_ok [of m1] p2(4) okm by auto
      have copy: "memcpy (replicate (pb_offset p2 + 1) None) 0 b 0 (int (min (pb_length p2) (pb_offset p2 + 1))) = Some (take (length ?s + 1) b)"
      proof -
        have "min (pb_length p2) (pb_offset p2 + 1) = length ?s + 1" using b by simp
        then show ?thesis
          using b memcpy_nat [of 0 "length ?s + 1" "replicate (length ?s + 1) None" 0 b] by simp
      qed
      have last: "upd_opt (take (length ?s + 1) b) (pb_offset p2) (Some (CHR 0x00)) = Some (map Some (?s @ [CHR 0x00]))"
        using b by (simp add: holds_text_def upd_opt_def list_update_append)
      have "print fp (Some item) fmt reallocate m =
          (if \<not> ok2 then Some (None, m2) else if reallocate then Some (Some (take (pb_length p2) b), m2)
           else Some (Some (map Some (?s @ [CHR 0x00])), m2))"
        using m0 \<open>ok0\<close> 1(1) True p2(1) b(1) m2 copy last
        by (simp add: print_def p_def [symmetric])
      moreover have "holds_text (take (pb_length p2) b) ?s" using b by (simp add: holds_text_def min_def)
      moreover have "holds_text (map Some (?s @ [CHR 0x00])) ?s" by (simp add: holds_text_def)
      ultimately show ?thesis using ok2 by auto
    qed
  qed
qed

text \<open>
  C25: \<open>cJSON_Print\<close> and \<open>cJSON_PrintUnformatted\<close> agree with the reference rendering. For every printable
  item (known types, strings without NUL, numbers that fit the number buffer, raw items with a string) and every
  outcome of the allocations they return without leaving the buffer, reading an indeterminate byte or freeing
  twice; the result is NULL or the rendered text with its NUL, and it is the text whenever memory suffices and
  the text is shorter than \<open>INT_MAX\<close>.
\<close>

theorem cjson_print_correct:
  assumes "printable fp item"
  shows "(\<exists>r m'. cJSON_Print fp (Some item) reallocate m = Some (r, m')
      \<and> (\<forall>b. r = Some b \<longrightarrow> holds_text b (render fp True 0 item))
      \<and> (all_ok m \<and> int (length (render fp True 0 item)) + 2 \<le> INT_MAX \<longrightarrow> r \<noteq> None))
    \<and> (\<exists>r m'. cJSON_PrintUnformatted fp (Some item) reallocate m = Some (r, m')
      \<and> (\<forall>b. r = Some b \<longrightarrow> holds_text b (render fp False 0 item))
      \<and> (all_ok m \<and> int (length (render fp False 0 item)) + 2 \<le> INT_MAX \<longrightarrow> r \<noteq> None))"
  unfolding cJSON_Print_def cJSON_PrintUnformatted_def
  using print_ok [OF assms, of True reallocate m] print_ok [OF assms, of False reallocate m] by blast

text \<open>
  C26: \<open>cJSON_PrintPreallocated\<close> on a buffer of \<open>len\<close> bytes never writes outside it; when it reports success
  the buffer holds the rendered text, and it reports success if the buffer is two bytes longer than the
  text (the header asks for five more).
\<close>

theorem cjson_print_preallocated_correct:
  assumes "printable fp item" "length b = nat len" "0 \<le> len" "len \<le> INT_MAX"
  shows "\<exists>ok b'. cJSON_PrintPreallocated fp (Some item) (Some b) len fmt reallocate = Some (ok, Some b')
    \<and> length b' = length b \<and> (ok \<longrightarrow> holds_text b' (render fp fmt 0 item))
    \<and> (int (length (render fp fmt 0 item)) + 2 \<le> len \<longrightarrow> ok)"
proof -
  define p where "p = \<lparr>pb_buffer = Live b, pb_length = nat len, pb_offset = 0, pb_depth = 0, pb_noalloc = True,
                        pb_format = fmt, pb_reallocate = reallocate\<rparr>"
  have wf: "pb_wf p" using assms(2-4) by (simp add: pb_wf_def p_def)
  let ?s = "render fp fmt 0 item"
  obtain ok p1 m1 where 1: "print_value fp item p [] = Some (ok, p1, m1)" "keeps_live p p1"
      "ok \<Longrightarrow> (\<exists>p''. update_offset p1 = Some p'' \<and> extends p ?s p'') \<and> 0 < pb_length p1"
      "room p [] (length ?s + 2) \<Longrightarrow> ok"
    using prints_value [OF assms(1) wf, of "[]"] unfolding prints_def by (auto simp: p_def)
  obtain b' where b': "pb_buffer p1 = Live b'" "length b' = length b" using 1(2) by (auto simp: keeps_live_def p_def)
  have "holds_text b' ?s" if ok
    using 1(3) [OF that] update_offset_holds [of p1 _ p ?s] b'(1) by (auto simp: p_def)
  moreover have "ok" if "int (length ?s) + 2 \<le> len"
    using 1(4) that by (simp add: room_def p_def)
  moreover have "cJSON_PrintPreallocated fp (Some item) (Some b) len fmt reallocate = Some (ok, Some b')"
    using 1(1) b'(1) assms(3) by (simp add: cJSON_PrintPreallocated_def p_def [symmetric])
  ultimately show ?thesis using b'(2) by blast
qed

text \<open>
  \<open>cJSON_PrintBuffered\<close>: with a prebuffer that is not empty (or with \<open>reallocate\<close> available) the result
  is NULL or the rendered text.
\<close>

theorem cjson_print_buffered_correct:
  assumes "printable fp item" "0 \<le> prebuffer" "prebuffer \<le> INT_MAX" "reallocate \<or> 0 < prebuffer"
  shows "\<exists>r m'. cJSON_PrintBuffered fp (Some item) prebuffer fmt reallocate m = Some (r, m')
    \<and> (\<forall>b. r = Some b \<longrightarrow> holds_text b (render fp fmt 0 item))
    \<and> (all_ok m \<and> int (length (render fp fmt 0 item)) + 2 \<le> INT_MAX \<longrightarrow> r \<noteq> None)"
proof -
  obtain ok0 m0 where m0: "malloc_ok m = (ok0, m0)" by (rule prod.exhaust)
  show ?thesis
  proof (cases ok0)
    case False
    then show ?thesis using m0 assms(2) by (auto simp: cJSON_PrintBuffered_def dest: malloc_all_ok)
  next
    case True
    have okm: "all_ok m \<Longrightarrow> all_ok m0" using m0 malloc_all_ok [of m] by auto
    define p where "p = \<lparr>pb_buffer = Live (replicate (nat prebuffer) None), pb_length = nat prebuffer, pb_offset = 0, pb_depth = 0,
                      pb_noalloc = False, pb_format = fmt, pb_reallocate = reallocate\<rparr>"
    have wf: "pb_wf p" using assms(2-4) by (auto simp: pb_wf_def p_def)
    let ?s = "render fp fmt 0 item"
    obtain ok p1 m1 where 1: "print_value fp item p m0 = Some (ok, p1, m1)" "pb_buffer p1 \<noteq> Freed_Buf"
      "ok \<Longrightarrow> (\<exists>p''. update_offset p1 = Some p'' \<and> extends p ?s p'') \<and> 0 < pb_length p1"
      "room p m0 (length ?s + 2) \<Longrightarrow> ok"
      using prints_value [OF assms(1) wf, of m0] unfolding prints_def by (auto simp: p_def)
    have big: "all_ok m \<and> int (length ?s) + 2 \<le> INT_MAX \<longrightarrow> ok"
      using 1(4) okm by (auto simp: room_def p_def)
    show ?thesis
    proof (cases ok)
      case False
      have "cJSON_PrintBuffered fp (Some item) prebuffer fmt reallocate m = Some (None, m1)"
        using m0 True 1(1,2) False assms(2) by (simp add: cJSON_PrintBuffered_def p_def [symmetric] deallocate_def)
      then show ?thesis using big False by auto
    next
      case ok: True
      then obtain b where "pb_buffer p1 = Live b" "holds_text b ?s"
        using 1(3) update_offset_holds [of p1 _ p ?s] by (auto simp: p_def)
      moreover from this have "cJSON_PrintBuffered fp (Some item) prebuffer fmt reallocate m = Some (Some b, m1)"
        using m0 True 1(1) ok assms(2) by (simp add: cJSON_PrintBuffered_def p_def [symmetric])
      ultimately show ?thesis by auto
    qed
  qed
qed

text \<open>
  printing a raw item without a string frees the buffer twice: \<open>print_value\<close> releases it, and the
  caller releases it again.
\<close>

theorem cjson_print_raw_double_free:
  assumes "t AND 0xFF = cJSON_Raw" "fst (malloc_ok m)"
  shows "cJSON_Print fp (Some (CJSON t None vi vd nm cs)) reallocate m = None
    \<and> cJSON_PrintUnformatted fp (Some (CJSON t None vi vd nm cs)) reallocate m = None
    \<and> (0 \<le> prebuffer \<longrightarrow> cJSON_PrintBuffered fp (Some (CJSON t None vi vd nm cs)) prebuffer fmt reallocate m = None)"
  using assms by (auto simp: cJSON_Print_def cJSON_PrintUnformatted_def cJSON_PrintBuffered_def print_def
      deallocate_def cjson_types split: prod.splits)

section \<open>Witnesses\<close>

definition ex_doc :: "int cJSON" where
  "ex_doc = CJSON 64 None 0 0 None [ex_num (Some ''a'') 1, CJSON 32 None 0 0 (Some ''b'') [ex_num None 2, CJSON 16 (Some [CHR 0x0A]) 0 0 None []]]"

lemma ex_doc_printable: "printable int_fp ex_doc"
proof -
  have "number_buffer int_fp 1 = Some ''1''" "number_buffer int_fp 2 = Some ''2''" by code_simp+
  then show ?thesis
    by (simp add: ex_doc_def valid_kind_def cjson_types c_string_def text_of_def)
qed

lemma ex_doc_render: "render int_fp False 0 ex_doc = ''{'' @ [CHR 0x22] @ ''a'' @ [CHR 0x22] @ '':1,'' @ [CHR 0x22] @ ''b'' @ [CHR 0x22]
    @ '':[2,'' @ [CHR 0x22, CHR 0x5C] @ ''n'' @ [CHR 0x22] @ '']}''"
  by code_simp

theorem cjson_print_correct_witness:
  "\<exists>b m'. cJSON_PrintUnformatted int_fp (Some ex_doc) False [] = Some (Some b, m') \<and> holds_text b (render int_fp False 0 ex_doc)"
proof -
  have "int (length (render int_fp False 0 ex_doc)) + 2 \<le> INT_MAX" by (simp add: ex_doc_render INT_MAX_def)
  then show ?thesis using cjson_print_correct [OF ex_doc_printable, of False "[]"] by auto
qed

theorem cjson_print_preallocated_correct_witness:
  "\<exists>b'. cJSON_PrintPreallocated int_fp (Some ex_doc) (Some (replicate 30 None)) 30 False True = Some (True, Some b')
     \<and> holds_text b' (render int_fp False 0 ex_doc)"
  using cjson_print_preallocated_correct [OF ex_doc_printable, of "replicate 30 None" 30 False True]
  by (auto simp: ex_doc_render INT_MAX_def)

theorem cjson_print_buffered_correct_witness:
  "\<exists>b m'. cJSON_PrintBuffered int_fp (Some ex_doc) 1 False False [] = Some (Some b, m') \<and> holds_text b (render int_fp False 0 ex_doc)"
proof -
  have "int (length (render int_fp False 0 ex_doc)) + 2 \<le> INT_MAX" by (simp add: ex_doc_render INT_MAX_def)
  then show ?thesis using cjson_print_buffered_correct [OF ex_doc_printable, of 1 False False "[]"] by (auto simp: INT_MAX_def)
qed

theorem cjson_print_raw_double_free_witness:
  "cJSON_Print int_fp (Some (CJSON 128 None 0 0 None [])) True [] = None"
  using cjson_print_raw_double_free [of 128 "[]" int_fp 0 0 None "[]" True 0 False] by (simp add: cjson_types)

end
