(* ===== verification/Cjson_Parse.thy ===== *)
theory Cjson_Parse
  imports Cjson_Item
begin

text \<open>
  Parsing in cJSON (\<open>20170801/cjson.c\<close>): white space, numbers, strings with escapes and UTF-16 literals,
  arrays, objects and the entry points.

  The text is the array of its characters with the terminating NUL; every access outside it, and every
  write outside the output of \<open>parse_string\<close>, has no value (\<open>None\<close>). A value that is returned as a truth
  value in C is an option here: the finished item, or nothing on a parse error. The mutually recursive
  parsers carry fuel; \<open>cJSON_ParseWithOpts\<close> starts them with an amount that always suffices.
\<close>

section \<open>The parse buffer\<close>

record parse_buffer =
  pa_content :: string
  pa_offset :: nat
  pa_depth :: nat

abbreviation pa_length :: "parse_buffer \<Rightarrow> nat" where
  "pa_length b \<equiv> length (pa_content b)"

definition CJSON_NESTING_LIMIT :: nat where "CJSON_NESTING_LIMIT = 1000"

definition can_read :: "parse_buffer \<Rightarrow> nat \<Rightarrow> bool" where
  "can_read b n \<longleftrightarrow> pa_offset b + n \<le> pa_length b"

definition can_access_at_index :: "parse_buffer \<Rightarrow> nat \<Rightarrow> bool" where
  "can_access_at_index b i \<longleftrightarrow> pa_offset b + i < pa_length b"

definition here :: "parse_buffer \<Rightarrow> char option" where
  "here b = nth_opt (pa_content b) (pa_offset b)"

text \<open>The test \<open>can_access_at_index (b, 0) && buffer_at_offset (b)[0] == c\<close>.\<close>

definition at_char :: "parse_buffer \<Rightarrow> char \<Rightarrow> bool" where
  "at_char b c \<longleftrightarrow> here b = Some c"

definition move :: "nat \<Rightarrow> parse_buffer \<Rightarrow> parse_buffer" where
  "move n b = b\<lparr>pa_offset := pa_offset b + n\<rparr>"

definition is_blank :: "char \<Rightarrow> bool" where
  "is_blank c \<longleftrightarrow> (of_char c :: nat) \<le> 32"

definition buffer_skip_whitespace :: "parse_buffer \<Rightarrow> parse_buffer" where
  "buffer_skip_whitespace b =
     (let offset = pa_offset b + length (takeWhile is_blank (drop (pa_offset b) (pa_content b)))
      in b\<lparr>pa_offset := if offset = pa_length b then offset - 1 else offset\<rparr>)"

section \<open>Numbers\<close>

definition number_char :: "char \<Rightarrow> bool" where
  "number_char c \<longleftrightarrow> c \<in> set ''0123456789+-eE.''"

definition parse_number :: "'d fp \<Rightarrow> 'd cJSON \<Rightarrow> parse_buffer \<Rightarrow> 'd cJSON option \<times> parse_buffer" where
  "parse_number fp item b =
     (let s = map (\<lambda>c. if c = CHR ''.'' then fp_point fp else c)
                (takeWhile number_char (take 63 (drop (pa_offset b) (pa_content b))))
      in case fp_strtod fp s of (number, n) \<Rightarrow>
        if n = 0 then (None, b)
        else (Some (set_type cJSON_Number (set_valueint (saturate fp number) (set_valuedouble number item))), move n b))"

section \<open>Strings\<close>

definition hex_value :: "char \<Rightarrow> nat option" where
  "hex_value c = (let n = of_char c :: nat in
     if 48 \<le> n \<and> n \<le> 57 then Some (n - 48)
     else if 65 \<le> n \<and> n \<le> 70 then Some (10 + n - 65)
     else if 97 \<le> n \<and> n \<le> 102 then Some (10 + n - 97)
     else None)"

text \<open>\<open>parse_hex4\<close> reads four digits; it returns 0 for an invalid digit.\<close>

fun hex4_loop :: "nat \<Rightarrow> nat \<Rightarrow> string \<Rightarrow> nat option" where
  "hex4_loop 0 h s = Some h"
| "hex4_loop (Suc k) h [] = None"
| "hex4_loop (Suc k) h (c # s) =
     (case hex_value c of None \<Rightarrow> Some 0 | Some v \<Rightarrow> hex4_loop k (if k = 0 then h + v else push_bit 4 (h + v)) s)"

definition parse_hex4 :: "string \<Rightarrow> nat option" where
  "parse_hex4 input = hex4_loop 4 0 input"

text \<open>The continuation bytes, from the last to the second, and what is left of the code point.\<close>

fun utf8_tail :: "nat \<Rightarrow> nat \<Rightarrow> string \<Rightarrow> string \<times> nat" where
  "utf8_tail 0 codepoint bytes = (bytes, codepoint)"
| "utf8_tail (Suc k) codepoint bytes =
     utf8_tail k (drop_bit 6 codepoint) (char_of ((codepoint OR 0x80) AND 0xBF) # bytes)"

definition utf8_encode :: "nat \<Rightarrow> string option" where
  "utf8_encode codepoint =
     (let enc = (\<lambda>utf8_length mark. case utf8_tail (utf8_length - 1) codepoint [] of (bytes, rest) \<Rightarrow>
                   (if 1 < utf8_length then char_of ((rest OR mark) AND 0xFF) else char_of (rest AND 0x7F)) # bytes)
      in if codepoint < 0x80 then Some (enc 1 0)
         else if codepoint < 0x800 then Some (enc 2 0xC0)
         else if codepoint < 0x10000 then Some (enc 3 0xE0)
         else if codepoint \<le> 0x10FFFF then Some (enc 4 0xF0)
         else None)"

text \<open>
  The literal at the front of the input (up to the closing quote): its length and the bytes it stands
  for. \<open>None\<close> is a read outside the input; \<open>Some None\<close> an invalid literal.
\<close>

definition utf16_literal_to_utf8 :: "string \<Rightarrow> (nat \<times> string) option option" where
  "utf16_literal_to_utf8 s =
     (if length s < 6 then Some None
      else do {
        first_code \<leftarrow> parse_hex4 (drop 2 s);
        (if 0xDC00 \<le> first_code \<and> first_code \<le> 0xDFFF then Some None
         else if 0xD800 \<le> first_code \<and> first_code \<le> 0xDBFF then
           (let second = drop 6 s in
            if length second < 6 then Some None
            else if second ! 0 \<noteq> CHR 0x5C \<or> second ! 1 \<noteq> CHR ''u'' then Some None
            else do {
              second_code \<leftarrow> parse_hex4 (drop 2 second);
              (if second_code < 0xDC00 \<or> 0xDFFF < second_code then Some None
               else Some (map_option (Pair 12)
                 (utf8_encode (0x10000 + (push_bit 10 (first_code AND 0x3FF) OR (second_code AND 0x3FF))))))
            })
         else Some (map_option (Pair 6) (utf8_encode first_code)))
      })"

definition simple_escape :: "char \<Rightarrow> char option" where
  "simple_escape c =
     (if c = CHR ''b'' then Some (CHR 0x08) else if c = CHR ''f'' then Some (CHR 0x0C)
      else if c = CHR ''n'' then Some (CHR 0x0A) else if c = CHR ''r'' then Some (CHR 0x0D)
      else if c = CHR ''t'' then Some (CHR 0x09)
      else if c = CHR 0x22 \<or> c = CHR 0x5C \<or> c = CHR ''/'' then Some c else None)"

text \<open>
  The loop that decodes the characters before the closing quote into an output of \<open>cap\<close> bytes: the
  output, or how many characters were left at an error. Behind a final backslash the code reads the
  closing quote.
\<close>

function decode_loop :: "nat \<Rightarrow> string \<Rightarrow> string \<Rightarrow> (nat + string) option" where
  "decode_loop cap [] out = (if length out < cap then Some (Inr out) else None)"
| "decode_loop cap (c # s) out =
     (if c \<noteq> CHR 0x5C then (if length out < cap then decode_loop cap s (out @ [c]) else None)
      else let e = (case s of [] \<Rightarrow> CHR 0x22 | x # _ \<Rightarrow> x) in
        case simple_escape e of
          Some x \<Rightarrow> if length out < cap then decode_loop cap (tl s) (out @ [x]) else None
        | None \<Rightarrow>
            if e = CHR ''u'' then do {
              r \<leftarrow> utf16_literal_to_utf8 (c # s);
              (case r of
                 None \<Rightarrow> Some (Inl (Suc (length s)))
               | Some (n, bytes) \<Rightarrow>
                   if length out + length bytes \<le> cap then decode_loop cap (drop (n - 1) s) (out @ bytes) else None)
            }
            else Some (Inl (Suc (length s))))"
  by pat_completeness auto
termination by (relation "measure (\<lambda>(cap, s, out). length s)") auto

text \<open>
  The search for the closing quote: the characters passed and how many of them were skipped as
  backslashes; \<open>None\<close> if the string does not end.
\<close>

fun scan_string :: "string \<Rightarrow> (string \<times> nat) option" where
  "scan_string [] = None"
| "scan_string (c # s) =
     (if c = CHR 0x22 then Some ([], 0)
      else if c = CHR 0x5C then
        (case s of
           [] \<Rightarrow> None
         | d # t \<Rightarrow> map_option (\<lambda>(u, n). (c # d # u, Suc n)) (scan_string t))
      else map_option (\<lambda>(u, n). (c # u, n)) (scan_string s))"

definition parse_string :: "'d cJSON \<Rightarrow> parse_buffer \<Rightarrow> mem \<Rightarrow> ('d cJSON option \<times> parse_buffer \<times> mem) option" where
  "parse_string item b m = do {
     c \<leftarrow> here b;
     (if c \<noteq> CHR 0x22 then Some (None, move 1 b, m)
      else case scan_string (drop (pa_offset b + 1) (pa_content b)) of
          None \<Rightarrow> Some (None, move 1 b, m)
        | Some (s, skipped_bytes) \<Rightarrow>
            (let allocation_length = Suc (length s) - skipped_bytes in
             case malloc_ok m of (ok, m) \<Rightarrow>
               if \<not> ok then Some (None, move 1 b, m)
               else do {
                 r \<leftarrow> decode_loop (allocation_length + 1) s [];
                 (case r of
                    Inl left \<Rightarrow> Some (None, move (Suc (length s) - left) b, m)
                  | Inr out \<Rightarrow>
                      Some (Some (set_valuestring (Some (cstring out)) (set_type cJSON_String item)), move (length s + 2) b, m))
               }))
   }"

section \<open>Values\<close>

definition literal_at :: "parse_buffer \<Rightarrow> string \<Rightarrow> bool" where
  "literal_at b s \<longleftrightarrow> can_read b (length s) \<and> take (length s) (drop (pa_offset b) (pa_content b)) = s"

definition number_start :: "char \<Rightarrow> bool" where
  "number_start c \<longleftrightarrow> c = CHR ''-'' \<or> 48 \<le> (of_char c :: nat) \<and> (of_char c :: nat) \<le> 57"

type_synonym 'r parsed = "('r option \<times> parse_buffer \<times> mem) option"

text \<open>\<open>p_then\<close> continues after a success and passes a parse error on.\<close>

definition p_then :: "'r parsed \<Rightarrow> ('r \<Rightarrow> parse_buffer \<Rightarrow> mem \<Rightarrow> 's parsed) \<Rightarrow> 's parsed" where
  "p_then r k = do { (x, b, m) \<leftarrow> r; (case x of None \<Rightarrow> Some (None, b, m) | Some y \<Rightarrow> k y b m) }"

definition new_item :: "'d fp \<Rightarrow> parse_buffer \<Rightarrow> mem \<Rightarrow> 'd cJSON parsed" where
  "new_item fp b m = (case cJSON_New_Item fp m of (item, m) \<Rightarrow> Some (item, b, m))"

text \<open>
  The loops over the elements of an array and the members of an object, given the parser \<open>pv\<close> for the
  values; \<open>n\<close> bounds the number of rounds.
\<close>

type_synonym 'd value_parser = "'d cJSON \<Rightarrow> parse_buffer \<Rightarrow> mem \<Rightarrow> 'd cJSON parsed"

fun array_loop :: "'d fp \<Rightarrow> 'd value_parser \<Rightarrow> nat \<Rightarrow> 'd cJSON list \<Rightarrow> parse_buffer \<Rightarrow> mem \<Rightarrow> 'd cJSON list parsed" where
  "array_loop fp pv 0 es b m = None"
| "array_loop fp pv (Suc n) es b m =
     p_then (new_item fp b m) (\<lambda>new b m.
     p_then (pv new (buffer_skip_whitespace (move 1 b)) m) (\<lambda>v b m.
     (let b = buffer_skip_whitespace b in
      if at_char b (CHR '','') then array_loop fp pv n (es @ [v]) b m else Some (Some (es @ [v]), b, m))))"

fun object_loop :: "'d fp \<Rightarrow> 'd value_parser \<Rightarrow> nat \<Rightarrow> 'd cJSON list \<Rightarrow> parse_buffer \<Rightarrow> mem \<Rightarrow> 'd cJSON list parsed" where
  "object_loop fp pv 0 es b m = None"
| "object_loop fp pv (Suc n) es b m =
     p_then (new_item fp b m) (\<lambda>new b m.
     p_then (parse_string new (buffer_skip_whitespace (move 1 b)) m) (\<lambda>key b m.
     (let b = buffer_skip_whitespace b; current = set_valuestring None (set_name (valuestring key) key) in
      if \<not> at_char b (CHR '':'') then Some (None, b, m)
      else p_then (pv current (buffer_skip_whitespace (move 1 b)) m) (\<lambda>v b m.
        (let b = buffer_skip_whitespace b in
         if at_char b (CHR '','') then object_loop fp pv n (es @ [v]) b m else Some (Some (es @ [v]), b, m))))))"

definition parse_array :: "'d fp \<Rightarrow> 'd value_parser \<Rightarrow> 'd value_parser" where
  "parse_array fp pv item b m =
     (if CJSON_NESTING_LIMIT \<le> pa_depth b then Some (None, b, m)
      else let b = b\<lparr>pa_depth := pa_depth b + 1\<rparr> in do {
        c \<leftarrow> here b;
        (if c \<noteq> CHR ''['' then Some (None, b, m)
         else let b = buffer_skip_whitespace (move 1 b) in
           p_then
             (if at_char b (CHR '']'') then Some (Some [], b, m)
              else if \<not> can_access_at_index b 0 then Some (None, b\<lparr>pa_offset := pa_offset b - 1\<rparr>, m)
              else p_then (array_loop fp pv (pa_length b) [] (b\<lparr>pa_offset := pa_offset b - 1\<rparr>) m) (\<lambda>es b m.
                if at_char b (CHR '']'') then Some (Some es, b, m) else Some (None, b, m)))
             (\<lambda>es b m. Some (Some (set_child es (set_type cJSON_Array item)),
                move 1 (b\<lparr>pa_depth := pa_depth b - 1\<rparr>), m)))
      })"

definition parse_object :: "'d fp \<Rightarrow> 'd value_parser \<Rightarrow> 'd value_parser" where
  "parse_object fp pv item b m =
     (if CJSON_NESTING_LIMIT \<le> pa_depth b then Some (None, b, m)
      else let b = b\<lparr>pa_depth := pa_depth b + 1\<rparr> in
        if \<not> at_char b (CHR ''{'') then Some (None, b, m)
        else let b = buffer_skip_whitespace (move 1 b) in
           p_then
             (if at_char b (CHR ''}'') then Some (Some [], b, m)
              else if \<not> can_access_at_index b 0 then Some (None, b\<lparr>pa_offset := pa_offset b - 1\<rparr>, m)
              else p_then (object_loop fp pv (pa_length b) [] (b\<lparr>pa_offset := pa_offset b - 1\<rparr>) m) (\<lambda>es b m.
                if at_char b (CHR ''}'') then Some (Some es, b, m) else Some (None, b, m)))
             (\<lambda>es b m. Some (Some (set_child es (set_type cJSON_Object item)),
                move 1 (b\<lparr>pa_depth := pa_depth b - 1\<rparr>), m)))"

text \<open>The recursion is bounded by the nesting limit, which \<open>parse_array\<close> and \<open>parse_object\<close> check.\<close>

fun parse_value :: "'d fp \<Rightarrow> nat \<Rightarrow> 'd value_parser" where
  "parse_value fp 0 item b m = None"
| "parse_value fp (Suc k) item b m =
     (if literal_at b ''null'' then Some (Some (set_type cJSON_NULL item), move 4 b, m)
      else if literal_at b ''false'' then Some (Some (set_type cJSON_False item), move 5 b, m)
      else if literal_at b ''true'' then Some (Some (set_valueint 1 (set_type cJSON_True item)), move 4 b, m)
      else case here b of
          None \<Rightarrow> Some (None, b, m)
        | Some c \<Rightarrow>
            (if c = CHR 0x22 then parse_string item b m
             else if number_start c then (case parse_number fp item b of (r, b) \<Rightarrow> Some (r, b, m))
             else if c = CHR ''['' then parse_array fp (parse_value fp k) item b m
             else if c = CHR ''{'' then parse_object fp (parse_value fp k) item b m
             else Some (None, b, m)))"

section \<open>Entry points\<close>

text \<open>
  \<open>want_end\<close> is \<open>return_parse_end != NULL\<close>. The result is the item, the position stored through
  \<open>return_parse_end\<close>, the new \<open>global_error\<close> (text and position) and the allocations left.
\<close>

definition error_position :: "parse_buffer \<Rightarrow> nat" where
  "error_position b = (if pa_offset b < pa_length b then pa_offset b else if 0 < pa_length b then pa_length b - 1 else 0)"

definition cJSON_ParseWithOpts :: "'d fp \<Rightarrow> string option \<Rightarrow> bool \<Rightarrow> bool \<Rightarrow> mem
    \<Rightarrow> ('d cJSON option \<times> nat option \<times> (string \<times> nat) option \<times> mem) option" where
  "cJSON_ParseWithOpts fp value want_end require_null_terminated m =
     (case value of
        None \<Rightarrow> Some (None, None, None, m)
      | Some s \<Rightarrow>
          (let b = \<lparr>pa_content = cstring s @ [CHR 0x00], pa_offset = 0, pa_depth = 0\<rparr>;
               fail = (\<lambda>b m. if want_end then Some (None, Some (error_position b), None, m)
                             else Some (None, None, Some (s, error_position b), m))
           in case cJSON_New_Item fp m of
               (None, m) \<Rightarrow> fail b m
             | (Some item, m) \<Rightarrow> do {
                 (r, b, m) \<leftarrow> parse_value fp (CJSON_NESTING_LIMIT + 1) item (buffer_skip_whitespace b) m;
                 (case r of
                    None \<Rightarrow> fail b m
                  | Some item \<Rightarrow>
                      (let b = (if require_null_terminated then buffer_skip_whitespace b else b) in
                       if require_null_terminated \<and> \<not> at_char b (CHR 0x00) then fail b m
                       else Some (Some item, if want_end then Some (pa_offset b) else None, None, m)))
               }))"

definition cJSON_Parse :: "'d fp \<Rightarrow> string option \<Rightarrow> mem \<Rightarrow> ('d cJSON option \<times> nat option \<times> (string \<times> nat) option \<times> mem) option" where
  "cJSON_Parse fp value m = cJSON_ParseWithOpts fp value False False m"

text \<open>\<open>cJSON_GetErrorPtr\<close>: the text from the recorded position on.\<close>

definition cJSON_GetErrorPtr :: "(string \<times> nat) option \<Rightarrow> string option" where
  "cJSON_GetErrorPtr global_error = map_option (\<lambda>(s, n). drop n (cstring s)) global_error"

section \<open>The output of a string fits\<close>

text \<open>An upper bound for the bytes that a text decodes to: one for a pair that starts with a backslash.\<close>

fun decoded_bound :: "string \<Rightarrow> nat" where
  "decoded_bound [] = 0"
| "decoded_bound [c] = 1"
| "decoded_bound (c # d # s) = (if c = CHR 0x5C then 1 + decoded_bound s else 1 + decoded_bound (d # s))"

lemma decoded_bound_Cons: "decoded_bound s \<le> decoded_bound (c # s) \<and> decoded_bound (c # s) \<le> 1 + decoded_bound s"
proof (induction s arbitrary: c rule: length_induct)
  case (1 s)
  show ?case
  proof (cases s)
    case (Cons d t)
    then have "decoded_bound t \<le> decoded_bound (d # t) \<and> decoded_bound (d # t) \<le> 1 + decoded_bound t" using 1 by simp
    then show ?thesis using Cons by auto
  qed simp
qed

lemma decoded_bound_drop: "decoded_bound (drop n s) \<le> decoded_bound s"
proof (induction n arbitrary: s)
  case (Suc n)
  show ?case
  proof (cases s)
    case (Cons c t)
    then show ?thesis using Suc [of t] decoded_bound_Cons [of t c] by simp
  qed simp
qed simp

lemma decoded_bound_plain: "c \<noteq> CHR 0x5C \<Longrightarrow> decoded_bound (c # s) = 1 + decoded_bound s"
  by (cases s) auto

lemma hex_value_backslash: "hex_value c = Some v \<Longrightarrow> c \<noteq> CHR 0x5C"
  by (auto simp: hex_value_def Let_def)

lemma hex4_loop_ok: "n \<le> length s \<Longrightarrow> \<exists>h'. hex4_loop n h s = Some h'"
  by (induction n h s rule: hex4_loop.induct) (auto split: option.splits)

lemma hex4_loop_bound: "hex4_loop n h s = Some h' \<Longrightarrow> h' \<noteq> 0 \<Longrightarrow> n \<le> length s \<Longrightarrow>
    n + decoded_bound (drop n s) \<le> decoded_bound s"
proof (induction n h s rule: hex4_loop.induct)
  case (3 k h c s)
  then show ?case
    by (auto split: option.splits dest: hex_value_backslash simp: decoded_bound_plain)
qed auto

lemma parse_hex4_ok: "4 \<le> length s \<Longrightarrow> \<exists>h. parse_hex4 s = Some h"
  unfolding parse_hex4_def by (rule hex4_loop_ok)

lemma parse_hex4_bound: "parse_hex4 s = Some h \<Longrightarrow> h \<noteq> 0 \<Longrightarrow> 4 \<le> length s \<Longrightarrow> 4 + decoded_bound (drop 4 s) \<le> decoded_bound s"
  unfolding parse_hex4_def by (rule hex4_loop_bound)

lemma utf8_tail_length: "length (fst (utf8_tail k cp bytes)) = k + length bytes"
  by (induction k cp bytes rule: utf8_tail.induct) auto

lemma utf8_encode_length:
  "utf8_encode cp = Some bytes \<Longrightarrow> length bytes \<le> 4 \<and> (cp < 0x10000 \<longrightarrow> length bytes \<le> 3) \<and> (cp < 0x80 \<longrightarrow> length bytes = 1)"
  using utf8_tail_length [of 0 cp "[]"] utf8_tail_length [of 1 cp "[]"] utf8_tail_length [of 2 cp "[]"] utf8_tail_length [of 3 cp "[]"]
  by (auto simp: utf8_encode_def Let_def split: if_splits prod.splits)

lemma utf8_encode_length_low: "utf8_encode cp = Some bytes \<Longrightarrow> cp \<le> 0xFFFF \<Longrightarrow> length bytes \<le> 3"
  using utf8_encode_length by fastforce

lemma hex_value_less: "hex_value c = Some v \<Longrightarrow> v < 16"
  by (auto simp: hex_value_def Let_def split: if_splits)

lemma hex4_loop_less: "hex4_loop n h s = Some h' \<Longrightarrow> h + 16 \<le> b \<Longrightarrow> 0 < n \<Longrightarrow> h' < b * 16 ^ (n - 1)"
proof (induction n h s arbitrary: b rule: hex4_loop.induct)
  case (3 k h c s)
  show ?case
  proof (cases "hex_value c")
    case None
    then show ?thesis using 3 by (auto intro: order.strict_trans2)
  next
    case (Some v)
    note v = hex_value_less [OF Some]
    show ?thesis
    proof (cases k)
      case 0
      then show ?thesis using 3(2,3) Some v by simp
    next
      case (Suc k')
      have "h' < (b * 16) * 16 ^ (k - 1)"
      proof (rule "3.IH" [OF Some])
        show "hex4_loop k (if k = 0 then h + v else push_bit 4 (h + v)) s = Some h'" using 3(2) Some by simp
        show "(if k = 0 then h + v else push_bit 4 (h + v)) + 16 \<le> b * 16" using 3(3) v Suc by (simp add: push_bit_eq_mult)
      qed (simp add: Suc)
      then show ?thesis using Suc by (simp add: mult.assoc)
    qed
  qed
qed auto

lemma parse_hex4_less: "parse_hex4 s = Some h \<Longrightarrow> h \<le> 0xFFFF"
  unfolding parse_hex4_def using hex4_loop_less [of 4 0 s h 16] by simp

lemma utf16_bound:
  "\<exists>r. utf16_literal_to_utf8 (CHR 0x5C # CHR ''u'' # s) = Some r
    \<and> (\<forall>n bytes. r = Some (n, bytes) \<longrightarrow> 6 \<le> n
        \<and> length bytes + decoded_bound (drop (n - 2) s) \<le> decoded_bound (CHR 0x5C # CHR ''u'' # s))"
proof (cases "length s < 4")
  case True
  then show ?thesis by (simp add: utf16_literal_to_utf8_def)
next
  case False
  then obtain h where h: "parse_hex4 s = Some h" using parse_hex4_ok [of s] by auto
  let ?t = "CHR 0x5C # CHR ''u'' # s"
  have low: "h \<noteq> 0 \<Longrightarrow> 5 + decoded_bound (drop 4 s) \<le> decoded_bound ?t" using parse_hex4_bound [OF h] False by simp
  have zero: "1 + decoded_bound (drop 4 s) \<le> decoded_bound ?t" using decoded_bound_drop [of 4 s] by simp
  consider (bad) "0xDC00 \<le> h" "h \<le> 0xDFFF" | (pair) "0xD800 \<le> h" "h \<le> 0xDBFF" | (one) "\<not> (0xDC00 \<le> h \<and> h \<le> 0xDFFF)" "\<not> (0xD800 \<le> h \<and> h \<le> 0xDBFF)"
    by blast
  then show ?thesis
  proof cases
    case bad
    then show ?thesis using False h by (simp add: utf16_literal_to_utf8_def)
  next
    case one
    have "length bytes + decoded_bound (drop 4 s) \<le> decoded_bound ?t" if "utf8_encode h = Some bytes" for bytes
      using utf8_encode_length [OF that] low zero utf8_encode_length_low [OF that parse_hex4_less [OF h]] by (cases "h = 0") auto
    then show ?thesis using False h one by (auto simp: utf16_literal_to_utf8_def)
  next
    case pair
    let ?u = "drop 4 s"
    show ?thesis
    proof (cases "length ?u < 6 \<or> ?u ! 0 \<noteq> CHR 0x5C \<or> ?u ! 1 \<noteq> CHR ''u''")
      case True
      then show ?thesis using False h pair by (auto simp: utf16_literal_to_utf8_def Let_def)
    next
      case two: False
      then obtain v where u: "?u = CHR 0x5C # CHR ''u'' # v" by (cases ?u; cases "tl ?u") auto
      then have "v = drop 2 (drop 4 s)" by simp
      then have v: "v = drop 6 s" by simp
      obtain g where g: "parse_hex4 v = Some g" using parse_hex4_ok [of v] two u by auto
      have "5 + decoded_bound (drop 4 v) \<le> decoded_bound ?u" if "g \<noteq> 0" using parse_hex4_bound [OF g that] two u by simp
      then have "4 + decoded_bound (drop 10 s) \<le> decoded_bound ?t" if "g \<noteq> 0" using that low pair v by simp
      then show ?thesis using False h pair two u v g
        by (auto simp: utf16_literal_to_utf8_def Let_def dest: utf8_encode_length intro: order_trans [rotated])
    qed
  qed
qed

lemma decode_loop_safe: "length out + decoded_bound s < cap \<Longrightarrow> \<exists>r. decode_loop cap s out = Some r"
proof (induction cap s out rule: decode_loop.induct)
  case (2 cap c s out)
  show ?case
  proof (cases "c = CHR 0x5C")
    case False
    then show ?thesis using 2(1) 2(4) by (simp add: decoded_bound_plain)
  next
    case esc: True
    define e where "e = (case s of [] \<Rightarrow> CHR 0x22 | x # _ \<Rightarrow> x)"
    have tl: "decoded_bound (c # s) = 1 + decoded_bound (tl s)" using esc by (cases s) auto
    show ?thesis
    proof (cases "simple_escape e")
      case (Some x)
      then show ?thesis using 2(3) [OF _ e_def Some] 2(4) esc tl by (simp add: e_def [symmetric])
    next
      case None
      show ?thesis
      proof (cases "e = CHR ''u''")
        case True
        then obtain t where t: "s = CHR ''u'' # t" by (auto simp: e_def split: list.splits)
        obtain r where r: "utf16_literal_to_utf8 (c # s) = Some r"
          and bound: "\<And>n bytes. r = Some (n, bytes) \<Longrightarrow> 6 \<le> n \<and> length bytes + decoded_bound (drop (n - 2) t) \<le> decoded_bound (c # s)"
          using utf16_bound [of t] esc t by auto
        show ?thesis
        proof (cases r)
          case (Some z)
          obtain n bytes where z: "z = (n, bytes)" by fastforce
          have b: "6 \<le> n" "length bytes + decoded_bound (drop (n - 2) t) \<le> decoded_bound (c # s)" using bound Some z by auto
          then have d: "drop (n - 1) s = drop (n - 2) t" using t by (simp add: drop_Cons' numeral_2_eq_2)
          have "\<exists>r. decode_loop cap (drop (n - 1) s) (out @ bytes) = Some r"
            using 2(2) [OF _ e_def None True r Some z [symmetric]] esc b d 2(4) by simp
          then show ?thesis using b 2(4) None True r Some z esc by (simp add: e_def [symmetric])
        qed (use None True r esc in \<open>simp add: e_def [symmetric]\<close>)
      qed (simp add: esc e_def [symmetric] None)
    qed
  qed
qed simp

lemma scan_string_bound: "scan_string t = Some (s, k) \<Longrightarrow>
    decoded_bound s + k = length s \<and> (\<exists>u. t = s @ CHR 0x22 # u)"
proof (induction t arbitrary: s k rule: scan_string.induct)
  case (2 c t)
  consider (quote) "c = CHR 0x22" | (pair) d u where "c = CHR 0x5C" "t = d # u" | (stop) "c = CHR 0x5C" "t = []"
    | (plain) "c \<noteq> CHR 0x22" "c \<noteq> CHR 0x5C"
    by (cases t) auto
  then show ?case
  proof cases
    case pair
    then obtain s' k' where "scan_string u = Some (s', k')" "s = c # d # s'" "k = Suc k'" using 2(3) by auto
    then show ?thesis using 2(1) [of d u s' k'] pair by auto
  next
    case plain
    then obtain s' where "scan_string t = Some (s', k)" "s = c # s'" using 2(3) by auto
    then show ?thesis using 2(2) [of s' k] plain by (auto simp: decoded_bound_plain)
  qed (use 2(3) in auto)
qed simp

section \<open>Every text is parsed safely\<close>

text \<open>
  \<open>pa_ok\<close>: the text ends with the only NUL and the position is inside it. \<open>parsed_ok\<close>: a parser came to an
  end, kept the text, and on success moved forward, stayed inside the text and restored the depth.
\<close>

definition pa_ok :: "parse_buffer \<Rightarrow> bool" where
  "pa_ok b \<longleftrightarrow> pa_offset b < pa_length b \<and> last (pa_content b) = CHR 0x00"

definition parsed_ok :: "parse_buffer \<Rightarrow> 'r parsed \<Rightarrow> bool" where
  "parsed_ok b r \<longleftrightarrow> (\<exists>x b' m'. r = Some (x, b', m') \<and> pa_content b' = pa_content b
     \<and> (x \<noteq> None \<longrightarrow> pa_offset b < pa_offset b' \<and> pa_offset b' < pa_length b \<and> pa_depth b' = pa_depth b))"

lemma parsed_ok_fail: "pa_content b' = pa_content b \<Longrightarrow> parsed_ok b (Some (None, b', m'))"
  by (simp add: parsed_ok_def)

lemma parsed_ok_then:
  assumes "parsed_ok b r"
    and "\<And>y b' m'. r = Some (Some y, b', m') \<Longrightarrow> pa_content b' = pa_content b \<Longrightarrow> pa_offset b < pa_offset b'
       \<Longrightarrow> pa_offset b' < pa_length b \<Longrightarrow> pa_depth b' = pa_depth b \<Longrightarrow> parsed_ok b (k y b' m')"
  shows "parsed_ok b (p_then r k)"
proof -
  obtain x b' m' where r: "r = Some (x, b', m')" "pa_content b' = pa_content b"
    "x \<noteq> None \<longrightarrow> pa_offset b < pa_offset b' \<and> pa_offset b' < pa_length b \<and> pa_depth b' = pa_depth b"
    using assms(1) by (auto simp: parsed_ok_def)
  then show ?thesis using assms(2) by (cases x) (auto simp: p_then_def parsed_ok_fail)
qed

lemma parsed_ok_mono:
  "parsed_ok b' r \<Longrightarrow> pa_content b' = pa_content b \<Longrightarrow> pa_offset b \<le> pa_offset b' \<Longrightarrow> pa_depth b' = pa_depth b \<Longrightarrow> parsed_ok b r"
  by (auto simp: parsed_ok_def)

lemma skip_props [simp]:
  "pa_content (buffer_skip_whitespace b) = pa_content b" "pa_depth (buffer_skip_whitespace b) = pa_depth b"
  "pa_content (move n b) = pa_content b" "pa_depth (move n b) = pa_depth b" "pa_offset (move n b) = pa_offset b + n"
  by (auto simp: buffer_skip_whitespace_def move_def Let_def)

lemma skip_bounds:
  assumes "pa_offset b < pa_length b"
  shows "pa_offset b \<le> pa_offset (buffer_skip_whitespace b) \<and> pa_offset (buffer_skip_whitespace b) < pa_length b"
proof -
  let ?n = "length (takeWhile is_blank (drop (pa_offset b) (pa_content b)))"
  have "?n \<le> pa_length b - pa_offset b" using length_takeWhile_le [of is_blank "drop (pa_offset b) (pa_content b)"] by simp
  then show ?thesis using assms by (auto simp: buffer_skip_whitespace_def Let_def)
qed

lemma here_next:
  assumes "here b = Some c" "c \<noteq> CHR 0x00" "last (pa_content b) = CHR 0x00"
  shows "pa_offset b + 1 < pa_length b"
proof (rule ccontr)
  assume "\<not> ?thesis"
  then have "pa_offset b = pa_length b - 1" "pa_content b \<noteq> []" using assms(1) by (auto simp: here_def nth_opt_eq_Some)
  then show False using assms by (auto simp: here_def nth_opt_eq_Some last_conv_nth)
qed

lemma drop_last: "n < length xs \<Longrightarrow> last (drop n xs) = last xs"
  by (simp add: last_drop)

lemma parse_string_safe:
  assumes "pa_ok b" shows "parsed_ok b (parse_string item b m)"
proof -
  let ?t = "drop (pa_offset b + 1) (pa_content b)"
  obtain c where c: "here b = Some c" using assms by (auto simp: here_def pa_ok_def)
  show ?thesis
  proof (cases "c = CHR 0x22")
    case True
    then have o1: "pa_offset b + 1 < pa_length b" using here_next [OF c] assms by (auto simp: pa_ok_def)
    show ?thesis
    proof (cases "scan_string ?t")
      case None
      then show ?thesis using c True by (simp add: parse_string_def parsed_ok_fail)
    next
      case (Some z)
      obtain s k where z: "z = (s, k)" by fastforce
      obtain u where sb: "decoded_bound s + k = length s" and u: "?t = s @ CHR 0x22 # u"
        using scan_string_bound [of ?t s k] Some z by auto
      have "last ?t = CHR 0x00" using drop_last [OF o1] assms by (simp add: pa_ok_def)
      then have "u \<noteq> []" using u by auto
      moreover have "length ?t = length s + 1 + length u" using u by simp
      ultimately have len: "pa_offset b + length s + 2 < pa_length b" by (cases u) auto
      obtain ok m' where m: "malloc_ok m = (ok, m')" by fastforce
      obtain r where "decode_loop (Suc (length s) - k + 1) s [] = Some r"
        using decode_loop_safe [of "[]" s "Suc (length s) - k + 1"] sb by (fastforce simp: less_Suc_eq_le le_diff_conv2)
      then show ?thesis using c True Some z m len
        by (cases ok; cases r) (simp_all add: parse_string_def Let_def parsed_ok_def)
    qed
  qed (simp add: parse_string_def c parsed_ok_fail)
qed

lemma literal_at_next:
  assumes "literal_at b s" "s \<noteq> []" "last s \<noteq> CHR 0x00" "last (pa_content b) = CHR 0x00"
  shows "pa_offset b + length s < pa_length b"
proof (rule ccontr)
  assume "\<not> ?thesis"
  then have "pa_offset b + length s = pa_length b" using assms(1) by (simp add: literal_at_def can_read_def)
  then have "drop (pa_offset b) (pa_content b) = s" "pa_offset b < pa_length b" using assms by (auto simp: literal_at_def)
  then show False using assms drop_last [of "pa_offset b" "pa_content b"] by simp
qed

text \<open>What \<open>strtod\<close> promises: it reads a prefix of its argument.\<close>

definition strtod_prefix :: "'d fp \<Rightarrow> bool" where
  "strtod_prefix fp \<longleftrightarrow> (\<forall>s. snd (fp_strtod fp s) \<le> length s)"

lemma parse_number_safe:
  assumes "pa_ok b" "strtod_prefix fp"
  shows "parsed_ok b (case parse_number fp item b of (r, b) \<Rightarrow> Some (r, b, m))"
proof -
  let ?d = "drop (pa_offset b) (pa_content b)"
  let ?w = "takeWhile number_char (take 63 ?d)"
  let ?s = "map (\<lambda>c. if c = CHR ''.'' then fp_point fp else c) ?w"
  obtain number n where n: "fp_strtod fp ?s = (number, n)" by fastforce
  have "snd (fp_strtod fp ?s) \<le> length ?s" using assms(2) unfolding strtod_prefix_def by blast
  then have "n \<le> length ?w" using n by simp
  moreover have "length ?w < length ?d"
  proof (rule ccontr)
    assume long: "\<not> ?thesis"
    have "length ?w \<le> length (take 63 ?d)" by (rule length_takeWhile_le)
    then have "length ?d \<le> 63" "length ?d \<le> length ?w" using long by auto
    then have "?w = ?d" using takeWhile_eq_take [of number_char "take 63 ?d"] by simp
    moreover have "last ?d = CHR 0x00" "?d \<noteq> []" using assms(1) drop_last by (auto simp: pa_ok_def)
    ultimately have "CHR 0x00 \<in> set ?w" by (metis last_in_set)
    then have "number_char (CHR 0x00)" by (metis set_takeWhileD)
    then show False by (simp add: number_char_def)
  qed
  ultimately show ?thesis using n by (auto simp: parse_number_def parsed_ok_def Let_def)
qed

lemma p_then_new_item: "p_then (new_item fp b m) k =
    (case cJSON_New_Item fp m of (None, m') \<Rightarrow> Some (None, b, m') | (Some i, m') \<Rightarrow> k i b m')"
  by (simp add: p_then_def new_item_def split: prod.splits option.splits)

lemma parsed_ok_new_item: "(\<And>i m'. parsed_ok b (k i b m')) \<Longrightarrow> parsed_ok b (p_then (new_item fp b m) k)"
  by (auto simp: p_then_new_item parsed_ok_fail split: prod.splits option.splits)

lemma at_char_next: "at_char b c \<Longrightarrow> c \<noteq> CHR 0x00 \<Longrightarrow> last (pa_content b) = CHR 0x00 \<Longrightarrow> pa_offset b + 1 < pa_length b"
  unfolding at_char_def by (rule here_next)

definition value_parser_ok :: "nat \<Rightarrow> 'd value_parser \<Rightarrow> bool" where
  "value_parser_ok d pv \<longleftrightarrow> (\<forall>item b m. pa_ok b \<longrightarrow> pa_depth b = d \<longrightarrow> parsed_ok b (pv item b m))"

text \<open>One step over a comma, colon or opening bracket: the next value starts inside the text.\<close>

lemma step_inside:
  assumes "pa_offset b + 1 < pa_length b" "last (pa_content b) = CHR 0x00"
  shows "pa_ok (buffer_skip_whitespace (move 1 b)) \<and> pa_offset b < pa_offset (buffer_skip_whitespace (move 1 b))"
  using skip_bounds [of "move 1 b"] assms by (simp add: pa_ok_def)

lemma array_loop_safe:
  assumes "value_parser_ok d pv"
  shows "pa_offset b + 1 < pa_length b \<Longrightarrow> last (pa_content b) = CHR 0x00 \<Longrightarrow> pa_depth b = d \<Longrightarrow> pa_length b \<le> n + pa_offset b
    \<Longrightarrow> parsed_ok b (array_loop fp pv n es b m)"
proof (induction n arbitrary: es b m)
  case (Suc n)
  note in1 = step_inside [OF Suc.prems(1,2)]
  let ?b1 = "buffer_skip_whitespace (move 1 b)"
  show ?case unfolding array_loop.simps
  proof (rule parsed_ok_new_item, rule parsed_ok_then)
    fix i m'
    have "parsed_ok ?b1 (pv i ?b1 m')" using assms in1 Suc.prems(3) by (simp add: value_parser_ok_def)
    then show "parsed_ok b (pv i ?b1 m')" by (rule parsed_ok_mono) (use in1 in simp_all)
    fix v b2 m2
    assume 2: "pv i ?b1 m' = Some (Some v, b2, m2)" "pa_content b2 = pa_content b" "pa_offset b < pa_offset b2" "pa_offset b2 < pa_length b" "pa_depth b2 = pa_depth b"
    let ?b3 = "buffer_skip_whitespace b2"
    have 3: "pa_offset b2 \<le> pa_offset ?b3" "pa_offset ?b3 < pa_length b" using skip_bounds [of b2] 2 by auto
    have "parsed_ok ?b3 (array_loop fp pv n (es @ [v]) ?b3 m2)" if "at_char ?b3 (CHR '','')"
      using Suc.IH [of ?b3 "es @ [v]" m2] at_char_next [OF that] Suc.prems 2 3 by simp
    then show "parsed_ok b (let b = buffer_skip_whitespace b2 in
         if at_char b (CHR '','') then array_loop fp pv n (es @ [v]) b m2 else Some (Some (es @ [v]), b, m2))"
      using 2 3 by (auto simp: Let_def parsed_ok_def)
  qed
qed simp

lemma object_loop_safe:
  assumes "value_parser_ok d pv"
  shows "pa_offset b + 1 < pa_length b \<Longrightarrow> last (pa_content b) = CHR 0x00 \<Longrightarrow> pa_depth b = d \<Longrightarrow> pa_length b \<le> n + pa_offset b
    \<Longrightarrow> parsed_ok b (object_loop fp pv n es b m)"
proof (induction n arbitrary: es b m)
  case (Suc n)
  note in1 = step_inside [OF Suc.prems(1,2)]
  let ?b1 = "buffer_skip_whitespace (move 1 b)"
  show ?case unfolding object_loop.simps
  proof (rule parsed_ok_new_item, rule parsed_ok_then, goal_cases)
    case (1 i m')
    show ?case by (rule parsed_ok_mono [OF parse_string_safe]) (use in1 in simp_all)
  next
    case (2 i m' key b2 m2)
    let ?b3 = "buffer_skip_whitespace b2" and ?c = "set_valuestring None (set_name (valuestring key) key)"
    let ?b4 = "buffer_skip_whitespace (move 1 ?b3)"
    have 3: "pa_offset b2 \<le> pa_offset ?b3" "pa_offset ?b3 < pa_length b" using skip_bounds [of b2] 2 by auto
    show ?case
    proof (cases "at_char ?b3 (CHR '':'')")
      case False
      then show ?thesis using 2 by (simp add: parsed_ok_fail)
    next
      case True
      have in4: "pa_ok ?b4" "pa_offset ?b3 < pa_offset ?b4" using step_inside [of ?b3] at_char_next [OF True] Suc.prems 2 by auto
      have "parsed_ok b (p_then (pv ?c ?b4 m2) (\<lambda>v b m.
        (let b = buffer_skip_whitespace b in
         if at_char b (CHR '','') then object_loop fp pv n (es @ [v]) b m else Some (Some (es @ [v]), b, m))))"
      proof (rule parsed_ok_then, goal_cases)
        case 1
        have "parsed_ok ?b4 (pv ?c ?b4 m2)" using assms in4 Suc.prems(3) 2 by (simp add: value_parser_ok_def)
        then show ?case by (rule parsed_ok_mono) (use in4 2 3 in simp_all)
      next
        case 5: (2 v b5 m5)
        let ?b6 = "buffer_skip_whitespace b5"
        have 6: "pa_offset b5 \<le> pa_offset ?b6" "pa_offset ?b6 < pa_length b" using skip_bounds [of b5] 5 by auto
        have "parsed_ok ?b6 (object_loop fp pv n (es @ [v]) ?b6 m5)" if "at_char ?b6 (CHR '','')"
          using Suc.IH [of ?b6 "es @ [v]" m5] at_char_next [OF that] Suc.prems 5 6 by simp
        then show ?case using 5 6 by (auto simp: Let_def parsed_ok_def)
      qed
      then show ?thesis using True by (simp add: Let_def)
    qed
  qed
qed simp

text \<open>What arrays and objects share: the brackets around the loop.\<close>

abbreviation brackets :: "(nat \<Rightarrow> 'd cJSON list \<Rightarrow> parse_buffer \<Rightarrow> mem \<Rightarrow> 'd cJSON list parsed) \<Rightarrow> char \<Rightarrow> ('d cJSON list \<Rightarrow> 'd cJSON)
    \<Rightarrow> parse_buffer \<Rightarrow> mem \<Rightarrow> 'd cJSON parsed" where
  "brackets loop cls f b m \<equiv>
     (let b = buffer_skip_whitespace (move 1 (b\<lparr>pa_depth := pa_depth b + 1\<rparr>)) in
           p_then
             (if at_char b cls then Some (Some [], b, m)
              else if \<not> can_access_at_index b 0 then Some (None, b\<lparr>pa_offset := pa_offset b - 1\<rparr>, m)
              else p_then (loop (pa_length b) [] (b\<lparr>pa_offset := pa_offset b - 1\<rparr>) m) (\<lambda>es b m.
                if at_char b cls then Some (Some es, b, m) else Some (None, b, m)))
             (\<lambda>es b m. Some (Some (f es), move 1 (b\<lparr>pa_depth := pa_depth b - 1\<rparr>), m)))"

lemma bracket_safe:
  assumes b: "here b = Some opn" "opn \<noteq> CHR 0x00" "cls \<noteq> CHR 0x00" "last (pa_content b) = CHR 0x00"
    and loop: "\<And>b' m. pa_offset b' + 1 < pa_length b' \<Longrightarrow> pa_content b' = pa_content b \<Longrightarrow> pa_depth b' = pa_depth b + 1 \<Longrightarrow>
      parsed_ok b' (loop (pa_length b') [] b' m)"
  shows "parsed_ok b (brackets loop cls f b m)"
proof -
  let ?bd = "b\<lparr>pa_depth := pa_depth b + 1\<rparr>"
  let ?b1 = "buffer_skip_whitespace (move 1 ?bd)"
  let ?b0 = "?b1\<lparr>pa_offset := pa_offset ?b1 - 1\<rparr>"
  let ?p = "if at_char ?b1 cls then Some (Some [], ?b1, m)
              else if \<not> can_access_at_index ?b1 0 then Some (None, ?b0, m)
              else p_then (loop (pa_length ?b1) [] ?b0 m) (\<lambda>es b m.
                if at_char b cls then Some (Some es, b, m) else Some (None, b, m))"
  have n: "pa_offset ?bd + 1 < pa_length ?bd" using here_next [OF b(1,2,4)] by simp
  have in1: "pa_offset b < pa_offset ?b1" "pa_offset ?b1 < pa_length b"
    using step_inside [OF n] b(4) by (auto simp: pa_ok_def)
  have l: "parsed_ok ?b0 (loop (pa_length ?b0) [] ?b0 m)" using in1 by (intro loop) auto
  have acc: "can_access_at_index ?b1 0" using in1 by (simp add: can_access_at_index_def)
  obtain y b2 m2 where y: "loop (pa_length ?b1) [] ?b0 m = Some (y, b2, m2)" "pa_content b2 = pa_content b"
    "y \<noteq> None \<longrightarrow> pa_offset ?b0 < pa_offset b2 \<and> pa_depth b2 = pa_depth b + 1"
    using l by (auto simp: parsed_ok_def)
  have "?p = (if at_char ?b1 cls then Some (Some [], ?b1, m)
      else case y of None \<Rightarrow> Some (None, b2, m2) | Some es \<Rightarrow> if at_char b2 cls then Some (Some es, b2, m2) else Some (None, b2, m2))"
    using acc y(1) by (simp add: p_then_def)
  then obtain x b' m' where p: "?p = Some (x, b', m')" and c: "pa_content b' = pa_content b"
    and x: "x \<noteq> None \<Longrightarrow> pa_offset b < pa_offset b' \<and> pa_depth b' = pa_depth b + 1 \<and> at_char b' cls"
    using y(2,3) in1 by (cases "at_char ?b1 cls"; cases y; cases "at_char b2 cls") simp_all
  have "pa_offset b' + 1 < pa_length b" if "x \<noteq> None" using at_char_next [of b' cls] x [OF that] b c by simp
  then show ?thesis unfolding Let_def p using x c by (cases x) (auto simp: p_then_def parsed_ok_def)
qed

lemma parse_array_safe:
  assumes "pa_ok b" "here b = Some (CHR ''['')" "pa_depth b < CJSON_NESTING_LIMIT \<Longrightarrow> value_parser_ok (pa_depth b + 1) pv"
  shows "parsed_ok b (parse_array fp pv item b m)"
proof (cases "CJSON_NESTING_LIMIT \<le> pa_depth b")
  case False
  have "here (b\<lparr>pa_depth := pa_depth b + 1\<rparr>) = Some (CHR ''['')" using assms(2) by (simp add: here_def)
  then show ?thesis
    using False assms bracket_safe [of b "CHR ''[''" "CHR '']''" "array_loop fp pv" m "\<lambda>es. set_child es (set_type cJSON_Array item)"]
      array_loop_safe [of _ pv, OF assms(3)] by (simp add: parse_array_def pa_ok_def)
qed (simp add: parse_array_def parsed_ok_fail)

lemma parse_object_safe:
  assumes "pa_ok b" "here b = Some (CHR ''{'')" "pa_depth b < CJSON_NESTING_LIMIT \<Longrightarrow> value_parser_ok (pa_depth b + 1) pv"
  shows "parsed_ok b (parse_object fp pv item b m)"
proof (cases "CJSON_NESTING_LIMIT \<le> pa_depth b")
  case False
  have "at_char (b\<lparr>pa_depth := pa_depth b + 1\<rparr>) (CHR ''{'')" using assms(2) by (simp add: here_def at_char_def)
  then show ?thesis
    using False assms bracket_safe [of b "CHR ''{''" "CHR ''}''" "object_loop fp pv" m "\<lambda>es. set_child es (set_type cJSON_Object item)"]
      object_loop_safe [of _ pv, OF assms(3)] by (simp add: parse_object_def pa_ok_def)
qed (simp add: parse_object_def parsed_ok_fail)

lemma parse_value_safe:
  assumes "strtod_prefix fp"
  shows "CJSON_NESTING_LIMIT < k + pa_depth b \<Longrightarrow> pa_depth b \<le> CJSON_NESTING_LIMIT \<Longrightarrow> pa_ok b
    \<Longrightarrow> parsed_ok b (parse_value fp k item b m)"
proof (induction k arbitrary: item b m)
  case (Suc k)
  have pv: "value_parser_ok (pa_depth b + 1) (parse_value fp k)" if "pa_depth b < CJSON_NESTING_LIMIT"
    unfolding value_parser_ok_def using Suc.IH Suc.prems(1) that by simp
  obtain c where c: "here b = Some c" using Suc.prems(3) by (auto simp: here_def pa_ok_def)
  have last: "last (pa_content b) = CHR 0x00" using Suc.prems(3) by (simp add: pa_ok_def)
  have lit: "parsed_ok b (Some (Some x, move n b, m))" if "literal_at b s" "s \<noteq> []" "last s \<noteq> CHR 0x00" "length s = n" for s n and x :: "'a cJSON"
    using literal_at_next [OF that(1-3) last] that(2,4) by (auto simp: parsed_ok_def)
  have step: "parsed_ok b (if c = CHR 0x22 then parse_string item b m
             else if number_start c then (case parse_number fp item b of (r, b) \<Rightarrow> Some (r, b, m))
             else if c = CHR ''['' then parse_array fp (parse_value fp k) item b m
             else if c = CHR ''{'' then parse_object fp (parse_value fp k) item b m
             else Some (None, b, m))"
    using parse_string_safe [OF Suc.prems(3), of item m] parse_number_safe [OF Suc.prems(3) assms] parse_array_safe [OF Suc.prems(3) _ pv]
      parse_object_safe [OF Suc.prems(3) _ pv] c by (simp add: parsed_ok_fail)
  show ?case
    using step c lit [of "''null''" 4] lit [of "''false''" 5] lit [of "''true''" 4] by simp
qed simp

lemma parse_returns:
  assumes "strtod_prefix fp"
  shows "\<exists>item e err m'. cJSON_ParseWithOpts fp (Some s) want_end req m = Some (item, e, err, m')"
proof -
  let ?b = "buffer_skip_whitespace \<lparr>pa_content = cstring s @ [CHR 0x00], pa_offset = 0, pa_depth = 0\<rparr>"
  have "pa_ok ?b" using skip_bounds [of "\<lparr>pa_content = cstring s @ [CHR 0x00], pa_offset = 0, pa_depth = 0\<rparr>"] by (auto simp: pa_ok_def)
  then have "parsed_ok ?b (parse_value fp (CJSON_NESTING_LIMIT + 1) item ?b m)" for item m
    by (intro parse_value_safe [OF assms]) simp_all
  then have "\<exists>r b2 m2. parse_value fp (CJSON_NESTING_LIMIT + 1) item ?b m = Some (r, b2, m2)" for item m
    unfolding parsed_ok_def by blast
  then obtain r b2 m2 where r: "parse_value fp (CJSON_NESTING_LIMIT + 1) (zero_item fp) ?b (snd (malloc_ok m)) = Some (r, b2, m2)" by blast
  have new: "cJSON_New_Item fp m = (if fst (malloc_ok m) then Some (zero_item fp) else None, snd (malloc_ok m))"
    by (cases "malloc_ok m") (simp add: cJSON_New_Item_def)
  show ?thesis using r by (cases "fst (malloc_ok m)"; cases r) (simp_all add: new cJSON_ParseWithOpts_def Let_def)
qed

text \<open>
  C21: Parsing is memory safe and terminates on every text, option and allocation behaviour (for a \<open>strtod\<close>
  that reads a prefix of its argument): the call returns; an end position is stored exactly if it is
  wanted, an error is recorded exactly if the parse fails and no end position is wanted; both positions
  lie inside the text or at its terminator; and with \<open>require_null_terminated\<close> a successful parse ends at the terminator.
\<close>

theorem cjson_parse_safe:
  assumes "strtod_prefix fp"
  shows "\<exists>item e err m'. cJSON_ParseWithOpts fp (Some s) want_end req m = Some (item, e, err, m')
    \<and> (e = None \<longleftrightarrow> \<not> want_end) \<and> (err = None \<longleftrightarrow> item \<noteq> None \<or> want_end)
    \<and> (\<forall>n. e = Some n \<longrightarrow> n \<le> length (cstring s) \<and> (item \<noteq> None \<and> req \<longrightarrow> n = length (cstring s)))
    \<and> (\<forall>t n. err = Some (t, n) \<longrightarrow> t = s \<and> n \<le> length (cstring s))"
proof -
  let ?s = "cstring s"
  let ?b = "\<lparr>pa_content = ?s @ [CHR 0x00], pa_offset = 0, pa_depth = 0\<rparr>"
  let ?b1 = "buffer_skip_whitespace ?b"
  have b1: "pa_ok ?b1" "pa_content ?b1 = ?s @ [CHR 0x00]" "pa_depth ?b1 = 0" using skip_bounds [of ?b] by (auto simp: pa_ok_def)
  have pos: "error_position b \<le> length ?s" if "pa_content b = ?s @ [CHR 0x00]" for b
    using that by (auto simp: error_position_def)
  have nul: "n = length ?s" if "(?s @ [CHR 0x00]) ! n = CHR 0x00" "n \<le> length ?s" for n
  proof (rule ccontr)
    assume "n \<noteq> length ?s"
    then have "n < length ?s" using that(2) by simp
    then have "CHR 0x00 \<in> set ?s" using that(1) nth_mem [of n ?s] by (simp add: nth_append)
    then show False by (auto simp: cstring_def dest: set_takeWhileD)
  qed
  obtain i m1 where i: "cJSON_New_Item fp m = (i, m1)" by fastforce
  show ?thesis
  proof (cases i)
    case None
    then show ?thesis using i by (auto simp: cJSON_ParseWithOpts_def error_position_def Let_def)
  next
    case (Some item)
    obtain x b2 m2 where v: "parse_value fp (CJSON_NESTING_LIMIT + 1) item ?b1 m1 = Some (x, b2, m2)"
      and c: "pa_content b2 = ?s @ [CHR 0x00]" and x: "x \<noteq> None \<longrightarrow> pa_offset b2 < length ?s + 1"
      using parse_value_safe [OF assms, of "CJSON_NESTING_LIMIT + 1" ?b1 item m1] b1 by (auto simp: parsed_ok_def)
    show ?thesis
    proof (cases x)
      case None
      then show ?thesis using i Some v pos [OF c] by (auto simp: cJSON_ParseWithOpts_def Let_def)
    next
      case val: (Some val)
      let ?b3 = "buffer_skip_whitespace b2"
      have b3: "pa_content ?b3 = ?s @ [CHR 0x00]" "pa_offset ?b3 \<le> length ?s" using c x val skip_bounds [of b2] by auto
      then have "at_char ?b3 (CHR 0x00) \<Longrightarrow> pa_offset ?b3 = length ?s"
        using nul [of "pa_offset ?b3"] by (simp add: at_char_def here_def)
      then show ?thesis using i Some v val pos [OF b3(1)] x b3(2) by (auto simp: cJSON_ParseWithOpts_def Let_def)
    qed
  qed
qed

lemma int_strtod_prefix: "strtod_prefix int_fp"
  unfolding strtod_prefix_def
proof
  fix s
  show "snd (fp_strtod int_fp s) \<le> length s"
    using length_takeWhile_le [of is_digit s] length_takeWhile_le [of is_digit "tl s"]
    by (cases s) (auto simp: int_fp_def int_strtod_def Let_def)
qed

theorem cjson_parse_safe_witness:
  "\<exists>item e err m'. cJSON_ParseWithOpts int_fp (Some ''[1, 2'') True True [] = Some (item, e, err, m')"
  using cjson_parse_safe [OF int_strtod_prefix, of "''[1, 2''" True True "[]"] by blast

end
