(* ===== verification/Cjson_Roundtrip.thy ===== *)
theory Cjson_Roundtrip
  imports Cjson_Print Cjson_Parse
begin

text \<open>
  Printing and parsing in cJSON fit together: the parser reads the text that the printer makes of an item
  back to that item, for formatted and for unformatted text.
\<close>

section \<open>The rest of the text\<close>

definition rest :: "parse_buffer \<Rightarrow> string" where
  "rest b = drop (pa_offset b) (pa_content b)"

lemma rest_move [simp]: "rest (move n b) = drop n (rest b)"
  by (simp add: rest_def add.commute)

lemma rest_depth [simp]: "rest (b\<lparr>pa_depth := d\<rparr>) = rest b"
  by (simp add: rest_def)

lemma here_rest: "here b = (case rest b of [] \<Rightarrow> None | c # _ \<Rightarrow> Some c)"
  by (auto simp: here_def rest_def nth_opt_def hd_drop_conv_nth [symmetric] split: list.splits)

lemma here_Cons: "rest b = c # t \<Longrightarrow> here b = Some c"
  by (simp add: here_rest)

lemma at_char_Cons: "rest b = c # t \<Longrightarrow> at_char b c' \<longleftrightarrow> c' = c"
  by (auto simp: at_char_def here_rest)

lemma skip_rest:
  assumes "rest b = ws @ c # t" "\<forall>w \<in> set ws. is_blank w" "\<not> is_blank c"
  shows "rest (buffer_skip_whitespace b) = c # t"
proof -
  have tw: "takeWhile is_blank (rest b) = ws" using assms by simp
  have "pa_length b - pa_offset b = length ws + Suc (length t)" using arg_cong [OF assms(1), of length] by (simp add: rest_def)
  then have "buffer_skip_whitespace b = move (length ws) b"
    using tw by (simp add: buffer_skip_whitespace_def Let_def rest_def move_def)
  then show ?thesis using assms(1) by simp
qed

lemma literal_at_rest:
  assumes "s \<noteq> []"
  shows "literal_at b s \<longleftrightarrow> take (length s) (rest b) = s"
proof -
  have "can_read b (length s)" if "take (length s) (rest b) = s"
  proof -
    have "min (pa_length b - pa_offset b) (length s) = length s" using arg_cong [OF that, of length] by (simp add: rest_def)
    moreover have "0 < length s" using assms by simp
    ultimately show ?thesis unfolding can_read_def by linarith
  qed
  then show ?thesis by (auto simp: literal_at_def rest_def)
qed

lemma step_back: "0 < pa_offset b \<Longrightarrow> move 1 (b\<lparr>pa_offset := pa_offset b - 1\<rparr>) = b"
  by (simp add: move_def)

section \<open>Strings read back\<close>

lemma hex_value_digit: "n < 16 \<Longrightarrow> hex_value (hex_digit n) = Some n"
  by (auto simp: hex_value_def hex_digit_def Let_def)

lemma parse_hex4_escape:
  assumes "of_char c < (32::nat)" shows "parse_hex4 (tl (hex4 c) @ u) = Some (of_char c)"
proof -
  have four: "(4::nat) = Suc (Suc (Suc (Suc 0)))" by simp
  have zero: "hex_value (CHR ''0'') = Some 0" by code_simp
  have "of_char c div 16 < (16::nat)" "of_char c mod 16 < (16::nat)" using assms by auto
  then have d: "hex_value (hex_digit (of_char c div 16)) = Some (of_char c div 16)" "hex_value (hex_digit (of_char c mod 16)) = Some (of_char c mod 16)"
    by (simp_all add: hex_value_digit)
  have "push_bit 4 (of_char c div 16) + of_char c mod 16 = (of_char c :: nat)" by (simp add: push_bit_eq_mult)
  then show ?thesis unfolding parse_hex4_def hex4_def by (subst four) (simp add: zero d)
qed

lemma utf8_encode_ascii: "cp < 128 \<Longrightarrow> utf8_encode cp = Some [char_of cp]"
proof -
  assume cp: "cp < 128"
  have "cp AND 0x7F = take_bit 7 cp" by (simp add: take_bit_eq_mask mask_eq_exp_minus_1)
  then show ?thesis using cp by (simp add: utf8_encode_def Let_def take_bit_nat_eq_self)
qed

lemma utf16_escape: "of_char c < (32::nat) \<Longrightarrow> utf16_literal_to_utf8 (CHR 0x5C # hex4 c @ u) = Some (Some (6, [c]))"
proof -
  assume c: "of_char c < (32::nat)"
  have "drop 2 (CHR 0x5C # hex4 c @ u) = tl (hex4 c) @ u" by (simp add: hex4_def)
  then show ?thesis using parse_hex4_escape [OF c, of u] utf8_encode_ascii [of "of_char c"] c
    by (simp add: utf16_literal_to_utf8_def hex4_def)
qed

lemma simple_short: "short_escape c = Some e \<Longrightarrow> simple_escape e = Some c"
  by (auto simp: short_escape_def simple_escape_def split: if_splits)

lemma decode_escape:
  assumes "length out < cap"
  shows "decode_loop cap (escape c @ u) out = decode_loop cap u (out @ [c])"
proof (cases "plain_char c")
  case True
  then show ?thesis using assms by (simp add: escape_def plain_char_def)
next
  case False
  show ?thesis
  proof (cases "short_escape c")
    case (Some e)
    then show ?thesis using False simple_short [OF Some] assms by (simp add: escape_def)
  next
    case None
    then have "of_char c < (32::nat)" using False by (auto simp: plain_char_def short_escape_def split: if_splits)
    note lit = utf16_escape [OF this, of u]
    have "simple_escape (CHR ''u'') = None" by (simp add: simple_escape_def)
    then show ?thesis using None False lit assms by (simp add: escape_def hex4_def)
  qed
qed

lemma decode_escaped:
  "length out + length s < cap \<Longrightarrow> decode_loop cap (escaped s @ u) out = decode_loop cap u (out @ s)"
  by (induction s arbitrary: out) (simp_all add: escaped_def decode_escape)

lemma hex_digit_plain: "n < 16 \<Longrightarrow> hex_digit n \<noteq> CHR 0x22 \<and> hex_digit n \<noteq> CHR 0x5C"
proof -
  assume n: "n < 16"
  have "of_char (hex_digit n) \<noteq> (34::nat) \<and> of_char (hex_digit n) \<noteq> (92::nat)" using n by (auto simp: hex_digit_def)
  then show ?thesis by auto
qed

lemma scan_escape: "scan_string u = Some (v, n) \<Longrightarrow> \<exists>k. scan_string (escape c @ u) = Some (escape c @ v, k)"
proof (cases "plain_char c")
  case False
  assume u: "scan_string u = Some (v, n)"
  show ?thesis
  proof (cases "short_escape c")
    case None
    then have "of_char c < (32::nat)" using False by (auto simp: plain_char_def short_escape_def split: if_splits)
    then have "of_char c div 16 < (16::nat)" "of_char c mod 16 < (16::nat)" by auto
    then show ?thesis using None False u hex_digit_plain by (simp add: escape_def hex4_def)
  qed (use False u in \<open>simp add: escape_def\<close>)
qed (simp add: escape_def plain_char_def)

lemma scan_escaped: "\<exists>k. scan_string (escaped s @ CHR 0x22 # t) = Some (escaped s, k)"
proof (induction s)
  case (Cons c s)
  then obtain k where "scan_string (escaped s @ CHR 0x22 # t) = Some (escaped s, k)" by blast
  from scan_escape [OF this, of c] show ?case by (simp add: escaped_def)
qed (simp add: escaped_def)

lemma decoded_bound_escape: "1 + decoded_bound u \<le> decoded_bound (escape c @ u)"
proof -
  have "decoded_bound u \<le> decoded_bound (tl (hex4 c) @ u)" using decoded_bound_drop [of 4 "tl (hex4 c) @ u"] by (simp add: hex4_def)
  then show ?thesis by (auto simp: escape_def hex4_def decoded_bound_plain plain_char_def split: option.splits)
qed

lemma decoded_bound_escaped: "length s \<le> decoded_bound (escaped s)"
proof (induction s)
  case (Cons c s)
  then show ?case using decoded_bound_escape [of "escaped s" c] by (simp add: escaped_def)
qed simp

lemma parse_quoted:
  assumes "rest b = quoted s @ t" "CHR 0x00 \<notin> set s" "all_ok m"
  shows "\<exists>m'. parse_string item b m = Some (Some (set_valuestring (Some s) (set_type cJSON_String item)), move (length (quoted s)) b, m') \<and> all_ok m'"
proof -
  obtain k where k: "scan_string (escaped s @ CHR 0x22 # t) = Some (escaped s, k)" using scan_escaped by blast
  have r: "drop (pa_offset b + 1) (pa_content b) = escaped s @ CHR 0x22 # t"
    using arg_cong [OF assms(1), of "drop 1"] by (simp add: rest_def quoted_def add.commute)
  obtain m' where m': "malloc_ok m = (True, m')" "all_ok m'" using malloc_all_ok [OF assms(3)] by blast
  let ?cap = "Suc (length (escaped s)) - k + 1"
  have "length s < ?cap" using scan_string_bound [OF k] decoded_bound_escaped [of s] by auto
  then have "decode_loop ?cap (escaped s) [] = Some (Inr s)" using decode_escaped [of "[]" s ?cap "[]"] by simp
  moreover have "cstring s = s" using assms(2) unfolding cstring_def by (auto simp: takeWhile_eq_all_conv)
  moreover have "here b = Some (CHR 0x22)" using assms(1) by (simp add: here_rest quoted_def)
  ultimately show ?thesis using k r m' by (simp add: parse_string_def Let_def quoted_def)
qed

section \<open>Numbers read back\<close>

text \<open>
  The printed number is one: it has the characters of a number and starts like one, and \<open>strtod\<close> reads the
  whole text back to the number.
\<close>

definition reads_back :: "'d fp \<Rightarrow> 'd \<Rightarrow> bool" where
  "reads_back fp d \<longleftrightarrow> (let s = number_text fp d in
     s \<noteq> [] \<and> number_buffer fp d \<noteq> None \<and> list_all number_char s \<and> number_start (hd s)
     \<and> fp_strtod fp (map (\<lambda>c. if c = CHR ''.'' then fp_point fp else c) s) = (d, length s))"

lemma number_text_length: "reads_back fp d \<Longrightarrow> length (number_text fp d) \<le> 63"
  by (auto simp: reads_back_def Let_def number_text_def dot_point_def number_buffer_def split: if_splits prod.splits)

lemma parse_number_text:
  assumes "rest b = number_text fp d @ c # t" "reads_back fp d" "\<not> number_char c"
  shows "parse_number fp item b = (Some (set_type cJSON_Number (set_valueint (saturate fp d) (set_valuedouble d item))), move (length (number_text fp d)) b)"
proof -
  let ?s = "number_text fp d"
  have "takeWhile number_char (take 63 (?s @ c # t)) = ?s"
    using assms(2,3) number_text_length [OF assms(2)] by (auto simp: reads_back_def Let_def list_all_iff takeWhile_append take_Cons')
  then show ?thesis using assms(1,2) by (simp add: parse_number_def reads_back_def Let_def rest_def [symmetric])
qed

section \<open>Items read back\<close>

text \<open>
  The items that the parser makes: a plain type without flags; a string only in a string item, without
  NUL; \<open>valueint\<close> and \<open>valuedouble\<close> as the parser sets them; children only below arrays and objects, named
  exactly below objects.
\<close>

fun canonical :: "'d fp \<Rightarrow> 'd cJSON \<Rightarrow> bool" where
  "canonical fp (CJSON t vs vi vd nm cs) \<longleftrightarrow>
     t \<in> {cJSON_NULL, cJSON_False, cJSON_True, cJSON_Number, cJSON_String, cJSON_Array, cJSON_Object}
     \<and> (if t = cJSON_String then vs \<noteq> None \<and> CHR 0x00 \<notin> set (the vs) else vs = None)
     \<and> vi = (if t = cJSON_True then 1 else if t = cJSON_Number then saturate fp vd else 0)
     \<and> (if t = cJSON_Number then reads_back fp vd else vd = fp_zero fp)
     \<and> (t \<notin> {cJSON_Array, cJSON_Object} \<longrightarrow> cs = [])
     \<and> (\<forall>c \<in> set cs. canonical fp c \<and> (if t = cJSON_Object then named c else name_of c = None))"

text \<open>At most \<open>n\<close> arrays and objects are nested in each other.\<close>

fun nested_within :: "nat \<Rightarrow> 'd cJSON \<Rightarrow> bool" where
  "nested_within n (CJSON t vs vi vd nm cs) \<longleftrightarrow>
     (t \<in> {cJSON_Array, cJSON_Object} \<longrightarrow> 0 < n \<and> (\<forall>c \<in> set cs. nested_within (n - 1) c))"

definition reads :: "parse_buffer \<Rightarrow> 'r \<Rightarrow> string \<Rightarrow> 'r parsed \<Rightarrow> bool" where
  "reads b x t r \<longleftrightarrow> (\<exists>b' m'. r = Some (Some x, b', m') \<and> rest b' = t \<and> pa_content b' = pa_content b
     \<and> pa_depth b' = pa_depth b \<and> all_ok m')"

lemma reads_then:
  assumes "reads b x t r"
    and "\<And>b' m'. rest b' = t \<Longrightarrow> pa_content b' = pa_content b \<Longrightarrow> pa_depth b' = pa_depth b \<Longrightarrow> all_ok m' \<Longrightarrow> reads b y u (k x b' m')"
  shows "reads b y u (p_then r k)"
proof -
  obtain b' m' where "r = Some (Some x, b', m')" "rest b' = t" "pa_content b' = pa_content b" "pa_depth b' = pa_depth b" "all_ok m'"
    using assms(1) by (auto simp: reads_def)
  then show ?thesis using assms(2) by (simp add: p_then_def)
qed

lemma reads_same: "reads b' x t r \<Longrightarrow> pa_content b' = pa_content b \<Longrightarrow> pa_depth b' = pa_depth b \<Longrightarrow> reads b x t r"
  by (simp add: reads_def)

lemma reads_new_item:
  assumes "all_ok m" "\<And>m'. all_ok m' \<Longrightarrow> reads b y u (k (zero_item fp) b m')"
  shows "reads b y u (p_then (new_item fp b m) k)"
  using malloc_all_ok [OF assms(1)] assms(2) by (auto simp: p_then_new_item cJSON_New_Item_def)

lemma reads_quoted:
  assumes "rest b = quoted s @ t" "CHR 0x00 \<notin> set s" "all_ok m"
  shows "reads b (set_valuestring (Some s) (set_type cJSON_String item)) t (parse_string item b m)"
  using parse_quoted [OF assms, of item] assms(1) by (auto simp: reads_def)

text \<open>A value parser that reads the text of an item back, at a nesting depth.\<close>

definition base_item :: "'d fp \<Rightarrow> u32 \<Rightarrow> string option \<Rightarrow> 'd cJSON" where
  "base_item fp t nm = CJSON t None 0 (fp_zero fp) nm []"

definition reads_item :: "'d fp \<Rightarrow> bool \<Rightarrow> 'd value_parser \<Rightarrow> nat \<Rightarrow> 'd cJSON \<Rightarrow> bool" where
  "reads_item fp fmt pv depth item \<longleftrightarrow> (\<forall>b m d c t t0. pa_depth b = depth \<longrightarrow> all_ok m \<longrightarrow> \<not> number_char c
     \<longrightarrow> rest b = render fp fmt d item @ c # t \<longrightarrow> reads b item (c # t) (pv (base_item fp t0 (name_of item)) b m))"

lemma reads_itemD:
  "reads_item fp fmt pv (pa_depth b) item \<Longrightarrow> all_ok m \<Longrightarrow> \<not> number_char c \<Longrightarrow> rest b = render fp fmt d item @ c # t
    \<Longrightarrow> reads b item (c # t) (pv (base_item fp t0 (name_of item)) b m)"
  by (simp add: reads_item_def)

lemma number_start_plain: "number_start c \<Longrightarrow> \<not> is_blank c \<and> c \<noteq> CHR '']'' \<and> c \<noteq> CHR 0x22"
  by (auto simp: number_start_def is_blank_def)

lemma canonical_text:
  assumes "canonical fp item"
  shows "\<exists>c u. render fp fmt d item = c # u \<and> \<not> is_blank c \<and> c \<noteq> CHR '']''"
proof (cases item)
  case (CJSON t vs vi vd nm cs)
  have "\<exists>c u. number_text fp vd = c # u \<and> \<not> is_blank c \<and> c \<noteq> CHR '']''" if "t = cJSON_Number"
    using assms CJSON that number_start_plain by (cases "number_text fp vd") (auto simp: reads_back_def cjson_types)
  then show ?thesis using assms CJSON by (auto simp: cjson_types is_blank_def quoted_def)
qed

lemma length_render_elements:
  "\<forall>c \<in> set cs. canonical fp c \<Longrightarrow> length cs \<le> length (render_elements fp fmt d cs)"
proof (induction cs)
  case (Cons c cs)
  then show ?case using canonical_text [of fp c fmt d] by fastforce
qed simp

lemma length_render_members: "length cs \<le> length (render_members fp fmt d cs)"
  by (induction cs) (auto simp: quoted_def)

text \<open>The white space that the printers make.\<close>

definition blanks :: "string \<Rightarrow> bool" where
  "blanks ws \<longleftrightarrow> list_all is_blank ws"

lemma blanks_simps [simp]:
  "blanks []" "blanks (TAB # ws) = blanks ws" "blanks (NL # ws) = blanks ws" "blanks (CHR '' '' # ws) = blanks ws"
  "blanks (v @ ws) \<longleftrightarrow> blanks v \<and> blanks ws" "blanks (replicate n TAB)"
  by (auto simp: blanks_def TAB_def NL_def is_blank_def list_all_iff)

lemma skip_blanks: "rest b = ws @ c # t \<Longrightarrow> blanks ws \<Longrightarrow> \<not> is_blank c \<Longrightarrow> rest (buffer_skip_whitespace b) = c # t"
  by (rule skip_rest) (auto simp: blanks_def list_all_iff)

lemma dropWhile_blanks: "blanks ws \<Longrightarrow> dropWhile is_blank (ws @ xs) = dropWhile is_blank xs"
  by (simp add: blanks_def list_all_iff dropWhile_append2)

lemma skip_dropWhile: "rest b = xs @ c # t \<Longrightarrow> \<not> is_blank c \<Longrightarrow> rest (buffer_skip_whitespace b) = dropWhile is_blank (rest b)"
proof -
  assume a: "rest b = xs @ c # t" "\<not> is_blank c"
  then have "dropWhile is_blank (rest b) \<noteq> []" by auto
  then obtain e u where e: "dropWhile is_blank (rest b) = e # u" by (cases "dropWhile is_blank (rest b)") auto
  moreover have "rest b = takeWhile is_blank (rest b) @ e # u" using e takeWhile_dropWhile_id [of is_blank "rest b"] by simp
  moreover have "\<not> is_blank e" using e by (metis dropWhile_eq_Cons_conv)
  ultimately show ?thesis using skip_rest [of b "takeWhile is_blank (rest b)" e u] set_takeWhileD by metis
qed

lemma delimiters: "\<not> number_char (CHR '','')" "\<not> number_char (CHR '']'')" "\<not> number_char (CHR ''}'')" "\<not> number_char NL" "\<not> number_char (CHR 0x00)"
  "\<not> is_blank (CHR '','')" "\<not> is_blank (CHR '']'')" "\<not> is_blank (CHR ''}'')" "\<not> is_blank (CHR '':'')" "\<not> is_blank (CHR 0x22)"
  by (simp_all add: number_char_def is_blank_def NL_def)

lemma blank_not_number: "is_blank c \<Longrightarrow> \<not> number_char c"
  by (auto simp: is_blank_def number_char_def)

lemma array_loop_reads:
  assumes "\<forall>c \<in> set cs. reads_item fp fmt pv D c \<and> canonical fp c \<and> name_of c = None"
  shows "cs \<noteq> [] \<Longrightarrow> length cs \<le> n \<Longrightarrow> rest (buffer_skip_whitespace (move 1 b)) = dropWhile is_blank (render_elements fp fmt d cs @ CHR '']'' # t)
    \<Longrightarrow> pa_depth b = D \<Longrightarrow> all_ok m \<Longrightarrow> reads b (es @ cs) (CHR '']'' # t) (array_loop fp pv n es b m)"
  using assms
proof (induction cs arbitrary: n b es m)
  case (Cons c cs)
  obtain n' where n: "n = Suc n'" using Cons.prems(2) by (cases n) auto
  let ?sep = "if cs \<noteq> [] then (if fmt then '', '' else '','') else []"
  obtain d0 t' where t': "?sep @ render_elements fp fmt d cs @ CHR '']'' # t = d0 # t'" "d0 = (if cs \<noteq> [] then CHR '','' else CHR '']'')"
    by (cases "cs = []"; cases fmt) auto
  then have d0: "\<not> number_char d0" "\<not> is_blank d0" using delimiters by auto
  obtain e u where e: "render fp fmt d c = e # u" "\<not> is_blank e" using canonical_text [of fp c fmt d] Cons.prems(6) by auto
  have r2: "rest (buffer_skip_whitespace (move 1 b)) = render fp fmt d c @ d0 # t'"
    using Cons.prems(3) t'(1) e by simp
  have zi: "zero_item fp = base_item fp 0 (name_of c)" using Cons.prems(6) by (simp add: zero_item_def base_item_def)
  show ?case unfolding n array_loop.simps
  proof (rule reads_new_item [OF Cons.prems(5)], rule reads_then)
    fix m1 :: mem assume m1: "all_ok m1"
    have "reads_item fp fmt pv (pa_depth (buffer_skip_whitespace (move 1 b))) c" using Cons.prems(4,6) by simp
    from reads_itemD [OF this m1 d0(1) r2, of 0] show "reads b c (d0 # t') (pv (zero_item fp) (buffer_skip_whitespace (move 1 b)) m1)"
      unfolding zi by (rule reads_same) simp_all
    fix b2 m2 assume b2: "rest b2 = d0 # t'" "pa_content b2 = pa_content b" "pa_depth b2 = pa_depth b" "all_ok m2"
    let ?b3 = "buffer_skip_whitespace b2"
    have b3: "rest ?b3 = d0 # t'" using skip_blanks [of b2 "[]"] b2(1) d0(2) by simp
    show "reads b (es @ c # cs) (CHR '']'' # t) (let b = buffer_skip_whitespace b2 in
         if at_char b (CHR '','') then array_loop fp pv n' (es @ [c]) b m2 else Some (Some (es @ [c]), b, m2))"
    proof (cases "cs = []")
      case True
      then show ?thesis using b3 t' b2 at_char_Cons [OF b3] by (simp add: reads_def)
    next
      case False
      then have "rest (move 1 ?b3) = (if fmt then '' '' else []) @ render_elements fp fmt d cs @ CHR '']'' # t" using b3 t' by (auto split: if_splits)
      then have "rest (buffer_skip_whitespace (move 1 ?b3)) = dropWhile is_blank (render_elements fp fmt d cs @ CHR '']'' # t)"
        using skip_dropWhile [of "move 1 ?b3" "(if fmt then '' '' else []) @ render_elements fp fmt d cs" "CHR '']''" t] delimiters
          dropWhile_blanks [of "if fmt then '' '' else []"] by simp
      from Cons.IH [OF False _ this, of n' m2 "es @ [c]"] have "reads ?b3 ((es @ [c]) @ cs) (CHR '']'' # t) (array_loop fp pv n' (es @ [c]) ?b3 m2)"
        using Cons.prems n b2 by simp
      then have "reads b (es @ c # cs) (CHR '']'' # t) (array_loop fp pv n' (es @ [c]) ?b3 m2)"
        using reads_same [of ?b3 _ _ _ b] b2 by simp
      then show ?thesis using False at_char_Cons [OF b3] t'(2) by (simp add: Let_def)
    qed
  qed
qed simp

lemma object_loop_reads:
  assumes "\<forall>c \<in> set cs. reads_item fp fmt pv D c \<and> canonical fp c \<and> named c" and "blanks ws'"
  shows "cs \<noteq> [] \<Longrightarrow> length cs \<le> n \<Longrightarrow> rest (buffer_skip_whitespace (move 1 b)) = dropWhile is_blank (render_members fp fmt d cs @ ws' @ CHR ''}'' # t)
    \<Longrightarrow> pa_depth b = D \<Longrightarrow> all_ok m \<Longrightarrow> reads b (es @ cs) (CHR ''}'' # t) (object_loop fp pv n es b m)"
  using assms(1)
proof (induction cs arbitrary: n b es m)
  case (Cons c cs)
  obtain n' where n: "n = Suc n'" using Cons.prems(2) by (cases n) auto
  obtain name where name: "name_of c = Some name" "CHR 0x00 \<notin> set name" using Cons.prems(6) by (auto simp: named_def)
  let ?nl = "if fmt then [NL] else []" and ?tab = "if fmt then [TAB] else []"
  let ?more = "render_members fp fmt d cs @ ws' @ CHR ''}'' # t"
  let ?tail = "(if cs \<noteq> [] then '','' else []) @ ?nl @ ?more"
  let ?d0 = "if cs \<noteq> [] then CHR '','' else CHR ''}''"
  obtain e0 t0 where e0: "?tail = e0 # t0" "\<not> number_char e0"
    using delimiters assms(2) blank_not_number by (cases "cs = []"; cases fmt; cases ws') (auto simp: blanks_def)
  obtain ws2 t2 where t2: "?tail = ws2 @ ?d0 # t2" "blanks ws2" "cs \<noteq> [] \<Longrightarrow> t2 = ?nl @ ?more" "cs = [] \<Longrightarrow> t2 = t"
  proof (cases "cs = []")
    case True
    then show thesis using that [of "?nl @ ws'" t] assms(2) by simp
  qed (use that [of "[]" "?nl @ ?more"] in simp)
  obtain e u where e: "render fp fmt d c = e # u" "\<not> is_blank e" using canonical_text [of fp c fmt d] Cons.prems(6) by auto
  let ?val = "render fp fmt d c @ ?tail"
  have r1: "rest (buffer_skip_whitespace (move 1 b)) = quoted name @ CHR '':'' # ?tab @ ?val"
    using Cons.prems(3) name dropWhile_blanks [of "if fmt then replicate d TAB else []"] delimiters by (auto simp: text_of_def quoted_def)
  show ?case unfolding n object_loop.simps
  proof (rule reads_new_item [OF Cons.prems(5)], rule reads_then)
    fix m1 :: mem assume m1: "all_ok m1"
    show "reads b (set_valuestring (Some name) (set_type cJSON_String (zero_item fp))) (CHR '':'' # ?tab @ ?val)
        (parse_string (zero_item fp) (buffer_skip_whitespace (move 1 b)) m1)"
      by (rule reads_same [OF reads_quoted [OF r1 name(2) m1]]) simp_all
    fix b2 m2 assume b2: "rest b2 = CHR '':'' # ?tab @ ?val" "pa_content b2 = pa_content b" "pa_depth b2 = pa_depth b" "all_ok m2"
    let ?key = "set_valuestring (Some name) (set_type cJSON_String (zero_item fp))"
    have base: "set_valuestring None (set_name (valuestring ?key) ?key) = base_item fp cJSON_String (name_of c)"
      by (simp add: zero_item_def base_item_def name)
    let ?b3 = "buffer_skip_whitespace b2"
    have b3: "rest ?b3 = CHR '':'' # ?tab @ ?val" using skip_blanks [of b2 "[]"] b2(1) delimiters by simp
    let ?b4 = "buffer_skip_whitespace (move 1 ?b3)"
    have b4: "rest ?b4 = render fp fmt d c @ e0 # t0"
      using skip_blanks [of "move 1 ?b3" ?tab e "u @ ?tail"] b3 e e0(1) by simp
    have "reads b (es @ c # cs) (CHR ''}'' # t) (p_then (pv (base_item fp cJSON_String (name_of c)) ?b4 m2) (\<lambda>v b m.
        (let b = buffer_skip_whitespace b in
         if at_char b (CHR '','') then object_loop fp pv n' (es @ [v]) b m else Some (Some (es @ [v]), b, m))))"
    proof (rule reads_then)
      have "reads_item fp fmt pv (pa_depth ?b4) c" using Cons.prems(4,6) b2(3) by simp
      from reads_itemD [OF this b2(4) e0(2) b4]
      show "reads b c (e0 # t0) (pv (base_item fp cJSON_String (name_of c)) ?b4 m2)" by (rule reads_same) (use b2 in simp_all)
      fix b5 m5 assume b5: "rest b5 = e0 # t0" "pa_content b5 = pa_content b" "pa_depth b5 = pa_depth b" "all_ok m5"
      let ?b6 = "buffer_skip_whitespace b5"
      have b6: "rest ?b6 = ?d0 # t2" using skip_blanks [of b5 ws2 ?d0 t2] b5(1) e0(1) t2(1,2) delimiters by simp
      show "reads b (es @ c # cs) (CHR ''}'' # t) (let b = ?b6 in
         if at_char b (CHR '','') then object_loop fp pv n' (es @ [c]) b m5 else Some (Some (es @ [c]), b, m5))"
      proof (cases "cs = []")
        case True
        then show ?thesis using b6 t2(4) b5 at_char_Cons [OF b6] by (simp add: reads_def)
      next
        case False
        then have "rest (move 1 ?b6) = ?nl @ ?more" using b6 t2(3) by simp
        then have "rest (buffer_skip_whitespace (move 1 ?b6)) = dropWhile is_blank ?more"
          using skip_dropWhile [of "move 1 ?b6" "?nl @ render_members fp fmt d cs @ ws'" "CHR ''}''" t] delimiters dropWhile_blanks [of ?nl] by simp
        from Cons.IH [OF False _ this, of n' m5 "es @ [c]"]
        have "reads ?b6 ((es @ [c]) @ cs) (CHR ''}'' # t) (object_loop fp pv n' (es @ [c]) ?b6 m5)"
          using Cons.prems n b5 by simp
        then have "reads b (es @ c # cs) (CHR ''}'' # t) (object_loop fp pv n' (es @ [c]) ?b6 m5)"
          using reads_same [of ?b6 _ _ _ b] b5 by simp
        then show ?thesis using False at_char_Cons [OF b6] by (simp add: Let_def)
      qed
    qed
    then show "reads b (es @ c # cs) (CHR ''}'' # t) (let b = ?b3; current = set_valuestring None (set_name (valuestring ?key) ?key)
        in if \<not> at_char b (CHR '':'') then Some (None, b, m2)
           else p_then (pv current (buffer_skip_whitespace (move 1 b)) m2) (\<lambda>v b m.
             (let b = buffer_skip_whitespace b in
              if at_char b (CHR '','') then object_loop fp pv n' (es @ [v]) b m else Some (Some (es @ [v]), b, m))))"
      unfolding Let_def base using at_char_Cons [OF b3] by simp
  qed
qed simp

text \<open>What arrays and objects share: from the opening bracket to the closing one.\<close>

lemma bracket_reads:
  assumes b: "rest b = opn # ws @ body @ cls # t" "blanks ws" "\<not> is_blank cls" "all_ok m"
    and body: "cs = [] \<Longrightarrow> blanks body"
      "cs \<noteq> [] \<Longrightarrow> \<exists>v e u. body = v @ e # u \<and> blanks v \<and> \<not> is_blank e \<and> e \<noteq> cls"
    and loop: "\<And>b'. cs \<noteq> [] \<Longrightarrow> rest (buffer_skip_whitespace (move 1 b')) = dropWhile is_blank (body @ cls # t)
        \<Longrightarrow> pa_content b' = pa_content b \<Longrightarrow> pa_depth b' = pa_depth b + 1 \<Longrightarrow> reads b' cs (cls # t) (loop (pa_length b') [] b' m)"
  shows "reads b (f cs) t (brackets loop cls f b m)"
proof -
  let ?bd = "b\<lparr>pa_depth := pa_depth b + 1\<rparr>"
  let ?b1 = "buffer_skip_whitespace (move 1 ?bd)"
  let ?b0 = "?b1\<lparr>pa_offset := pa_offset ?b1 - 1\<rparr>"
  let ?p = "if at_char ?b1 cls then Some (Some [], ?b1, m)
              else if \<not> can_access_at_index ?b1 0 then Some (None, ?b0, m)
              else p_then (loop (pa_length ?b1) [] ?b0 m) (\<lambda>es b m.
                if at_char b cls then Some (Some es, b, m) else Some (None, b, m))"
  have r: "rest ?b1 = dropWhile is_blank (body @ cls # t)"
    using skip_dropWhile [of "move 1 ?bd" "ws @ body" cls t] b dropWhile_blanks [OF b(2), of "body @ cls # t"] by simp
  have "reads ?bd cs (cls # t) ?p"
  proof (cases "cs = []")
    case True
    then have "rest ?b1 = cls # t" using r body(1) dropWhile_blanks [of body] b(3) by simp
    then show ?thesis using True b(4) at_char_Cons [of ?b1 cls t] by (simp add: reads_def)
  next
    case False
    then obtain e u where e: "rest ?b1 = e # u" "\<not> is_blank e" "e \<noteq> cls" using r body(2) dropWhile_blanks by fastforce
    have "0 < pa_offset ?b1"
    proof -
      have "pa_offset (move 1 ?bd) < pa_length ?bd" using arg_cong [OF b(1), of length] by (simp add: rest_def)
      then show ?thesis using skip_bounds [of "move 1 ?bd"] by auto
    qed
    then have m1: "move 1 ?b0 = ?b1" by (rule step_back)
    have "rest (buffer_skip_whitespace ?b1) = rest ?b1" using skip_dropWhile [of ?b1 "[]" e u] e by simp
    then have l: "reads ?b0 cs (cls # t) (loop (pa_length ?b0) [] ?b0 m)" using m1 r False by (intro loop) simp_all
    have acc: "can_access_at_index ?b1 0" using arg_cong [OF e(1), of length] by (simp add: rest_def can_access_at_index_def)
    have "\<not> at_char ?b1 cls" using at_char_Cons [OF e(1)] e(3) by simp
    then show ?thesis using acc l at_char_Cons by (auto simp: reads_def p_then_def)
  qed
  then obtain b' m' where "?p = Some (Some cs, b', m')" "rest b' = cls # t" "pa_content b' = pa_content b" "pa_depth b' = pa_depth b + 1" "all_ok m'"
    by (auto simp: reads_def)
  then show ?thesis unfolding Let_def by (simp add: p_then_def reads_def)
qed

lemma literal_first: "rest b = c # t \<Longrightarrow> s \<noteq> [] \<Longrightarrow> c \<noteq> hd s \<Longrightarrow> \<not> literal_at b s"
  by (cases s) (auto simp: literal_at_rest)

lemma literal_reads: "rest b = s @ t \<Longrightarrow> s \<noteq> [] \<Longrightarrow> literal_at b s"
  by (simp add: literal_at_rest)

text \<open>A value that starts with a given character: the literals are ruled out.\<close>

lemma parse_value_char:
  assumes "rest b = c # t" "c \<notin> set ''nft''"
  shows "parse_value fp (Suc k) item b m =
    (if c = CHR 0x22 then parse_string item b m
     else if number_start c then (case parse_number fp item b of (r, b) \<Rightarrow> Some (r, b, m))
     else if c = CHR ''['' then parse_array fp (parse_value fp k) item b m
     else if c = CHR ''{'' then parse_object fp (parse_value fp k) item b m
     else Some (None, b, m))"
  using literal_first [OF assms(1), of "''null''"] literal_first [OF assms(1), of "''false''"]
    literal_first [OF assms(1), of "''true''"] here_Cons [OF assms(1)] assms(2) by simp

lemma reads_array:
  assumes "\<forall>c \<in> set cs. reads_item fp fmt pv (pa_depth b + 1) c \<and> canonical fp c \<and> name_of c = None"
    and "rest b = CHR ''['' # render_elements fp fmt d cs @ CHR '']'' # t" "all_ok m" "pa_depth b < CJSON_NESTING_LIMIT"
  shows "reads b (set_child cs (set_type cJSON_Array item)) t (parse_array fp pv item b m)"
proof -
  have len: "length cs \<le> pa_length b"
    using length_render_elements [of cs fp fmt d] assms(1) arg_cong [OF assms(2), of length] by (simp add: rest_def)
  have "reads b (set_child cs (set_type cJSON_Array item)) t (let b = buffer_skip_whitespace (move 1 (b\<lparr>pa_depth := pa_depth b + 1\<rparr>)) in
           p_then
             (if at_char b (CHR '']'') then Some (Some [], b, m)
              else if \<not> can_access_at_index b 0 then Some (None, b\<lparr>pa_offset := pa_offset b - 1\<rparr>, m)
              else p_then (array_loop fp pv (pa_length b) [] (b\<lparr>pa_offset := pa_offset b - 1\<rparr>) m) (\<lambda>es b m.
                if at_char b (CHR '']'') then Some (Some es, b, m) else Some (None, b, m)))
             (\<lambda>es b m. Some (Some (set_child es (set_type cJSON_Array item)), move 1 (b\<lparr>pa_depth := pa_depth b - 1\<rparr>), m)))"
  proof (rule bracket_reads [where ws = "[]"])
    show "rest b = CHR ''['' # [] @ render_elements fp fmt d cs @ CHR '']'' # t" using assms(2) by simp
    show "\<exists>v e u. render_elements fp fmt d cs = v @ e # u \<and> blanks v \<and> \<not> is_blank e \<and> e \<noteq> CHR '']''" if "cs \<noteq> []"
    proof -
      obtain c cs' where cs: "cs = c # cs'" using \<open>cs \<noteq> []\<close> by (cases cs) auto
      obtain e u where "render fp fmt d c = e # u" "\<not> is_blank e" "e \<noteq> CHR '']''" using canonical_text [of fp c fmt d] assms(1) cs by auto
      then show ?thesis using cs by (intro exI [of _ "[]"]) simp
    qed
    show "reads b' cs (CHR '']'' # t) (array_loop fp pv (pa_length b') [] b' m)"
      if "cs \<noteq> []" "rest (buffer_skip_whitespace (move 1 b')) = dropWhile is_blank (render_elements fp fmt d cs @ CHR '']'' # t)"
        "pa_content b' = pa_content b" "pa_depth b' = pa_depth b + 1" for b'
      using array_loop_reads [OF assms(1) that(1) _ that(2), of "pa_length b'" m "[]"] that len assms(3) by simp
  qed (use delimiters assms(3) in simp_all)
  then show ?thesis using assms(2,4) here_Cons [of "b\<lparr>pa_depth := pa_depth b + 1\<rparr>"] by (simp add: parse_array_def)
qed

lemma reads_object:
  assumes "\<forall>c \<in> set cs. reads_item fp fmt pv (pa_depth b + 1) c \<and> canonical fp c \<and> named c" "blanks ws" "blanks ws'"
    and "rest b = CHR ''{'' # ws @ render_members fp fmt d cs @ ws' @ CHR ''}'' # t" "all_ok m" "pa_depth b < CJSON_NESTING_LIMIT"
  shows "reads b (set_child cs (set_type cJSON_Object item)) t (parse_object fp pv item b m)"
proof -
  have len: "length cs \<le> pa_length b"
    using length_render_members [of cs fp fmt d] arg_cong [OF assms(4), of length] by (simp add: rest_def)
  have "reads b (set_child cs (set_type cJSON_Object item)) t (let b = buffer_skip_whitespace (move 1 (b\<lparr>pa_depth := pa_depth b + 1\<rparr>)) in
           p_then
             (if at_char b (CHR ''}'') then Some (Some [], b, m)
              else if \<not> can_access_at_index b 0 then Some (None, b\<lparr>pa_offset := pa_offset b - 1\<rparr>, m)
              else p_then (object_loop fp pv (pa_length b) [] (b\<lparr>pa_offset := pa_offset b - 1\<rparr>) m) (\<lambda>es b m.
                if at_char b (CHR ''}'') then Some (Some es, b, m) else Some (None, b, m)))
             (\<lambda>es b m. Some (Some (set_child es (set_type cJSON_Object item)), move 1 (b\<lparr>pa_depth := pa_depth b - 1\<rparr>), m)))"
  proof (rule bracket_reads [where ws = ws and body = "render_members fp fmt d cs @ ws'"])
    show "rest b = CHR ''{'' # ws @ (render_members fp fmt d cs @ ws') @ CHR ''}'' # t" using assms(4) by simp
    show "\<exists>v e u. render_members fp fmt d cs @ ws' = v @ e # u \<and> blanks v \<and> \<not> is_blank e \<and> e \<noteq> CHR ''}''" if "cs \<noteq> []"
    proof -
      obtain c cs' where cs: "cs = c # cs'" using \<open>cs \<noteq> []\<close> by (cases cs) auto
      let ?v = "if fmt then replicate d TAB else []"
      have "\<exists>u. render_members fp fmt d cs @ ws' = ?v @ CHR 0x22 # u" unfolding cs by (simp add: quoted_def)
      moreover have "blanks ?v" "\<not> is_blank (CHR 0x22)" "CHR 0x22 \<noteq> CHR ''}''" using delimiters by simp_all
      ultimately show ?thesis by blast
    qed
    show "reads b' cs (CHR ''}'' # t) (object_loop fp pv (pa_length b') [] b' m)"
      if "cs \<noteq> []" "rest (buffer_skip_whitespace (move 1 b')) = dropWhile is_blank ((render_members fp fmt d cs @ ws') @ CHR ''}'' # t)"
        "pa_content b' = pa_content b" "pa_depth b' = pa_depth b + 1" for b'
      using object_loop_reads [OF assms(1,3) that(1), of "pa_length b'" b' d t m "[]"] that len assms(5) by simp
  qed (use delimiters assms in simp_all)
  then show ?thesis using assms(4,6) at_char_Cons [of "b\<lparr>pa_depth := pa_depth b + 1\<rparr>"] by (simp add: parse_object_def)
qed

lemma parse_value_reads:
  "canonical fp item \<Longrightarrow> nested_within (CJSON_NESTING_LIMIT - D) item \<Longrightarrow> D \<le> CJSON_NESTING_LIMIT \<Longrightarrow> CJSON_NESTING_LIMIT < k + D
    \<Longrightarrow> reads_item fp fmt (parse_value fp k) D item"
proof (induction item arbitrary: k D)
  case (CJSON t vs vi vd nm cs)
  obtain k' where k: "k = Suc k'" using CJSON.prems(3,4) by (cases k) auto
  have sub: "reads_item fp fmt (parse_value fp k') (D + 1) c \<and> canonical fp c"
    if "c \<in> set cs" "t \<in> {cJSON_Array, cJSON_Object}" for c
    using CJSON.IH [OF that(1), of "D + 1" k'] CJSON.prems that k by auto
  show ?case unfolding reads_item_def
  proof (intro allI impI)
    fix b m d c u t0
    assume h: "pa_depth b = D" "all_ok m" "\<not> number_char c" "rest b = render fp fmt d (CJSON t vs vi vd nm cs) @ c # u"
    let ?base = "base_item fp t0 (name_of (CJSON t vs vi vd nm cs))"
    consider (null) "t = cJSON_NULL" | (false) "t = cJSON_False" | (true) "t = cJSON_True" | (num) "t = cJSON_Number"
      | (str) "t = cJSON_String" | (arr) "t = cJSON_Array" | (obj) "t = cJSON_Object" using CJSON.prems(1) by auto
    then show "reads b (CJSON t vs vi vd nm cs) (c # u) (parse_value fp k ?base b m)"
    proof cases
      case null
      then have "rest b = ''null'' @ c # u" using h by (simp add: cjson_types)
      then show ?thesis using literal_reads [of b "''null''" "c # u"] null h CJSON.prems(1) k by (simp add: reads_def base_item_def cjson_types)
    next
      case false
      then have r: "rest b = ''false'' @ c # u" using h by (simp add: cjson_types)
      then have "\<not> literal_at b ''null''" using literal_first [of b] by simp
      then show ?thesis using r literal_reads [of b "''false''" "c # u"] false h CJSON.prems(1) k by (simp add: reads_def base_item_def cjson_types)
    next
      case true
      then have r: "rest b = ''true'' @ c # u" using h by (simp add: cjson_types)
      then have "\<not> literal_at b ''null''" "\<not> literal_at b ''false''" using literal_first [of b] by simp_all
      then show ?thesis using r literal_reads [of b "''true''" "c # u"] true h CJSON.prems(1) k by (simp add: reads_def base_item_def cjson_types)
    next
      case num
      then have r: "rest b = number_text fp vd @ c # u" "reads_back fp vd" using h CJSON.prems(1) by (simp_all add: cjson_types)
      then obtain e v where e: "number_text fp vd = e # v" "number_start e" by (cases "number_text fp vd") (auto simp: reads_back_def)
      then have "e \<notin> set ''nft''" "e \<noteq> CHR 0x22" by (auto simp: number_start_def)
      then show ?thesis using parse_value_char [of b e "v @ c # u" fp k'] parse_number_text [OF r h(3)] r(1) e num h CJSON.prems(1) k
        by (simp add: reads_def base_item_def cjson_types)
    next
      case str
      then obtain s where s: "vs = Some s" "CHR 0x00 \<notin> set s" using CJSON.prems(1) by (auto simp: cjson_types)
      then have r: "rest b = quoted s @ c # u" using h str by (simp add: cjson_types text_of_def)
      then show ?thesis using parse_value_char [of b "CHR 0x22" "escaped s @ CHR 0x22 # c # u" fp k'] reads_quoted [OF r s(2) h(2), of ?base] str s h CJSON.prems(1) k
        by (simp add: base_item_def cjson_types quoted_def)
    next
      case arr
      then have r: "rest b = CHR ''['' # render_elements fp fmt (d + 1) cs @ CHR '']'' # c # u" using h by (simp add: cjson_types)
      have "\<forall>c \<in> set cs. reads_item fp fmt (parse_value fp k') (pa_depth b + 1) c \<and> canonical fp c \<and> name_of c = None"
        using sub arr h(1) CJSON.prems(1) by (auto simp: cjson_types)
      from reads_array [OF this r h(2), of ?base] show ?thesis
        using parse_value_char [OF r, of fp k'] arr h(1) CJSON.prems k by (simp add: base_item_def cjson_types number_start_def)
    next
      case obj
      let ?ws = "if fmt then [NL] else []" and ?ws' = "if fmt then replicate d TAB else []"
      have r: "rest b = CHR ''{'' # ?ws @ render_members fp fmt (d + 1) cs @ ?ws' @ CHR ''}'' # c # u" using obj h by (simp add: cjson_types)
      have "\<forall>c \<in> set cs. reads_item fp fmt (parse_value fp k') (pa_depth b + 1) c \<and> canonical fp c \<and> named c"
        using sub obj h(1) CJSON.prems(1) by (auto simp: cjson_types)
      from reads_object [OF this _ _ r h(2), of ?base] show ?thesis
        using parse_value_char [OF r, of fp k'] obj h(1) CJSON.prems k by (simp add: base_item_def cjson_types number_start_def)
    qed
  qed
qed

section \<open>The round trip\<close>

lemma canonical_printable: "canonical fp item \<Longrightarrow> c_string (name_of item) \<Longrightarrow> printable fp item"
proof (induction item)
  case (CJSON t vs vi vd nm cs)
  have "c_string (name_of c)" if "c \<in> set cs" for c
    using CJSON.prems(1) that by (auto simp: c_string_def text_of_def named_def split: if_splits)
  then have cs: "\<forall>c \<in> set cs. printable fp c" using CJSON.IH CJSON.prems(1) by simp
  have "c_string vs" using CJSON.prems(1) by (auto simp: c_string_def text_of_def split: if_splits)
  moreover have "t = cJSON_Number \<longrightarrow> number_buffer fp vd \<noteq> None" using CJSON.prems(1) by (auto simp: reads_back_def Let_def)
  ultimately show ?case using CJSON.prems cs by (auto simp: cjson_types valid_kind_def)
qed

lemma quoted_no_NUL: "CHR 0x00 \<notin> set (quoted s)"
  using escaped_no_NUL by (auto simp: quoted_def)

lemma canonical_no_NUL:
  "(\<And>d. canonical fp item \<Longrightarrow> CHR 0x00 \<notin> set (render fp fmt d item))"
proof (induction item)
  case (CJSON t vs vi vd nm cs)
  have c: "\<forall>c \<in> set cs. \<forall>d. CHR 0x00 \<notin> set (render fp fmt d c)" using CJSON.IH CJSON.prems by auto
  then have es: "CHR 0x00 \<notin> set (render_elements fp fmt (d + 1) cs)" by (induction cs) auto
  have ms: "CHR 0x00 \<notin> set (render_members fp fmt (d + 1) cs)" using c by (induction cs) (auto simp: quoted_no_NUL TAB_def NL_def)
  have "CHR 0x00 \<notin> set (number_text fp vd)" if "t = cJSON_Number"
  proof -
    have "\<not> number_char (CHR 0x00)" by (simp add: number_char_def)
    moreover have "list_all number_char (number_text fp vd)" using CJSON.prems that by (simp add: reads_back_def Let_def)
    ultimately show ?thesis unfolding list_all_iff by blast
  qed
  then show ?case using CJSON.prems es ms by (auto simp: cjson_types quoted_no_NUL TAB_def NL_def)
qed

lemma cstring_held: "holds_text b s \<Longrightarrow> CHR 0x00 \<notin> set s \<Longrightarrow> cstring (map the b) = s"
proof -
  assume h: "holds_text b s" and s: "CHR 0x00 \<notin> set s"
  then obtain r where "b = map Some (s @ [CHR 0x00]) @ r" by (metis append_take_drop_id holds_text_def)
  then show ?thesis using s by (auto simp: cstring_def takeWhile_append comp_def takeWhile_eq_all_conv)
qed

text \<open>The two operations one after the other.\<close>

lemma print_parse:
  assumes "canonical fp item" "name_of item = None" "nested_within CJSON_NESTING_LIMIT item"
    and "all_ok m" "all_ok m2" "int (length (render fp fmt 0 item)) + 2 \<le> INT_MAX"
  shows "\<exists>b m' m2'. print fp (Some item) fmt reallocate m = Some (Some b, m')
    \<and> cJSON_ParseWithOpts fp (Some (map the b)) True True m2 = Some (Some item, Some (length (render fp fmt 0 item)), None, m2')"
proof -
  let ?s = "render fp fmt 0 item"
  have "printable fp item" using canonical_printable [OF assms(1)] assms(2) by (simp add: c_string_def text_of_def)
  from print_ok [OF this, of fmt reallocate m] assms(4,6)
  obtain b m' where b: "print fp (Some item) fmt reallocate m = Some (Some b, m')" "holds_text b ?s" by blast
  have cs: "cstring (map the b) = ?s" by (rule cstring_held [OF b(2) canonical_no_NUL [OF assms(1)]])
  obtain m3 where m3: "cJSON_New_Item fp m2 = (Some (base_item fp 0 (name_of item)), m3)" "all_ok m3"
    using malloc_all_ok [OF assms(5)] assms(2) by (auto simp: cJSON_New_Item_def zero_item_def base_item_def)
  let ?b = "\<lparr>pa_content = ?s @ [CHR 0x00], pa_offset = 0, pa_depth = 0\<rparr>"
  obtain c u where c: "?s = c # u" "\<not> is_blank c" using canonical_text [OF assms(1), of fmt 0] by auto
  have r: "rest (buffer_skip_whitespace ?b) = ?s @ CHR 0x00 # []" using skip_rest [of ?b "[]" c "u @ [CHR 0x00]"] c by (simp add: rest_def)
  have "reads_item fp fmt (parse_value fp (CJSON_NESTING_LIMIT + 1)) 0 item" by (rule parse_value_reads) (use assms in simp_all)
  then have "reads_item fp fmt (parse_value fp (CJSON_NESTING_LIMIT + 1)) (pa_depth (buffer_skip_whitespace ?b)) item" by simp
  from reads_itemD [OF this m3(2) _ r, of 0] delimiters obtain b' m4
    where v: "parse_value fp (CJSON_NESTING_LIMIT + 1) (base_item fp 0 (name_of item)) (buffer_skip_whitespace ?b) m3 = Some (Some item, b', m4)"
      and r': "rest b' = [CHR 0x00]" and c': "pa_content b' = ?s @ [CHR 0x00]"
    by (auto simp: reads_def)
  have "pa_offset b' = length ?s" using arg_cong [OF r', of length] c' by (simp add: rest_def)
  moreover have "buffer_skip_whitespace b' = b'"
    using calculation c' by (cases b') (simp add: buffer_skip_whitespace_def Let_def is_blank_def)
  ultimately have "cJSON_ParseWithOpts fp (Some (map the b)) True True m2 = Some (Some item, Some (length ?s), None, m4)"
    using cs m3(1) v at_char_Cons [OF r', of "CHR 0x00"] by (simp add: cJSON_ParseWithOpts_def Let_def)
  then show ?thesis using b(1) by blast
qed

text \<open>
  C20: Printing and parsing are inverse on the items of the kind that the parser makes: plain types without raw
  items and flags, \<open>valueint\<close> and \<open>valuedouble\<close> as the parser sets them, children named exactly below objects,
  no name at the top, nested at most \<open>CJSON_NESTING_LIMIT\<close> deep, with numbers that read back from their printed
  text. For every such item whose text is shorter than \<open>INT_MAX\<close>, and with enough memory in both, \<open>cJSON_Print\<close> and
  \<open>cJSON_PrintUnformatted\<close> produce a text, and \<open>cJSON_ParseWithOpts\<close> turns it into exactly the same item again,
  consuming the whole text.
\<close>

theorem cjson_roundtrip:
  assumes "canonical fp item" "name_of item = None" "nested_within CJSON_NESTING_LIMIT item"
    and "all_ok m" "all_ok m2" "int (length (render fp fmt 0 item)) + 2 \<le> INT_MAX"
  shows "\<exists>b m' m2'. print fp (Some item) fmt reallocate m = Some (Some b, m')
    \<and> cJSON_ParseWithOpts fp (Some (map the b)) True True m2 = Some (Some item, Some (length (render fp fmt 0 item)), None, m2')"
  using print_parse [OF assms] .

lemma ex_doc_canonical: "canonical int_fp ex_doc"
proof -
  have "reads_back int_fp 1" "reads_back int_fp 2" by code_simp+
  then show ?thesis by (simp add: ex_doc_def cjson_types named_def saturate_def int_fp_def INT_MAX_def INT_MIN_def)
qed

theorem cjson_roundtrip_witness:
  "\<exists>b m' m2'. print int_fp (Some ex_doc) False False [] = Some (Some b, m')
    \<and> cJSON_ParseWithOpts int_fp (Some (map the b)) True True [] = Some (Some ex_doc, Some 20, None, m2')"
proof -
  have 1: "name_of ex_doc = None" "nested_within CJSON_NESTING_LIMIT ex_doc"
    by (simp_all add: ex_doc_def cjson_types CJSON_NESTING_LIMIT_def)
  have 2: "length (render int_fp False 0 ex_doc) = 20" by (simp add: ex_doc_render)
  show ?thesis using cjson_roundtrip [OF ex_doc_canonical 1, of "[]" "[]" False False] 2 by (simp add: INT_MAX_def)
qed

end
