(* ===== verification/Cjson_Minify.thy ===== *)
theory Cjson_Minify
  imports Cjson_Roundtrip
begin

text \<open>
  \<open>cJSON_Minify\<close> of \<open>20170801/cjson.c\<close>, which removes white space and comments from a text in place: the
  read position \<open>json\<close> runs ahead of the write position \<open>into\<close> in one buffer. An access outside the buffer has
  no value. The main result relates it to the printers: minifying formatted text gives the unformatted text.
\<close>

section \<open>The function\<close>

text \<open>The loop over a line comment, and the one over a block comment, from the read position on.\<close>

definition line_end :: "string \<Rightarrow> nat option" where
  "line_end s = (let n = length (takeWhile (\<lambda>c. c \<noteq> CHR 0x00 \<and> c \<noteq> CHR 0x0A) s) in if n < length s then Some n else None)"

fun block_end :: "string \<Rightarrow> nat option" where
  "block_end [] = None"
| "block_end (c # s) =
     (if c = CHR 0x00 then Some 0
      else if c = CHR ''*'' then
        (case s of [] \<Rightarrow> None | d # _ \<Rightarrow> if d = CHR ''/'' then Some 0 else map_option Suc (block_end s))
      else map_option Suc (block_end s))"

text \<open>\<open>*into++ = *json++\<close>.\<close>

definition copy_char :: "string \<Rightarrow> nat \<Rightarrow> nat \<Rightarrow> string option" where
  "copy_char buf json into = do { c \<leftarrow> nth_opt buf json; upd_opt buf into c }"

lemma copy_char_length: "copy_char buf json into = Some buf' \<Longrightarrow> length buf' = length buf \<and> json < length buf"
  by (auto simp: copy_char_def upd_opt_eq_Some nth_opt_eq_Some split: bind_splits)

function minify_string :: "string \<Rightarrow> nat \<Rightarrow> nat \<Rightarrow> (string \<times> nat \<times> nat) option" where
  "minify_string buf json into = do {
     c \<leftarrow> nth_opt buf json;
     (if c = CHR 0x00 \<or> c = CHR 0x22 then Some (buf, json, into)
      else if c = CHR 0x5C then do {
        buf \<leftarrow> copy_char buf json into;
        buf \<leftarrow> copy_char buf (json + 1) (into + 1);
        minify_string buf (json + 2) (into + 2)
      }
      else do { buf \<leftarrow> copy_char buf json into; minify_string buf (json + 1) (into + 1) })
   }"
  by pat_completeness auto
termination
  by (relation "measure (\<lambda>(buf, json, into). length buf - json)") (auto dest!: copy_char_length)

declare minify_string.simps [simp del]

lemma minify_string_pos: "minify_string buf json into = Some (buf', json', into') \<Longrightarrow> length buf' = length buf \<and> json \<le> json'"
proof (induction buf json into rule: minify_string.induct)
  case (1 buf json into)
  note eq = "1.prems" [unfolded minify_string.simps [of buf json into]]
  then obtain c where c: "nth_opt buf json = Some c" by (auto split: bind_splits)
  consider (stop) "c = CHR 0x00 \<or> c = CHR 0x22" | (esc) "c = CHR 0x5C" | (plain) "\<not> (c = CHR 0x00 \<or> c = CHR 0x22)" "c \<noteq> CHR 0x5C" by auto
  then show ?case
  proof cases
    case stop
    then show ?thesis using eq c by auto
  next
    case esc
    then obtain b1 b2 where b: "copy_char buf json into = Some b1" "copy_char b1 (json + 1) (into + 1) = Some b2"
      "minify_string b2 (json + 2) (into + 2) = Some (buf', json', into')"
      using eq c by (auto split: bind_splits)
    from 1(1) [OF c _ esc b] esc have "length buf' = length b2 \<and> json + 2 \<le> json'" by simp
    then show ?thesis using copy_char_length [OF b(1)] copy_char_length [OF b(2)] by simp
  next
    case plain
    then obtain b1 where b: "copy_char buf json into = Some b1" "minify_string b1 (json + 1) (into + 1) = Some (buf', json', into')"
      using eq c by (auto split: bind_splits)
    from 1(2) [OF c plain b] have "length buf' = length b1 \<and> json + 1 \<le> json'" by simp
    then show ?thesis using copy_char_length [OF b(1)] by simp
  qed
qed

function minify_loop :: "string \<Rightarrow> nat \<Rightarrow> nat \<Rightarrow> string option" where
  "minify_loop buf json into = do {
     c \<leftarrow> nth_opt buf json;
     (if c = CHR 0x00 then upd_opt buf into (CHR 0x00)
      else if c = CHR '' '' \<or> c = CHR 0x09 \<or> c = CHR 0x0D \<or> c = CHR 0x0A then minify_loop buf (json + 1) into
      else if c = CHR 0x22 then do {
        buf \<leftarrow> copy_char buf json into;
        (buf, j, i) \<leftarrow> minify_string buf (json + 1) (into + 1);
        buf \<leftarrow> copy_char buf j i;
        minify_loop buf (j + 1) (i + 1)
      }
      else do {
        d \<leftarrow> (if c = CHR ''/'' then nth_opt buf (json + 1) else Some c);
        (if c = CHR ''/'' \<and> d = CHR ''/'' then do { n \<leftarrow> line_end (drop json buf); minify_loop buf (json + n) into }
         else if c = CHR ''/'' \<and> d = CHR ''*'' then do { n \<leftarrow> block_end (drop json buf); minify_loop buf (json + n + 2) into }
         else do { buf \<leftarrow> copy_char buf json into; minify_loop buf (json + 1) (into + 1) })
      })
   }"
  by pat_completeness auto
termination
proof (relation "measure (\<lambda>(buf, json, into). length buf - json)", goal_cases)
  case (4 buf json into c d n)
  then have j: "json < length buf" "buf ! json = CHR ''/''" by (auto simp: nth_opt_eq_Some)
  then have "drop json buf = CHR ''/'' # drop (Suc json) buf" using Cons_nth_drop_Suc [OF j(1)] by simp
  with j show ?case using 4 by (auto simp: line_end_def Let_def split: if_splits)
qed (auto simp: nth_opt_eq_Some dest!: copy_char_length minify_string_pos split: if_splits)

declare minify_loop.simps [simp del]

definition cJSON_Minify :: "string option \<Rightarrow> string option option" where
  "cJSON_Minify json = (case json of None \<Rightarrow> Some None | Some buf \<Rightarrow> map_option Some (minify_loop buf 0 0))"

section \<open>Pieces of text\<close>

text \<open>
  \<open>minifies s u\<close>: wherever the loop meets \<open>s\<close>, it passes it and appends \<open>u\<close> to the output. The write position
  never overtakes the read position, so the unread text stays as it is.
\<close>

definition at_state :: "string \<Rightarrow> nat \<Rightarrow> nat \<Rightarrow> string \<Rightarrow> string \<Rightarrow> bool" where
  "at_state buf json into out left \<longleftrightarrow> into \<le> json \<and> json \<le> length buf \<and> take into buf = out \<and> drop json buf = left"

definition minifies :: "string \<Rightarrow> string \<Rightarrow> bool" where
  "minifies s u \<longleftrightarrow> (\<forall>buf json into out c left. at_state buf json into out (s @ c # left) \<longrightarrow>
     (\<exists>buf'. minify_loop buf json into = minify_loop buf' (json + length s) (into + length u)
        \<and> at_state buf' (json + length s) (into + length u) (out @ u) (c # left) \<and> length buf' = length buf))"

lemma minifiesD:
  assumes "minifies s u" "at_state buf json into out (s @ c # left)"
  obtains buf' where "minify_loop buf json into = minify_loop buf' (json + length s) (into + length u)"
    "at_state buf' (json + length s) (into + length u) (out @ u) (c # left)" "length buf' = length buf"
  using assms unfolding minifies_def by blast

lemma minifies_Nil: "minifies [] []"
  by (auto simp: minifies_def)

lemma minifies_append:
  assumes "minifies s u" "minifies s' u'"
  shows "minifies (s @ s') (u @ u')"
  unfolding minifies_def
proof (intro allI impI)
  fix buf json into out c left
  assume a: "at_state buf json into out ((s @ s') @ c # left)"
  obtain d t where dt: "s' @ c # left = d # t" by (cases s') auto
  obtain b1 where b1: "minify_loop buf json into = minify_loop b1 (json + length s) (into + length u)"
    "at_state b1 (json + length s) (into + length u) (out @ u) (s' @ c # left)" "length b1 = length buf"
    using minifiesD [OF assms(1), of buf json into out d t] a dt by auto
  from minifiesD [OF assms(2) b1(2)] obtain b2 where "minify_loop b1 (json + length s) (into + length u)
      = minify_loop b2 (json + length s + length s') (into + length u + length u')"
    "at_state b2 (json + length s + length s') (into + length u + length u') ((out @ u) @ u') (c # left)" "length b2 = length b1" by blast
  then show "\<exists>buf'. minify_loop buf json into = minify_loop buf' (json + length (s @ s')) (into + length (u @ u'))
      \<and> at_state buf' (json + length (s @ s')) (into + length (u @ u')) (out @ u @ u') (c # left) \<and> length buf' = length buf"
    using b1 by (auto simp: add.assoc)
qed

lemma at_state_read: "at_state buf json into out (c # left) \<Longrightarrow> nth_opt buf json = Some c"
  by (auto simp: at_state_def nth_opt_def) (metis nth_via_drop, metis drop_eq_Nil leI list.discI)

lemma at_state_skip: "at_state buf json into out (c # left) \<Longrightarrow> at_state buf (json + 1) into out left"
  by (auto simp: at_state_def) (metis Suc_leI drop_eq_Nil leI list.discI, metis drop_Suc list.sel(3) tl_drop)

lemma at_state_copy:
  assumes "at_state buf json into out (c # left)"
  shows "\<exists>buf'. copy_char buf json into = Some buf' \<and> at_state buf' (json + 1) (into + 1) (out @ [c]) left \<and> length buf' = length buf"
proof -
  have r: "nth_opt buf json = Some c" by (rule at_state_read [OF assms])
  have i: "into < length buf" using assms r by (auto simp: at_state_def nth_opt_eq_Some)
  then have "copy_char buf json into = Some (buf[into := c])" using r by (simp add: copy_char_def)
  moreover have "take (into + 1) (buf[into := c]) = out @ [c]" using assms i by (simp add: at_state_def take_Suc_conv_app_nth)
  moreover have "drop (json + 1) (buf[into := c]) = left" using at_state_skip [OF assms] assms by (simp add: at_state_def)
  ultimately show ?thesis using assms i r by (auto simp: at_state_def nth_opt_eq_Some)
qed

lemma minifies_blank: "c = CHR '' '' \<or> c = TAB \<or> c = NL \<Longrightarrow> minifies [c] []"
  unfolding minifies_def
proof (intro allI impI)
  fix buf json into out d left
  assume c: "c = CHR '' '' \<or> c = TAB \<or> c = NL" and a: "at_state buf json into out ([c] @ d # left)"
  then have "nth_opt buf json = Some c" "at_state buf (json + 1) into out (d # left)" using at_state_read at_state_skip by auto
  then show "\<exists>buf'. minify_loop buf json into = minify_loop buf' (json + length [c]) (into + length [])
      \<and> at_state buf' (json + length [c]) (into + length []) (out @ []) (d # left) \<and> length buf' = length buf"
    using c by (subst minify_loop.simps) (auto simp: TAB_def NL_def)
qed

definition plain_text :: "char \<Rightarrow> bool" where
  "plain_text c \<longleftrightarrow> c \<notin> {CHR 0x00, CHR '' '', CHR 0x09, CHR 0x0D, CHR 0x0A, CHR 0x22, CHR ''/''}"

lemma minifies_plain: "plain_text c \<Longrightarrow> minifies [c] [c]"
  unfolding minifies_def
proof (intro allI impI)
  fix buf json into out d left
  assume c: "plain_text c" and a: "at_state buf json into out ([c] @ d # left)"
  then have r: "nth_opt buf json = Some c" using at_state_read by auto
  from a obtain b where "copy_char buf json into = Some b" "at_state b (json + 1) (into + 1) (out @ [c]) (d # left)" "length b = length buf"
    using at_state_copy [of buf json into out c "d # left"] by auto
  then show "\<exists>buf'. minify_loop buf json into = minify_loop buf' (json + length [c]) (into + length [c])
      \<and> at_state buf' (json + length [c]) (into + length [c]) (out @ [c]) (d # left) \<and> length buf' = length buf"
    using c r by (subst minify_loop.simps) (auto simp: plain_text_def)
qed

lemma minifies_text: "list_all plain_text s \<Longrightarrow> minifies s s"
proof (induction s)
  case (Cons c s)
  then show ?case using minifies_append [OF minifies_plain [of c], of s s] by simp
qed (rule minifies_Nil)

section \<open>Strings are copied\<close>

definition copies :: "string \<Rightarrow> bool" where
  "copies s \<longleftrightarrow> (\<forall>buf json into out left. at_state buf json into out (s @ left) \<longrightarrow>
     (\<exists>buf'. minify_string buf json into = minify_string buf' (json + length s) (into + length s)
        \<and> at_state buf' (json + length s) (into + length s) (out @ s) left \<and> length buf' = length buf))"

lemma copies_Nil: "copies []"
  by (auto simp: copies_def)

lemma copies_append:
  assumes "copies s" "copies s'" shows "copies (s @ s')"
  unfolding copies_def
proof (intro allI impI)
  fix buf json into out left
  assume a: "at_state buf json into out ((s @ s') @ left)"
  then obtain b1 where b1: "minify_string buf json into = minify_string b1 (json + length s) (into + length s)"
    "at_state b1 (json + length s) (into + length s) (out @ s) (s' @ left)" "length b1 = length buf"
    using assms(1) unfolding copies_def append_assoc by blast
  then obtain b2 where "minify_string b1 (json + length s) (into + length s) = minify_string b2 (json + length s + length s') (into + length s + length s')"
    "at_state b2 (json + length s + length s') (into + length s + length s') ((out @ s) @ s') left" "length b2 = length b1"
    using assms(2) unfolding copies_def by blast
  then show "\<exists>buf'. minify_string buf json into = minify_string buf' (json + length (s @ s')) (into + length (s @ s'))
      \<and> at_state buf' (json + length (s @ s')) (into + length (s @ s')) (out @ s @ s') left \<and> length buf' = length buf"
    using b1 by (auto simp: add.assoc)
qed

lemma copies_plain: "c \<notin> {CHR 0x00, CHR 0x22, CHR 0x5C} \<Longrightarrow> copies [c]"
  unfolding copies_def
proof (intro allI impI)
  fix buf json into out left
  assume c: "c \<notin> {CHR 0x00, CHR 0x22, CHR 0x5C}" and a: "at_state buf json into out ([c] @ left)"
  then have r: "nth_opt buf json = Some c" using at_state_read by auto
  from a obtain b where "copy_char buf json into = Some b" "at_state b (json + 1) (into + 1) (out @ [c]) left" "length b = length buf"
    using at_state_copy [of buf json into out c left] by auto
  then show "\<exists>buf'. minify_string buf json into = minify_string buf' (json + length [c]) (into + length [c])
      \<and> at_state buf' (json + length [c]) (into + length [c]) (out @ [c]) left \<and> length buf' = length buf"
    using c r by (subst minify_string.simps) auto
qed

lemma copies_pair: "copies [CHR 0x5C, e]"
  unfolding copies_def
proof (intro allI impI)
  fix buf json into out left
  assume "at_state buf json into out ([CHR 0x5C, e] @ left)"
  then have a: "at_state buf json into out (CHR 0x5C # e # left)" by simp
  then have r: "nth_opt buf json = Some (CHR 0x5C)" using at_state_read by auto
  from at_state_copy [OF a] obtain b where b: "copy_char buf json into = Some b" "at_state b (json + 1) (into + 1) (out @ [CHR 0x5C]) (e # left)" "length b = length buf"
    by auto
  from at_state_copy [OF b(2)] obtain b' where "copy_char b (json + 1) (into + 1) = Some b'" "at_state b' (json + 2) (into + 2) (out @ [CHR 0x5C, e]) left" "length b' = length b"
    by auto
  then show "\<exists>buf'. minify_string buf json into = minify_string buf' (json + length [CHR 0x5C, e]) (into + length [CHR 0x5C, e])
      \<and> at_state buf' (json + length [CHR 0x5C, e]) (into + length [CHR 0x5C, e]) (out @ [CHR 0x5C, e]) left \<and> length buf' = length buf"
    using b r by (subst minify_string.simps) auto
qed

lemma copies_all: "\<forall>c \<in> set s. c \<notin> {CHR 0x00, CHR 0x22, CHR 0x5C} \<Longrightarrow> copies s"
proof (induction s)
  case (Cons c s)
  then show ?case using copies_append [OF copies_plain [of c], of s] by simp
qed (rule copies_Nil)

lemma copies_escape: "copies (escape c)"
proof -
  have "of_char c div 16 < (16::nat)" by (rule less_mult_imp_div_less) (use of_char_less [of c] in simp)
  then have "copies (tl (hex4 c))"
    using hex_digit_plain hex_digit_not_NUL by (intro copies_all) (auto simp: hex4_def)
  then have "copies (CHR 0x5C # hex4 c)" using copies_append [OF copies_pair [of "CHR ''u''"]] by (simp add: hex4_def)
  moreover have "copies [c]" if "plain_char c" using that copies_plain [of c] by (cases "c = CHR 0x00") (auto simp: plain_char_def)
  ultimately show ?thesis using copies_pair by (auto simp: escape_def split: option.splits)
qed

lemma copies_escaped: "copies (escaped s)"
proof (induction s)
  case (Cons c s)
  then show ?case using copies_append [OF copies_escape] by (simp add: escaped_def)
qed (simp add: escaped_def copies_Nil)

lemma minifies_quoted: "minifies (quoted s) (quoted s)"
  unfolding minifies_def
proof (intro allI impI)
  fix buf json into out d left
  let ?n = "length (escaped s)"
  assume "at_state buf json into out (quoted s @ d # left)"
  then have a: "at_state buf json into out (CHR 0x22 # escaped s @ CHR 0x22 # d # left)" by (simp add: quoted_def)
  then have r: "nth_opt buf json = Some (CHR 0x22)" using at_state_read by auto
  from at_state_copy [OF a] obtain b where b: "copy_char buf json into = Some b"
    "at_state b (json + 1) (into + 1) (out @ [CHR 0x22]) (escaped s @ CHR 0x22 # d # left)" "length b = length buf" by auto
  from copies_escaped [of s] b(2) obtain b1 where b1: "minify_string b (json + 1) (into + 1) = minify_string b1 (json + 1 + ?n) (into + 1 + ?n)"
    "at_state b1 (json + 1 + ?n) (into + 1 + ?n) ((out @ [CHR 0x22]) @ escaped s) (CHR 0x22 # d # left)" "length b1 = length b"
    unfolding copies_def by blast
  have s: "minify_string b1 (json + 1 + ?n) (into + 1 + ?n) = Some (b1, json + 1 + ?n, into + 1 + ?n)"
    using at_state_read [OF b1(2)] by (subst minify_string.simps) simp
  from at_state_copy [OF b1(2)] obtain b2 where b2: "copy_char b1 (json + 1 + ?n) (into + 1 + ?n) = Some b2"
    "at_state b2 (json + 1 + ?n + 1) (into + 1 + ?n + 1) (((out @ [CHR 0x22]) @ escaped s) @ [CHR 0x22]) (d # left)" "length b2 = length b1" by blast
  have "minify_loop buf json into = minify_loop b2 (json + 1 + ?n + 1) (into + 1 + ?n + 1)"
    using r b b1(1) s b2(1) by (subst minify_loop.simps) simp
  then show "\<exists>buf'. minify_loop buf json into = minify_loop buf' (json + length (quoted s)) (into + length (quoted s))
      \<and> at_state buf' (json + length (quoted s)) (into + length (quoted s)) (out @ quoted s) (d # left) \<and> length buf' = length buf"
    using b(3) b1(3) b2(2,3) by (intro exI [of _ b2]) (simp add: quoted_def add.assoc)
qed

section \<open>Formatted text\<close>

lemma minifies_blanks: "set ws \<subseteq> {CHR '' '', TAB, NL} \<Longrightarrow> minifies ws []"
proof (induction ws)
  case (Cons w ws)
  then show ?case using minifies_append [OF minifies_blank [of w], of ws "[]"] by auto
qed (rule minifies_Nil)

lemma number_char_plain: "number_char c \<Longrightarrow> plain_text c"
  by (auto simp: number_char_def plain_text_def)

lemma minifies_elements:
  "\<forall>c \<in> set cs. minifies (render fp True d c) (render fp False d' c) \<Longrightarrow>
    minifies (render_elements fp True d cs) (render_elements fp False d' cs)"
proof (induction cs)
  case (Cons c cs)
  have sep: "minifies '', '' '',''"
    using minifies_append [OF minifies_plain [of "CHR '',''"] minifies_blank [of "CHR '' ''"]] by (simp add: plain_text_def)
  have "minifies (if cs \<noteq> [] then (if True then '', '' else '','') else []) (if cs \<noteq> [] then (if False then '', '' else '','') else [])"
    using sep minifies_Nil by simp
  then show ?case unfolding render_elements.simps using Cons by (intro minifies_append) simp_all
qed (simp add: minifies_Nil)

lemma minifies_members:
  "\<forall>c \<in> set cs. minifies (render fp True d c) (render fp False d' c) \<Longrightarrow>
    minifies (render_members fp True d cs) (render_members fp False d' cs)"
proof (induction cs)
  case (Cons c cs)
  have tabs: "minifies (replicate d TAB) []" by (rule minifies_blanks) auto
  have colon: "minifies [CHR '':'', TAB] '':''"
    using minifies_append [OF minifies_plain [of "CHR '':''"] minifies_blank [of TAB]] by (simp add: plain_text_def)
  have comma: "minifies ((if cs \<noteq> [] then '','' else []) @ [NL]) ((if cs \<noteq> [] then '','' else []) @ [])"
    by (rule minifies_append) (auto intro: minifies_plain minifies_Nil minifies_blank simp: plain_text_def)
  have "minifies (replicate d TAB @ quoted (text_of (name_of c)) @ [CHR '':'', TAB] @ render fp True d c
      @ ((if cs \<noteq> [] then '','' else []) @ [NL]) @ render_members fp True d cs)
    ([] @ quoted (text_of (name_of c)) @ '':'' @ render fp False d' c @ ((if cs \<noteq> [] then '','' else []) @ []) @ render_members fp False d' cs)"
    using Cons by (intro minifies_append tabs colon comma minifies_quoted) simp_all
  then show ?case by simp
qed (simp add: minifies_Nil)

lemma minifies_render: "canonical fp item \<Longrightarrow> minifies (render fp True d item) (render fp False d' item)"
proof (induction item arbitrary: d d')
  case (CJSON t vs vi vd nm cs)
  have sub: "\<forall>c \<in> set cs. minifies (render fp True (d + 1) c) (render fp False (d' + 1) c)" using CJSON by simp
  have lm: "minifies s s" if "s \<in> {''null'', ''false'', ''true'', ''['', '']'', ''{'', ''}''}" for s
    using that by (intro minifies_text) (auto simp: plain_text_def)
  have nm: "minifies (number_text fp vd) (number_text fp vd)" if "t = cJSON_Number"
  proof -
    have "list_all number_char (number_text fp vd)" using CJSON.prems that by (simp add: reads_back_def Let_def)
    then show ?thesis using number_char_plain by (intro minifies_text) (auto simp: list_all_iff)
  qed
  have am: "minifies (''['' @ render_elements fp True (d + 1) cs @ '']'') (''['' @ render_elements fp False (d' + 1) cs @ '']'')"
    by (intro minifies_append minifies_elements [OF sub] lm) simp_all
  have opn: "minifies [CHR ''{'', NL] ''{''" using minifies_append [OF lm [of "''{''"] minifies_blank [of NL]] by simp
  have cls: "minifies (replicate d TAB) []" by (rule minifies_blanks) auto
  have om: "minifies ([CHR ''{'', NL] @ render_members fp True (d + 1) cs @ replicate d TAB @ ''}'') (''{'' @ render_members fp False (d' + 1) cs @ [] @ ''}'')"
    by (intro minifies_append minifies_members [OF sub] opn cls lm) simp
  consider (lit) s where "render fp True d (CJSON t vs vi vd nm cs) = s" "render fp False d' (CJSON t vs vi vd nm cs) = s" "s \<in> {''null'', ''false'', ''true''}"
    | (num) "t = cJSON_Number" | (str) "t = cJSON_String" | (arr) "t = cJSON_Array" | (obj) "t = cJSON_Object"
    using CJSON.prems by (fastforce simp: cjson_types)
  then show ?case
  proof cases
    case lit: (lit s)
    show ?thesis unfolding lit(1,2) using lit(3) by (intro lm) blast
  next
    case num
    then show ?thesis using nm by (simp add: cjson_types)
  next
    case str
    then show ?thesis using minifies_quoted by (simp add: cjson_types)
  next
    case arr
    then show ?thesis using am by (simp add: cjson_types)
  next
    case obj
    then show ?thesis using om by (simp add: cjson_types)
  qed
qed

text \<open>
  C24: \<open>cJSON_Minify\<close> turns formatted text into unformatted text. For an item of the kind that the parser makes
  (in particular without raw items, whose text may be anything), on a buffer that holds what \<open>cJSON_Print\<close>
  makes of it, with its NUL, it stays inside the buffer, terminates, and leaves exactly the text of
  \<open>cJSON_PrintUnformatted\<close> with its NUL at the front of the buffer.
\<close>

theorem cjson_minify_correct:
  assumes "canonical fp item"
  shows "\<exists>junk. cJSON_Minify (Some (render fp True 0 item @ CHR 0x00 # rest0)) = Some (Some (render fp False 0 item @ CHR 0x00 # junk))
    \<and> length (render fp False 0 item) + length junk = length (render fp True 0 item) + length rest0"
proof -
  let ?s = "render fp True 0 item" and ?u = "render fp False 0 item"
  let ?buf = "?s @ CHR 0x00 # rest0"
  have "at_state ?buf 0 0 [] (?s @ CHR 0x00 # rest0)" by (simp add: at_state_def)
  from minifiesD [OF minifies_render [OF assms, of 0 0] this] obtain b
    where b: "minify_loop ?buf 0 0 = minify_loop b (length ?s) (length ?u)" "at_state b (length ?s) (length ?u) ?u (CHR 0x00 # rest0)" "length b = length ?buf"
    by auto
  have n: "length ?u < length b" using b(2) at_state_read [OF b(2)] by (auto simp: at_state_def nth_opt_eq_Some)
  have "minify_loop b (length ?s) (length ?u) = Some (b[length ?u := CHR 0x00])"
    using at_state_read [OF b(2)] n by (subst minify_loop.simps) simp
  also have "b[length ?u := CHR 0x00] = ?u @ CHR 0x00 # drop (Suc (length ?u)) b"
    using n b(2) by (simp add: upd_conv_take_nth_drop at_state_def)
  finally show ?thesis using b(1,3) n by (intro exI [of _ "drop (Suc (length ?u)) b"]) (simp add: cJSON_Minify_def)
qed

text \<open>An unterminated comment or string makes the loop step over the terminator and read outside the buffer.\<close>

lemma cjson_minify_overrun: "cJSON_Minify (Some (''/*'' @ [CHR 0x00])) = None" "cJSON_Minify (Some [CHR 0x22, CHR 0x00]) = None"
  by code_simp+

theorem cjson_minify_correct_witness:
  "\<exists>junk. cJSON_Minify (Some (render int_fp True 0 ex_doc @ [CHR 0x00])) = Some (Some (render int_fp False 0 ex_doc @ CHR 0x00 # junk))"
  using cjson_minify_correct [OF ex_doc_canonical, of "[]"] by blast

end
