(* ===== verification/Cjson_Typed.thy ===== *)
theory Cjson_Typed
  imports Cjson_Roundtrip
begin

text \<open>
  What the parser of cJSON returns is well typed: the fields of every item agree with its type. So the items
  it makes can be printed and read again.
\<close>

section \<open>Well-typed items\<close>

text \<open>The conditions of \<open>canonical\<close> that do not speak of the printed text of a number.\<close>

fun well_typed :: "'d fp \<Rightarrow> 'd cJSON \<Rightarrow> bool" where
  "well_typed fp (CJSON t vs vi vd nm cs) \<longleftrightarrow>
     t \<in> {cJSON_NULL, cJSON_False, cJSON_True, cJSON_Number, cJSON_String, cJSON_Array, cJSON_Object}
     \<and> (if t = cJSON_String then vs \<noteq> None \<and> CHR 0x00 \<notin> set (the vs) else vs = None)
     \<and> vi = (if t = cJSON_True then 1 else if t = cJSON_Number then saturate fp vd else 0)
     \<and> (t \<noteq> cJSON_Number \<longrightarrow> vd = fp_zero fp)
     \<and> (t \<notin> {cJSON_Array, cJSON_Object} \<longrightarrow> cs = [])
     \<and> (\<forall>c \<in> set cs. well_typed fp c \<and> (if t = cJSON_Object then named c else name_of c = None))"

fun numbers_of :: "'d cJSON \<Rightarrow> 'd set" where
  "numbers_of (CJSON t vs vi vd nm cs) = (if t = cJSON_Number then {vd} else {}) \<union> (\<Union>c \<in> set cs. numbers_of c)"

lemma well_typed_canonical: "well_typed fp item \<Longrightarrow> \<forall>d \<in> numbers_of item. reads_back fp d \<Longrightarrow> canonical fp item"
  by (induction item) (auto split: if_splits)

section \<open>The parser makes well-typed items\<close>

text \<open>
  A successful parse that starts in \<open>b\<close> gives a well-typed item of the given name, nested only as deep as the
  limit still allows, and is back at the nesting depth of \<open>b\<close>.
\<close>

definition fits :: "'d fp \<Rightarrow> nat \<Rightarrow> 'd cJSON \<Rightarrow> bool" where
  "fits fp d v \<longleftrightarrow> well_typed fp v \<and> nested_within (CJSON_NESTING_LIMIT - d) v"

definition makes :: "('r \<Rightarrow> bool) \<Rightarrow> parse_buffer \<Rightarrow> 'r parsed \<Rightarrow> bool" where
  "makes P b r \<longleftrightarrow> (\<forall>v b' m'. r = Some (Some v, b', m') \<longrightarrow> P v \<and> pa_depth b' = pa_depth b)"

definition typed_parser :: "'d fp \<Rightarrow> 'd value_parser \<Rightarrow> bool" where
  "typed_parser fp pv \<longleftrightarrow> (\<forall>t nm b m. makes (\<lambda>v. fits fp (pa_depth b) v \<and> name_of v = nm) b (pv (base_item fp t nm) b m))"

lemma makes_trivial [simp]: "makes P b None" "makes P b (Some (None, b', m))"
  by (simp_all add: makes_def)

lemma makes_some [simp]: "makes P b (Some (Some v, b', m)) \<longleftrightarrow> P v \<and> pa_depth b' = pa_depth b"
  by (simp add: makes_def)

lemma makes_depth: "makes P b' r \<Longrightarrow> pa_depth b' = pa_depth b \<Longrightarrow> makes P b r"
  by (simp add: makes_def)

lemma makes_then:
  assumes "makes P b r" "\<And>v b' m'. P v \<Longrightarrow> pa_depth b' = pa_depth b \<Longrightarrow> makes Q b (k v b' m')"
  shows "makes Q b (p_then r k)"
proof (cases r)
  case (Some t)
  then show ?thesis using assms by (cases t; cases "fst t") (auto simp: p_then_def)
qed (simp add: p_then_def)

lemma makes_new_item: "(\<And>m'. makes P b (k (base_item fp 0 None) b m')) \<Longrightarrow> makes P b (p_then (new_item fp b m) k)"
  by (auto simp: p_then_new_item cJSON_New_Item_def zero_item_def base_item_def split: prod.splits option.splits if_splits)

lemma typed_parserD:
  assumes "typed_parser fp pv" "pa_depth b' = pa_depth b"
  shows "makes (\<lambda>v. fits fp (pa_depth b) v \<and> name_of v = nm) b (pv (base_item fp t nm) b' m)"
proof (rule makes_depth [OF _ assms(2)])
  show "makes (\<lambda>v. fits fp (pa_depth b) v \<and> name_of v = nm) b' (pv (base_item fp t nm) b' m)"
    using assms unfolding typed_parser_def by metis
qed

text \<open>The type of the item a string is parsed into plays no role.\<close>

definition string_item :: "'d fp \<Rightarrow> string option \<Rightarrow> 'd cJSON \<Rightarrow> bool" where
  "string_item fp nm v \<longleftrightarrow> (\<exists>s. CHR 0x00 \<notin> set s \<and> v = CJSON cJSON_String (Some s) 0 (fp_zero fp) nm [])"

lemma parse_string_makes: "makes (string_item fp nm) b (parse_string (base_item fp t nm) b m)"
proof -
  have "CHR 0x00 \<notin> set (cstring out)" for out by (auto simp: cstring_def dest: set_takeWhileD)
  then show ?thesis
    by (auto simp: makes_def parse_string_def base_item_def string_item_def Let_def split: bind_splits if_splits option.splits prod.splits sum.splits)
qed

lemma array_loop_makes:
  assumes "typed_parser fp pv"
  shows "\<forall>e \<in> set es. fits fp (pa_depth b) e \<and> name_of e = None
    \<Longrightarrow> makes (\<lambda>es. \<forall>e \<in> set es. fits fp (pa_depth b) e \<and> name_of e = None) b (array_loop fp pv n es b m)"
proof (induction n arbitrary: es b m)
  case (Suc n)
  show ?case unfolding array_loop.simps
  proof (rule makes_new_item, rule makes_then)
    fix m'
    let ?b1 = "buffer_skip_whitespace (move 1 b)"
    show "makes (\<lambda>v. fits fp (pa_depth b) v \<and> name_of v = None) b (pv (base_item fp 0 None) ?b1 m')"
      by (rule typed_parserD [OF assms]) simp
    fix v m2 and b2 :: parse_buffer
    assume v: "fits fp (pa_depth b) v \<and> name_of v = None" "pa_depth b2 = pa_depth b"
    let ?b3 = "buffer_skip_whitespace b2"
    have "makes (\<lambda>es. \<forall>e \<in> set es. fits fp (pa_depth b) e \<and> name_of e = None) b (array_loop fp pv n (es @ [v]) ?b3 m2)"
      using Suc.IH [of "es @ [v]" ?b3 m2] Suc.prems v by (auto intro: makes_depth)
    then show "makes (\<lambda>es. \<forall>e \<in> set es. fits fp (pa_depth b) e \<and> name_of e = None) b
       (let b = ?b3 in if at_char b (CHR '','') then array_loop fp pv n (es @ [v]) b m2 else Some (Some (es @ [v]), b, m2))"
      using Suc.prems v by (auto simp: Let_def)
  qed
qed simp

lemma object_loop_makes:
  assumes "typed_parser fp pv"
  shows "\<forall>e \<in> set es. fits fp (pa_depth b) e \<and> named e
    \<Longrightarrow> makes (\<lambda>es. \<forall>e \<in> set es. fits fp (pa_depth b) e \<and> named e) b (object_loop fp pv n es b m)"
proof (induction n arbitrary: es b m)
  case (Suc n)
  let ?P = "\<lambda>es. \<forall>e \<in> set es. fits fp (pa_depth b) e \<and> named e"
  let ?k = "\<lambda>v b m. let b = buffer_skip_whitespace b in if at_char b (CHR '','') then object_loop fp pv n (es @ [v]) b m else Some (Some (es @ [v]), b, m)"
  have more: "makes ?P b (?k v b2 m2)" if v: "fits fp (pa_depth b) v" "named v" "pa_depth b2 = pa_depth b" for v b2 m2
  proof -
    have "makes ?P b (object_loop fp pv n (es @ [v]) (buffer_skip_whitespace b2) m2)"
      using Suc.IH [of "es @ [v]" "buffer_skip_whitespace b2" m2] Suc.prems v by (auto intro: makes_depth)
    then show ?thesis using Suc.prems v by (auto simp: Let_def)
  qed
  have member: "makes ?P b (p_then (pv (base_item fp cJSON_String (Some s)) b2 m2) ?k)"
    if "CHR 0x00 \<notin> set s" "pa_depth b2 = pa_depth b" for s b2 m2
    by (rule makes_then [OF typed_parserD [OF assms that(2)]], rule more) (use that in \<open>simp_all add: named_def\<close>)
  show ?case unfolding object_loop.simps
  proof (rule makes_new_item, rule makes_then)
    fix m'
    show "makes (string_item fp None) b (parse_string (base_item fp 0 None) (buffer_skip_whitespace (move 1 b)) m')"
      by (rule makes_depth [OF parse_string_makes]) simp
    fix key m2 and b2 :: parse_buffer
    assume key: "string_item fp None key" "pa_depth b2 = pa_depth b"
    then obtain s where s: "CHR 0x00 \<notin> set s" "set_valuestring None (set_name (valuestring key) key) = base_item fp cJSON_String (Some s)"
      by (auto simp: string_item_def base_item_def)
    show "makes ?P b (let b = buffer_skip_whitespace b2; current = set_valuestring None (set_name (valuestring key) key) in
      if \<not> at_char b (CHR '':'') then Some (None, b, m2) else p_then (pv current (buffer_skip_whitespace (move 1 b)) m2) ?k)"
      using member [OF s(1)] s(2) key(2) by (simp add: Let_def)
  qed
qed simp

lemma makes_close:
  assumes "makes Q b' r" "pa_depth b' = pa_depth b + 1" "\<And>es. Q es \<Longrightarrow> P (f es)"
  shows "makes P b (p_then r (\<lambda>es b m. Some (Some (f es), move 1 (b\<lparr>pa_depth := pa_depth b - 1\<rparr>), m)))"
proof (cases r)
  case (Some t)
  then show ?thesis using assms by (cases t; cases "fst t") (auto simp: p_then_def)
qed (simp add: p_then_def)

text \<open>The brackets around the loop; \<open>Q\<close> is what the loop makes of the children.\<close>

lemma bracket_makes:
  assumes "\<And>b' n m. pa_depth b' = pa_depth b + 1 \<Longrightarrow> makes Q b' (loop n [] b' m)" "Q []" "\<And>es. Q es \<Longrightarrow> P (f es)"
  shows "makes P b (brackets loop cls f b m)"
proof -
  let ?b1 = "buffer_skip_whitespace (move 1 (b\<lparr>pa_depth := pa_depth b + 1\<rparr>))"
  let ?b0 = "?b1\<lparr>pa_offset := pa_offset ?b1 - 1\<rparr>"
  let ?inner = "if at_char ?b1 cls then Some (Some [], ?b1, m)
              else if \<not> can_access_at_index ?b1 0 then Some (None, ?b0, m)
              else p_then (loop (pa_length ?b1) [] ?b0 m) (\<lambda>es b m. if at_char b cls then Some (Some es, b, m) else Some (None, b, m))"
  have "makes Q ?b1 (p_then (loop (pa_length ?b1) [] ?b0 m) (\<lambda>es b m. if at_char b cls then Some (Some es, b, m) else Some (None, b, m)))"
    by (rule makes_then [OF makes_depth [OF assms(1), of ?b0]]) simp_all
  then have inner: "makes Q ?b1 ?inner" using assms(2) by simp
  have "makes P b (p_then ?inner (\<lambda>es b m. Some (Some (f es), move 1 (b\<lparr>pa_depth := pa_depth b - 1\<rparr>), m)))"
    by (rule makes_close [where Q = Q and b' = ?b1 and r = ?inner], rule inner) (simp_all add: assms(3))
  then show ?thesis by (simp only: Let_def)
qed

lemma fits_array:
  assumes "d < CJSON_NESTING_LIMIT" "\<forall>e \<in> set es. fits fp (d + 1) e \<and> name_of e = None"
  shows "fits fp d (set_child es (set_type cJSON_Array (base_item fp t nm)))"
  using assms by (simp add: fits_def base_item_def cjson_types)

lemma fits_object:
  assumes "d < CJSON_NESTING_LIMIT" "\<forall>e \<in> set es. fits fp (d + 1) e \<and> named e"
  shows "fits fp d (set_child es (set_type cJSON_Object (base_item fp t nm)))"
  using assms by (simp add: fits_def base_item_def cjson_types)

lemma parse_array_makes:
  assumes "typed_parser fp pv"
  shows "makes (\<lambda>v. fits fp (pa_depth b) v \<and> name_of v = nm) b (parse_array fp pv (base_item fp t nm) b m)"
proof (cases "CJSON_NESTING_LIMIT \<le> pa_depth b \<or> here (b\<lparr>pa_depth := pa_depth b + 1\<rparr>) \<noteq> Some (CHR ''['')")
  case True
  then show ?thesis by (auto simp: parse_array_def Let_def split: bind_splits)
next
  case False
  let ?Q = "\<lambda>es. \<forall>e \<in> set es. fits fp (pa_depth b + 1) e \<and> name_of e = None"
  let ?brackets = "brackets (array_loop fp pv) (CHR '']'') (\<lambda>es. set_child es (set_type cJSON_Array (base_item fp t nm))) b m"
  let ?P = "\<lambda>v. fits fp (pa_depth b) v \<and> name_of v = nm"
  have loop: "makes ?Q b' (array_loop fp pv n [] b' m)" if "pa_depth b' = pa_depth b + 1" for b' n m
    using array_loop_makes [OF assms, of "[]" b' n m] that by simp
  have "?P (set_child es (set_type cJSON_Array (base_item fp t nm)))" if "?Q es" for es
    using False fits_array [OF _ that] by (simp add: base_item_def)
  then have "makes ?P b ?brackets" by (intro bracket_makes [where Q = ?Q] loop) simp_all
  moreover have "parse_array fp pv (base_item fp t nm) b m = ?brackets" using False by (simp add: parse_array_def)
  ultimately show ?thesis by (simp only:)
qed

lemma parse_object_makes:
  assumes "typed_parser fp pv"
  shows "makes (\<lambda>v. fits fp (pa_depth b) v \<and> name_of v = nm) b (parse_object fp pv (base_item fp t nm) b m)"
proof (cases "CJSON_NESTING_LIMIT \<le> pa_depth b \<or> \<not> at_char (b\<lparr>pa_depth := pa_depth b + 1\<rparr>) (CHR ''{'')")
  case True
  then show ?thesis by (auto simp: parse_object_def Let_def)
next
  case False
  let ?Q = "\<lambda>es. \<forall>e \<in> set es. fits fp (pa_depth b + 1) e \<and> named e"
  let ?brackets = "brackets (object_loop fp pv) (CHR ''}'') (\<lambda>es. set_child es (set_type cJSON_Object (base_item fp t nm))) b m"
  let ?P = "\<lambda>v. fits fp (pa_depth b) v \<and> name_of v = nm"
  have loop: "makes ?Q b' (object_loop fp pv n [] b' m)" if "pa_depth b' = pa_depth b + 1" for b' n m
    using object_loop_makes [OF assms, of "[]" b' n m] that by simp
  have "?P (set_child es (set_type cJSON_Object (base_item fp t nm)))" if "?Q es" for es
    using False fits_object [OF _ that] by (simp add: base_item_def)
  then have "makes ?P b ?brackets" by (intro bracket_makes [where Q = ?Q] loop) simp_all
  moreover have "parse_object fp pv (base_item fp t nm) b m = ?brackets" using False by (simp add: parse_object_def)
  ultimately show ?thesis by (simp only:)
qed

lemma string_item_fits: "string_item fp nm v \<Longrightarrow> fits fp d v \<and> name_of v = nm"
  by (auto simp: string_item_def fits_def cjson_types)

lemma parse_number_makes:
  "makes (\<lambda>v. fits fp (pa_depth b) v \<and> name_of v = nm) b (case parse_number fp (base_item fp t nm) b of (r, b) \<Rightarrow> Some (r, b, m))"
  by (auto simp: parse_number_def base_item_def fits_def cjson_types Let_def split: prod.splits)

lemma parse_value_typed: "typed_parser fp (parse_value fp k)"
proof (induction k)
  case (Suc k)
  show ?case unfolding typed_parser_def
  proof (intro allI)
    fix t nm m and b :: parse_buffer
    let ?P = "\<lambda>v. fits fp (pa_depth b) v \<and> name_of v = nm" and ?i = "base_item fp t nm"
    have str: "makes ?P b (parse_string ?i b m)"
      using parse_string_makes [of fp nm b t m] string_item_fits unfolding makes_def by blast
    have lit: "?P (set_type cJSON_NULL ?i)" "?P (set_type cJSON_False ?i)" "?P (set_valueint 1 (set_type cJSON_True ?i))"
      by (auto simp: base_item_def fits_def cjson_types)
    show "makes ?P b (parse_value fp (Suc k) ?i b m)"
      using lit str parse_number_makes [where fp = fp and nm = nm and t = t and m = m] parse_array_makes [OF Suc, where b = b] parse_object_makes [OF Suc, where b = b]
      by (simp split: option.splits)
  qed
qed (simp add: typed_parser_def)

lemma parse_opts_typed:
  assumes "cJSON_ParseWithOpts fp (Some s) want_end req m = Some (Some v, e, err, m')"
  shows "well_typed fp v \<and> name_of v = None \<and> nested_within CJSON_NESTING_LIMIT v"
proof -
  let ?b = "buffer_skip_whitespace \<lparr>pa_content = cstring s @ [CHR 0x00], pa_offset = 0, pa_depth = 0\<rparr>"
  obtain m1 b2 m2 where "parse_value fp (CJSON_NESTING_LIMIT + 1) (base_item fp 0 None) ?b m1 = Some (Some v, b2, m2)"
    using assms by (auto simp: cJSON_ParseWithOpts_def cJSON_New_Item_def zero_item_def base_item_def Let_def split: prod.splits option.splits if_splits bind_splits)
  then show ?thesis
    using typed_parserD [OF parse_value_typed refl, of fp ?b None "CJSON_NESTING_LIMIT + 1" 0 m1] by (simp add: makes_def fits_def)
qed

text \<open>
  C22: the parser returns on every text, and what it returns is well typed: every item has a plain type; only a
  string item has a string, which has no NUL; \<open>valueint\<close> is the saturated number, 1 for true and 0 otherwise;
  only arrays and objects have children, which have names exactly below objects; the item itself has no name;
  and arrays and objects are nested at most \<open>CJSON_NESTING_LIMIT\<close> deep.
\<close>

theorem cjson_parse_typed:
  assumes "strtod_prefix fp"
  shows "\<exists>item e err m'. cJSON_ParseWithOpts fp (Some s) want_end req m = Some (item, e, err, m')
    \<and> (\<forall>v. item = Some v \<longrightarrow> well_typed fp v \<and> name_of v = None \<and> nested_within CJSON_NESTING_LIMIT v)"
  using parse_returns [OF assms, of s want_end req m] parse_opts_typed by fastforce

text \<open>A small document.\<close>

lemma int_fp_simps: "fp_strtod int_fp ''1'' = (1, 1)" "saturate int_fp 1 = 1" "fp_point int_fp = CHR ''.''" "fp_zero int_fp = 0"
  by code_simp+

lemma small_value: "parse_value int_fp (Suc (Suc k)) (zero_item int_fp) \<lparr>pa_content = ''[ 1 ]'' @ [CHR 0x00], pa_offset = 0, pa_depth = 0\<rparr> []
 = Some (Some (CJSON 32 None 0 0 None [ex_num None 1]), \<lparr>pa_content = ''[ 1 ]'' @ [CHR 0x00], pa_offset = 5, pa_depth = 0\<rparr>, [])"
  by (simp add: literal_at_def can_read_def here_def nth_opt_def number_start_def parse_array_def CJSON_NESTING_LIMIT_def Let_def buffer_skip_whitespace_def
   is_blank_def at_char_def p_then_def new_item_def cJSON_New_Item_def parse_number_def number_char_def zero_item_def can_access_at_index_def move_def int_fp_simps cjson_types
   numeral_eq_Suc)

lemma small_doc: "cJSON_ParseWithOpts int_fp (Some ''[ 1 ]'') False True [] = Some (Some (CJSON 32 None 0 0 None [ex_num None 1]), None, None, [])"
proof -
  have "CJSON_NESTING_LIMIT + 1 = Suc (Suc 999)" by (simp add: CJSON_NESTING_LIMIT_def)
  then show ?thesis using small_value [of 999]
    by (simp add: cJSON_ParseWithOpts_def cstring_def cJSON_New_Item_def buffer_skip_whitespace_def is_blank_def at_char_def here_def nth_opt_def Let_def del: parse_value.simps)
qed
theorem cjson_parse_typed_witness: "well_typed int_fp (CJSON 32 None 0 0 None [ex_num None 1])"
proof -
  obtain item e err m' where p: "cJSON_ParseWithOpts int_fp (Some ''[ 1 ]'') False True [] = Some (item, e, err, m')"
    "\<forall>v. item = Some v \<longrightarrow> well_typed int_fp v \<and> name_of v = None \<and> nested_within CJSON_NESTING_LIMIT v"
    using cjson_parse_typed [OF int_strtod_prefix, of "''[ 1 ]''" False True "[]"] by blast
  then have "item = Some (CJSON 32 None 0 0 None [ex_num None 1])" using small_doc by simp
  then show ?thesis using p(2) by blast
qed

text \<open>
  C23: parsing, printing and parsing again: whatever text an item was parsed from, if its numbers read back from their
  printed text, then printing it, formatted or not, and parsing the printed text gives the same item.
\<close>

theorem cjson_parse_print_parse:
  assumes "cJSON_ParseWithOpts fp (Some s) want_end req m = Some (Some v, e, err, m1)" "\<forall>d \<in> numbers_of v. reads_back fp d"
    and "all_ok m2" "all_ok m3" "int (length (render fp fmt 0 v)) + 2 \<le> INT_MAX"
  shows "\<exists>b m2' m3'. print fp (Some v) fmt reallocate m2 = Some (Some b, m2')
    \<and> cJSON_ParseWithOpts fp (Some (map the b)) True True m3 = Some (Some v, Some (length (render fp fmt 0 v)), None, m3')"
proof -
  note v = parse_opts_typed [OF assms(1)]
  have "canonical fp v" using well_typed_canonical v assms(2) by blast
  then show ?thesis using print_parse v assms(3-5) by blast
qed

theorem cjson_parse_print_parse_witness:
  "\<exists>b m2' m3'. print int_fp (Some (CJSON 32 None 0 0 None [ex_num None 1])) False False [] = Some (Some b, m2')
    \<and> cJSON_ParseWithOpts int_fp (Some (map the b)) True True [] = Some (Some (CJSON 32 None 0 0 None [ex_num None 1]), Some 3, None, m3')"
proof -
  have r: "render int_fp False 0 (CJSON 32 None 0 0 None [ex_num None 1]) = ''[1]''" by code_simp
  then have l: "length (render int_fp False 0 (CJSON 32 None 0 0 None [ex_num None 1])) = 3" by (simp del: render.simps)
  have n: "\<forall>d \<in> numbers_of (CJSON 32 None 0 0 None [ex_num None 1]). reads_back int_fp d" by code_simp
  show ?thesis using cjson_parse_print_parse [OF small_doc n, of "[]" "[]" False False] l by (simp add: INT_MAX_def del: render.simps)
qed

end
