(* ===== verification/Cjson_Links.thy ===== *)
theory Cjson_Links
  imports Cjson_Item Linked_Heap "HOL-Library.Tree"
begin

text \<open>
  The functions of cJSON (\<open>20170801/cjson.c\<close>) that edit the pointer structure of items: deletion,
  references, and adding, detaching, inserting and replacing children.

  Items are nodes in a heap, with the links \<open>next\<close>, \<open>prev\<close> and \<open>child\<close>; the strings of an item are blocks of
  their own, since some of them are released with the item and some are not. Reading or writing through
  NULL or a freed pointer, and releasing a block twice, has no value.
\<close>

section \<open>Heap of items\<close>

record 'd jnode =
  jn_next :: "addr option"
  jn_prev :: "addr option"
  jn_child :: "addr option"
  jn_type :: u32
  jn_valuestring :: "addr option"
  jn_valueint :: int
  jn_valuedouble :: 'd
  jn_string :: "addr option"

text \<open>\<open>js_fresh\<close> bounds the addresses in use; \<open>js_mem\<close> holds the outcomes of the coming allocations.\<close>

record 'd jstate =
  js_nodes :: "'d jnode heap"
  js_strs :: "string heap"
  js_fresh :: addr
  js_mem :: mem

definition upd_node :: "addr \<Rightarrow> ('d jnode \<Rightarrow> 'd jnode) \<Rightarrow> 'd jstate \<Rightarrow> 'd jstate option" where
  "upd_node a f st = (case js_nodes st a of None \<Rightarrow> None | Some n \<Rightarrow> Some (st\<lparr>js_nodes := (js_nodes st)(a \<mapsto> f n)\<rparr>))"

definition set_next :: "addr \<Rightarrow> addr option \<Rightarrow> 'd jstate \<Rightarrow> 'd jstate option" where
  "set_next a p = upd_node a (\<lambda>n. n\<lparr>jn_next := p\<rparr>)"

definition set_prev :: "addr \<Rightarrow> addr option \<Rightarrow> 'd jstate \<Rightarrow> 'd jstate option" where
  "set_prev a p = upd_node a (\<lambda>n. n\<lparr>jn_prev := p\<rparr>)"

definition set_child_ptr :: "addr \<Rightarrow> addr option \<Rightarrow> 'd jstate \<Rightarrow> 'd jstate option" where
  "set_child_ptr a p = upd_node a (\<lambda>n. n\<lparr>jn_child := p\<rparr>)"

section \<open>Allocation\<close>

text \<open>
  The hooks: which functions \<open>global_hooks\<close> points to. \<open>None\<close> stands for the C library's own function,
  \<open>Some f\<close> for one that the caller installed; \<open>ih_reallocate\<close> tells whether \<open>realloc\<close> may be used.
\<close>

record 'f internal_hooks =
  ih_allocate :: "'f option"
  ih_deallocate :: "'f option"
  ih_reallocate :: bool

definition cJSON_InitHooks :: "('f option \<times> 'f option) option \<Rightarrow> 'f internal_hooks" where
  "cJSON_InitHooks hooks =
     (case hooks of
        None \<Rightarrow> \<lparr>ih_allocate = None, ih_deallocate = None, ih_reallocate = True\<rparr>
      | Some (malloc_fn, free_fn) \<Rightarrow>
          \<lparr>ih_allocate = malloc_fn, ih_deallocate = free_fn, ih_reallocate = (malloc_fn = None \<and> free_fn = None)\<rparr>)"

definition new_item_node :: "'d jnode \<Rightarrow> 'd jstate \<Rightarrow> addr option \<times> 'd jstate" where
  "new_item_node n st =
     (case malloc_ok (js_mem st) of (ok, m) \<Rightarrow>
        if ok then (Some (js_fresh st), st\<lparr>js_nodes := (js_nodes st)(js_fresh st \<mapsto> n), js_fresh := js_fresh st + 1, js_mem := m\<rparr>)
        else (None, st\<lparr>js_mem := m\<rparr>))"

text \<open>\<open>cJSON_strdup\<close> of a string in memory.\<close>

definition strdup_ptr :: "addr option \<Rightarrow> 'd jstate \<Rightarrow> (addr option \<times> 'd jstate) option" where
  "strdup_ptr s st =
     (case s of
        None \<Rightarrow> Some (None, st)
      | Some a \<Rightarrow> do {
          t \<leftarrow> js_strs st a;
          (case malloc_ok (js_mem st) of (ok, m) \<Rightarrow>
             if ok then Some (Some (js_fresh st), st\<lparr>js_strs := (js_strs st)(js_fresh st \<mapsto> t), js_fresh := js_fresh st + 1, js_mem := m\<rparr>)
             else Some (None, st\<lparr>js_mem := m\<rparr>))
        })"

definition free_str :: "addr option \<Rightarrow> 'd jstate \<Rightarrow> 'd jstate option" where
  "free_str s st =
     (case s of
        None \<Rightarrow> Some st
      | Some a \<Rightarrow> if js_strs st a = None then None else Some (st\<lparr>js_strs := (js_strs st)(a := None)\<rparr>))"

definition free_node :: "addr \<Rightarrow> 'd jstate \<Rightarrow> 'd jstate option" where
  "free_node a st = (if js_nodes st a = None then None else Some (st\<lparr>js_nodes := (js_nodes st)(a := None)\<rparr>))"

section \<open>Deletion\<close>

definition is_reference :: "'d jnode \<Rightarrow> bool" where
  "is_reference n \<longleftrightarrow> jn_type n AND cJSON_IsReference \<noteq> 0"

definition string_is_const :: "'d jnode \<Rightarrow> bool" where
  "string_is_const n \<longleftrightarrow> jn_type n AND cJSON_StringIsConst \<noteq> 0"

partial_function (option) cJSON_Delete :: "addr option \<Rightarrow> 'd jstate \<Rightarrow> 'd jstate option" where
  "cJSON_Delete item st =
     (case item of
        None \<Rightarrow> Some st
      | Some a \<Rightarrow> do {
          n \<leftarrow> js_nodes st a;
          st \<leftarrow> (if \<not> is_reference n \<and> jn_child n \<noteq> None then cJSON_Delete (jn_child n) st else Some st);
          n1 \<leftarrow> js_nodes st a;
          st \<leftarrow> (if \<not> is_reference n1 then free_str (jn_valuestring n1) st else Some st);
          st \<leftarrow> (if \<not> string_is_const n1 then free_str (jn_string n1) st else Some st);
          st \<leftarrow> free_node a st;
          cJSON_Delete (jn_next n) st
        })"

declare cJSON_Delete.simps [code]

section \<open>Walking along the children\<close>

partial_function (option) last_sibling :: "addr \<Rightarrow> 'd jstate \<Rightarrow> addr option" where
  "last_sibling a st = do {
     n \<leftarrow> js_nodes st a;
     (case jn_next n of None \<Rightarrow> Some a | Some b \<Rightarrow> last_sibling b st)
   }"

declare last_sibling.simps [code]

fun sibling_at :: "addr option \<Rightarrow> nat \<Rightarrow> 'd jstate \<Rightarrow> addr option option" where
  "sibling_at None index st = Some None"
| "sibling_at (Some a) 0 st = Some (Some a)"
| "sibling_at (Some a) (Suc i) st = do { n \<leftarrow> js_nodes st a; sibling_at (jn_next n) i st }"

definition get_array_item_ptr :: "addr option \<Rightarrow> nat \<Rightarrow> 'd jstate \<Rightarrow> addr option option" where
  "get_array_item_ptr array index st =
     (case array of None \<Rightarrow> Some None | Some a \<Rightarrow> do { n \<leftarrow> js_nodes st a; sibling_at (jn_child n) index st })"

text \<open>
  The search for a member with a name. \<open>strcmp\<close> reads through the name of every member; the comparison
  without regard to case checks for NULL.
\<close>

definition name_matches :: "addr option \<Rightarrow> string \<Rightarrow> bool \<Rightarrow> 'd jstate \<Rightarrow> bool option" where
  "name_matches s name case_sensitive st =
     (case s of
        None \<Rightarrow> if case_sensitive then None else Some False
      | Some a \<Rightarrow> do {
          t \<leftarrow> js_strs st a;
          Some (if case_sensitive then name = t else case_insensitive_strcmp (Some name) (Some t) = 0)
        })"

partial_function (option) find_sibling :: "addr option \<Rightarrow> string \<Rightarrow> bool \<Rightarrow> 'd jstate \<Rightarrow> addr option option" where
  "find_sibling p name case_sensitive st =
     (case p of
        None \<Rightarrow> Some None
      | Some a \<Rightarrow> do {
          n \<leftarrow> js_nodes st a;
          hit \<leftarrow> name_matches (jn_string n) name case_sensitive st;
          (if hit then Some (Some a) else find_sibling (jn_next n) name case_sensitive st)
        })"

declare find_sibling.simps [code]

definition get_object_item_ptr :: "addr option \<Rightarrow> addr option \<Rightarrow> bool \<Rightarrow> 'd jstate \<Rightarrow> addr option option" where
  "get_object_item_ptr object name case_sensitive st =
     (case (object, name) of
        (Some ob, Some s) \<Rightarrow> do {
          n \<leftarrow> js_nodes st ob;
          (if jn_child n = None then Some None
           else do { t \<leftarrow> js_strs st s; find_sibling (jn_child n) t case_sensitive st })
        }
      | _ \<Rightarrow> Some None)"

section \<open>Adding\<close>

definition suffix_object :: "addr \<Rightarrow> addr \<Rightarrow> 'd jstate \<Rightarrow> 'd jstate option" where
  "suffix_object prev item st = do { st \<leftarrow> set_next prev (Some item) st; set_prev item (Some prev) st }"

definition create_reference :: "addr option \<Rightarrow> 'd jstate \<Rightarrow> (addr option \<times> 'd jstate) option" where
  "create_reference item st =
     (case item of
        None \<Rightarrow> Some (None, st)
      | Some a \<Rightarrow> do {
          n \<leftarrow> js_nodes st a;
          Some (new_item_node (n\<lparr>jn_string := None, jn_type := jn_type n OR cJSON_IsReference, jn_next := None, jn_prev := None\<rparr>) st)
        })"

definition cJSON_AddItemToArray :: "addr option \<Rightarrow> addr option \<Rightarrow> 'd jstate \<Rightarrow> 'd jstate option" where
  "cJSON_AddItemToArray array item st =
     (case (array, item) of
        (Some ar, Some it) \<Rightarrow> do {
          n \<leftarrow> js_nodes st ar;
          (case jn_child n of
             None \<Rightarrow> set_child_ptr ar (Some it) st
           | Some c \<Rightarrow> do { l \<leftarrow> last_sibling c st; suffix_object l it st })
        }
      | _ \<Rightarrow> Some st)"

definition cJSON_AddItemToObjectCS :: "addr option \<Rightarrow> addr option \<Rightarrow> addr option \<Rightarrow> 'd jstate \<Rightarrow> 'd jstate option" where
  "cJSON_AddItemToObjectCS object string item st =
     (case (item, string) of
        (Some it, Some s) \<Rightarrow> do {
          n \<leftarrow> js_nodes st it;
          st \<leftarrow> (if \<not> string_is_const n then free_str (jn_string n) st else Some st);
          st \<leftarrow> upd_node it (\<lambda>n. n\<lparr>jn_string := Some s, jn_type := jn_type n OR cJSON_StringIsConst\<rparr>) st;
          cJSON_AddItemToArray object item st
        }
      | _ \<Rightarrow> Some st)"

definition cJSON_AddItemToObject :: "addr option \<Rightarrow> addr option \<Rightarrow> addr option \<Rightarrow> 'd jstate \<Rightarrow> 'd jstate option" where
  "cJSON_AddItemToObject object string item st =
     (case item of
        None \<Rightarrow> Some st
      | Some it \<Rightarrow> do {
          (copy, st) \<leftarrow> strdup_ptr string st;
          st \<leftarrow> cJSON_AddItemToObjectCS object copy item st;
          upd_node it (\<lambda>n. n\<lparr>jn_type := jn_type n AND NOT cJSON_StringIsConst\<rparr>) st
        })"

definition cJSON_AddItemReferenceToArray :: "addr option \<Rightarrow> addr option \<Rightarrow> 'd jstate \<Rightarrow> 'd jstate option" where
  "cJSON_AddItemReferenceToArray array item st =
     (if array = None then Some st
      else do { (ref, st) \<leftarrow> create_reference item st; cJSON_AddItemToArray array ref st })"

definition cJSON_AddItemReferenceToObject :: "addr option \<Rightarrow> addr option \<Rightarrow> addr option \<Rightarrow> 'd jstate \<Rightarrow> 'd jstate option" where
  "cJSON_AddItemReferenceToObject object string item st =
     (if object = None \<or> string = None then Some st
      else do { (ref, st) \<leftarrow> create_reference item st; cJSON_AddItemToObject object string ref st })"

section \<open>Detaching and deleting\<close>

definition cJSON_DetachItemViaPointer :: "addr option \<Rightarrow> addr option \<Rightarrow> 'd jstate \<Rightarrow> (addr option \<times> 'd jstate) option" where
  "cJSON_DetachItemViaPointer parent item st =
     (case (parent, item) of
        (Some pa, Some it) \<Rightarrow> do {
          n \<leftarrow> js_nodes st it;
          st \<leftarrow> (case jn_prev n of None \<Rightarrow> Some st | Some p \<Rightarrow> set_next p (jn_next n) st);
          n \<leftarrow> js_nodes st it;
          st \<leftarrow> (case jn_next n of None \<Rightarrow> Some st | Some q \<Rightarrow> set_prev q (jn_prev n) st);
          pn \<leftarrow> js_nodes st pa;
          n \<leftarrow> js_nodes st it;
          st \<leftarrow> (if jn_child pn = Some it then set_child_ptr pa (jn_next n) st else Some st);
          st \<leftarrow> set_prev it None st;
          st \<leftarrow> set_next it None st;
          Some (Some it, st)
        }
      | _ \<Rightarrow> Some (None, st))"

definition cJSON_DetachItemFromArray :: "addr option \<Rightarrow> int \<Rightarrow> 'd jstate \<Rightarrow> (addr option \<times> 'd jstate) option" where
  "cJSON_DetachItemFromArray array which st =
     (if which < 0 then Some (None, st)
      else do { item \<leftarrow> get_array_item_ptr array (nat which) st; cJSON_DetachItemViaPointer array item st })"

definition cJSON_DeleteItemFromArray :: "addr option \<Rightarrow> int \<Rightarrow> 'd jstate \<Rightarrow> 'd jstate option" where
  "cJSON_DeleteItemFromArray array which st = do { (item, st) \<leftarrow> cJSON_DetachItemFromArray array which st; cJSON_Delete item st }"

definition detach_from_object :: "addr option \<Rightarrow> addr option \<Rightarrow> bool \<Rightarrow> 'd jstate \<Rightarrow> (addr option \<times> 'd jstate) option" where
  "detach_from_object object string case_sensitive st = do {
     to_detach \<leftarrow> get_object_item_ptr object string case_sensitive st;
     cJSON_DetachItemViaPointer object to_detach st
   }"

definition cJSON_DetachItemFromObject :: "addr option \<Rightarrow> addr option \<Rightarrow> 'd jstate \<Rightarrow> (addr option \<times> 'd jstate) option" where
  "cJSON_DetachItemFromObject object string st = detach_from_object object string False st"

definition cJSON_DetachItemFromObjectCaseSensitive :: "addr option \<Rightarrow> addr option \<Rightarrow> 'd jstate \<Rightarrow> (addr option \<times> 'd jstate) option" where
  "cJSON_DetachItemFromObjectCaseSensitive object string st = detach_from_object object string True st"

definition cJSON_DeleteItemFromObject :: "addr option \<Rightarrow> addr option \<Rightarrow> 'd jstate \<Rightarrow> 'd jstate option" where
  "cJSON_DeleteItemFromObject object string st = do { (item, st) \<leftarrow> cJSON_DetachItemFromObject object string st; cJSON_Delete item st }"

definition cJSON_DeleteItemFromObjectCaseSensitive :: "addr option \<Rightarrow> addr option \<Rightarrow> 'd jstate \<Rightarrow> 'd jstate option" where
  "cJSON_DeleteItemFromObjectCaseSensitive object string st =
     do { (item, st) \<leftarrow> cJSON_DetachItemFromObjectCaseSensitive object string st; cJSON_Delete item st }"

section \<open>Inserting and replacing\<close>

definition cJSON_InsertItemInArray :: "addr option \<Rightarrow> int \<Rightarrow> addr option \<Rightarrow> 'd jstate \<Rightarrow> 'd jstate option" where
  "cJSON_InsertItemInArray array which newitem st =
     (if which < 0 then Some st
      else do {
        after_inserted \<leftarrow> get_array_item_ptr array (nat which) st;
        (case after_inserted of
           None \<Rightarrow> cJSON_AddItemToArray array newitem st
         | Some af \<Rightarrow> do {
             new \<leftarrow> newitem;
             st \<leftarrow> set_next new (Some af) st;
             an \<leftarrow> js_nodes st af;
             st \<leftarrow> set_prev new (jn_prev an) st;
             st \<leftarrow> set_prev af (Some new) st;
             ar \<leftarrow> array;
             arn \<leftarrow> js_nodes st ar;
             (if jn_child arn = Some af then set_child_ptr ar (Some new) st
              else do { n \<leftarrow> js_nodes st new; p \<leftarrow> jn_prev n; set_next p (Some new) st })
           })
      })"

definition cJSON_ReplaceItemViaPointer :: "addr option \<Rightarrow> addr option \<Rightarrow> addr option \<Rightarrow> 'd jstate \<Rightarrow> (bool \<times> 'd jstate) option" where
  "cJSON_ReplaceItemViaPointer parent item replacement st =
     (case (parent, item, replacement) of
        (Some pa, Some it, Some re) \<Rightarrow>
          (if re = it then Some (True, st)
           else do {
             n \<leftarrow> js_nodes st it;
             st \<leftarrow> set_next re (jn_next n) st;
             n \<leftarrow> js_nodes st it;
             st \<leftarrow> set_prev re (jn_prev n) st;
             r \<leftarrow> js_nodes st re;
             st \<leftarrow> (case jn_next r of None \<Rightarrow> Some st | Some q \<Rightarrow> set_prev q (Some re) st);
             r \<leftarrow> js_nodes st re;
             st \<leftarrow> (case jn_prev r of None \<Rightarrow> Some st | Some p \<Rightarrow> set_next p (Some re) st);
             pn \<leftarrow> js_nodes st pa;
             st \<leftarrow> (if jn_child pn = Some it then set_child_ptr pa (Some re) st else Some st);
             st \<leftarrow> set_next it None st;
             st \<leftarrow> set_prev it None st;
             st \<leftarrow> cJSON_Delete (Some it) st;
             Some (True, st)
           })
      | _ \<Rightarrow> Some (False, st))"

definition cJSON_ReplaceItemInArray :: "addr option \<Rightarrow> int \<Rightarrow> addr option \<Rightarrow> 'd jstate \<Rightarrow> 'd jstate option" where
  "cJSON_ReplaceItemInArray array which newitem st =
     (if which < 0 then Some st
      else do {
        item \<leftarrow> get_array_item_ptr array (nat which) st;
        (r, st) \<leftarrow> cJSON_ReplaceItemViaPointer array item newitem st;
        Some st
      })"

definition replace_item_in_object :: "addr option \<Rightarrow> addr option \<Rightarrow> addr option \<Rightarrow> bool \<Rightarrow> 'd jstate \<Rightarrow> (bool \<times> 'd jstate) option" where
  "replace_item_in_object object string replacement case_sensitive st =
     (case (replacement, string) of
        (Some re, Some s) \<Rightarrow> do {
          n \<leftarrow> js_nodes st re;
          st \<leftarrow> (if \<not> string_is_const n then free_str (jn_string n) st else Some st);
          (copy, st) \<leftarrow> strdup_ptr string st;
          st \<leftarrow> upd_node re (\<lambda>n. n\<lparr>jn_string := copy, jn_type := jn_type n AND NOT cJSON_StringIsConst\<rparr>) st;
          item \<leftarrow> get_object_item_ptr object string case_sensitive st;
          (r, st) \<leftarrow> cJSON_ReplaceItemViaPointer object item replacement st;
          Some (True, st)
        }
      | _ \<Rightarrow> Some (False, st))"

definition cJSON_ReplaceItemInObject :: "addr option \<Rightarrow> addr option \<Rightarrow> addr option \<Rightarrow> 'd jstate \<Rightarrow> 'd jstate option" where
  "cJSON_ReplaceItemInObject object string newitem st = map_option snd (replace_item_in_object object string newitem False st)"

definition cJSON_ReplaceItemInObjectCaseSensitive :: "addr option \<Rightarrow> addr option \<Rightarrow> addr option \<Rightarrow> 'd jstate \<Rightarrow> 'd jstate option" where
  "cJSON_ReplaceItemInObjectCaseSensitive object string newitem st = map_option snd (replace_item_in_object object string newitem True st)"

section \<open>Chains of siblings\<close>

text \<open>\<open>dll h prv p as q\<close>: from \<open>p\<close> the items \<open>as\<close> are linked in both directions, with \<open>prv\<close> in front and \<open>q\<close> behind.\<close>

fun dll :: "'d jnode heap \<Rightarrow> addr option \<Rightarrow> addr option \<Rightarrow> addr list \<Rightarrow> addr option \<Rightarrow> bool" where
  "dll h prv p [] q \<longleftrightarrow> p = q"
| "dll h prv p (a # as) q \<longleftrightarrow> p = Some a \<and> (\<exists>n. h a = Some n \<and> jn_prev n = prv \<and> dll h (Some a) (jn_next n) as q)"

definition last_opt :: "addr list \<Rightarrow> addr option \<Rightarrow> addr option" where
  "last_opt xs d = (if xs = [] then d else Some (last xs))"

definition first_opt :: "addr list \<Rightarrow> addr option \<Rightarrow> addr option" where
  "first_opt xs d = (case xs of [] \<Rightarrow> d | x # _ \<Rightarrow> Some x)"

lemma first_opt_simps [simp]: "first_opt [] d = d" "first_opt (x # xs) d = Some x" "first_opt (xs @ y # ys) d = first_opt xs (Some y)"
  by (auto simp: first_opt_def split: list.splits)

lemma last_opt_simps [simp]: "last_opt [] d = d" "last_opt (xs @ [x]) d = Some x"
  by (auto simp: last_opt_def)

lemma dll_append: "dll h prv p (xs @ ys) q \<longleftrightarrow> (\<exists>r. dll h prv p xs r \<and> dll h (last_opt xs prv) r ys q)"
  by (induction xs arbitrary: prv p) (auto simp: last_opt_def)

lemma dll_first: "dll h prv p xs q \<Longrightarrow> p = first_opt xs q"
  by (cases xs) auto

lemma dll_split: "dll h prv p (xs @ ys) q \<longleftrightarrow> dll h prv p xs (first_opt ys q) \<and> dll h (last_opt xs prv) (first_opt ys q) ys q"
  using dll_first unfolding dll_append by metis

definition same_links :: "'d jnode heap \<Rightarrow> 'd jnode heap \<Rightarrow> addr \<Rightarrow> bool" where
  "same_links h h' a \<longleftrightarrow> map_option (\<lambda>n. (jn_next n, jn_prev n)) (h' a) = map_option (\<lambda>n. (jn_next n, jn_prev n)) (h a)"

lemma dll_cong: "(\<And>a. a \<in> set xs \<Longrightarrow> same_links h h' a) \<Longrightarrow> dll h' prv p xs q \<longleftrightarrow> dll h prv p xs q"
proof (induction xs arbitrary: prv p)
  case (Cons a xs)
  then have "same_links h h' a" by simp
  then show ?case using Cons by (cases "h a"; cases "h' a") (auto simp: same_links_def)
qed simp

lemma dll_other [simp]: "a \<notin> set xs \<Longrightarrow> dll (h(a := x)) prv p xs q \<longleftrightarrow> dll h prv p xs q"
  by (rule dll_cong) (auto simp: same_links_def)

lemma dll_child [simp]: "h a = Some n \<Longrightarrow> dll (h(a \<mapsto> n\<lparr>jn_child := c\<rparr>)) prv p xs q \<longleftrightarrow> dll h prv p xs q"
  by (rule dll_cong) (auto simp: same_links_def)

lemma dll_in_heap: "dll h prv p xs q \<Longrightarrow> a \<in> set xs \<Longrightarrow> \<exists>n. h a = Some n"
  by (induction xs arbitrary: prv p) auto

lemma dll_chain: "dll h prv p xs q \<Longrightarrow> chain jn_next h p xs q"
  by (induction xs arbitrary: prv p) auto

lemma dll_distinct: "dll h prv p xs None \<Longrightarrow> distinct xs"
  using dll_chain chain_distinct by blast

text \<open>Redirecting the end of a segment, and the start of one.\<close>

definition link_end :: "addr list \<Rightarrow> addr option \<Rightarrow> 'd jnode heap \<Rightarrow> 'd jnode heap" where
  "link_end xs r h = (if xs = [] then h else h(last xs := map_option (\<lambda>n. n\<lparr>jn_next := r\<rparr>) (h (last xs))))"

definition link_start :: "addr list \<Rightarrow> addr option \<Rightarrow> 'd jnode heap \<Rightarrow> 'd jnode heap" where
  "link_start xs r h = (if xs = [] then h else h(hd xs := map_option (\<lambda>n. n\<lparr>jn_prev := r\<rparr>) (h (hd xs))))"

lemma dll_link_end:
  assumes "dll h prv p xs q" "distinct xs" shows "dll (link_end xs r h) prv (first_opt xs r) xs r"
proof (cases xs rule: rev_cases)
  case (snoc ys y)
  then have "y \<notin> set ys" using assms(2) by simp
  then show ?thesis using assms(1) dll_first [OF assms(1)] snoc by (auto simp: link_end_def dll_append)
qed (simp add: link_end_def)

lemma dll_link_start:
  assumes "dll h prv p xs q" "distinct xs" shows "dll (link_start xs r h) r p xs q"
  using assms by (cases xs) (auto simp: link_start_def)

lemma link_end_other [simp]: "a \<notin> set xs \<Longrightarrow> link_end xs r h a = h a" "dom (link_end xs r h) = dom h"
  by (auto simp: link_end_def dom_def)

lemma link_start_other [simp]: "a \<notin> set xs \<Longrightarrow> link_start xs r h a = h a" "dom (link_start xs r h) = dom h"
  by (auto simp: link_start_def dom_def)

text \<open>The children of an item.\<close>

definition children :: "'d jstate \<Rightarrow> addr \<Rightarrow> addr list \<Rightarrow> bool" where
  "children st a cs \<longleftrightarrow> (\<exists>n. js_nodes st a = Some n \<and> dll (js_nodes st) None (jn_child n) cs None) \<and> a \<notin> set cs"

text \<open>An item outside every chain.\<close>

definition detached :: "'d jstate \<Rightarrow> addr \<Rightarrow> bool" where
  "detached st a \<longleftrightarrow> (\<exists>n. js_nodes st a = Some n \<and> jn_next n = None \<and> jn_prev n = None)"

text \<open>
  What an edit below the item \<open>par\<close> leaves alone: strings, allocations, all items outside a set, and everything
  but the links to siblings of the rest; \<open>par\<close> itself may only get another first child.
\<close>

definition data_of :: "bool \<Rightarrow> 'd jnode \<Rightarrow> 'd jnode" where
  "data_of is_par n = (if is_par then n\<lparr>jn_child := None\<rparr> else n\<lparr>jn_next := None, jn_prev := None\<rparr>)"

definition relinked :: "addr \<Rightarrow> addr set \<Rightarrow> 'd jstate \<Rightarrow> 'd jstate \<Rightarrow> bool" where
  "relinked par A st st' \<longleftrightarrow> js_strs st' = js_strs st \<and> js_fresh st' = js_fresh st \<and> js_mem st' = js_mem st
     \<and> (\<forall>b. b \<notin> A \<longrightarrow> js_nodes st' b = js_nodes st b)
     \<and> (\<forall>b. map_option (data_of (b = par)) (js_nodes st' b) = map_option (data_of (b = par)) (js_nodes st b))"

lemma data_of_update [simp]:
  "data_of False (n\<lparr>jn_next := x\<rparr>) = data_of False n" "data_of False (n\<lparr>jn_prev := x\<rparr>) = data_of False n"
  "data_of True (n\<lparr>jn_child := x\<rparr>) = data_of True n"
  by (simp_all add: data_of_def)

lemma relinked_refl [simp]: "relinked par A st st"
  by (simp add: relinked_def)

lemma relinked_trans: "relinked par A st st1 \<Longrightarrow> relinked par A st1 st2 \<Longrightarrow> relinked par A st st2"
  by (simp add: relinked_def)

lemma relinked_step:
  "a \<in> A \<Longrightarrow> js_nodes st a = Some n \<Longrightarrow> data_of (a = par) n' = data_of (a = par) n
    \<Longrightarrow> relinked par A st (st\<lparr>js_nodes := (js_nodes st)(a \<mapsto> n')\<rparr>)"
  by (auto simp: relinked_def)

text \<open>The functions that walk along a chain.\<close>

lemma last_sibling_dll: "dll (js_nodes st) prv (Some a) (a # as) None \<Longrightarrow> last_sibling a st = Some (last (a # as))"
proof (induction as arbitrary: prv a)
  case Nil
  then show ?case by (subst last_sibling.simps) auto
next
  case (Cons b as)
  then obtain n where "js_nodes st a = Some n" "jn_next n = Some b" "dll (js_nodes st) (Some a) (Some b) (b # as) None" by auto
  then show ?case using Cons.IH by (subst last_sibling.simps) simp
qed

lemma sibling_at_dll: "dll (js_nodes st) prv p as None \<Longrightarrow> sibling_at p i st = Some (if i < length as then Some (as ! i) else None)"
proof (induction p i st arbitrary: prv as rule: sibling_at.induct)
  case (1 index st)
  then show ?case by (cases as) auto
next
  case (2 a st)
  then show ?case by (cases as) auto
next
  case (3 a i st)
  then obtain n as' where "as = a # as'" "js_nodes st a = Some n" "dll (js_nodes st) (Some a) (jn_next n) as' None" by (cases as) auto
  then show ?case using "3.IH" by simp
qed

lemma get_array_item_children:
  "children st a cs \<Longrightarrow> get_array_item_ptr (Some a) i st = Some (if i < length cs then Some (cs ! i) else None)"
  by (auto simp: children_def get_array_item_ptr_def sibling_at_dll)

section \<open>Adding and inserting\<close>

lemma children_distinct: "children st a cs \<Longrightarrow> distinct cs"
  using dll_distinct by (auto simp: children_def)

lemma add_item_children:
  assumes "children st a cs" "detached st x" "x \<notin> set cs" "x \<noteq> a"
  shows "\<exists>st'. cJSON_AddItemToArray (Some a) (Some x) st = Some st' \<and> children st' a (cs @ [x]) \<and> relinked a (insert a (insert x (set cs))) st st'"
proof -
  obtain n where n: "js_nodes st a = Some n" "dll (js_nodes st) None (jn_child n) cs None" "a \<notin> set cs" using assms(1) by (auto simp: children_def)
  obtain xn where x: "js_nodes st x = Some xn" "jn_next xn = None" "jn_prev xn = None" using assms(2) by (auto simp: detached_def)
  show ?thesis
  proof (cases cs rule: rev_cases)
    case Nil
    then show ?thesis using n x assms(4)
      by (auto simp: cJSON_AddItemToArray_def set_child_ptr_def upd_node_def children_def intro!: relinked_step)
  next
    case (snoc ys y)
    have "cs \<noteq> []" using snoc by simp
    then obtain c cs' where c: "cs = c # cs'" by (cases cs) auto
    then have child: "jn_child n = Some c" using n(2) by simp
    have "last (c # cs') = y" using snoc c by (metis last_snoc)
    then have last: "last_sibling c st = Some y" using last_sibling_dll [of st None c cs'] n(2) c child by simp
    obtain yn where y: "js_nodes st y = Some yn" using dll_in_heap [OF n(2), of y] snoc by auto
    let ?h = "(js_nodes st)(y \<mapsto> yn\<lparr>jn_next := Some x\<rparr>)"
    let ?st' = "st\<lparr>js_nodes := ?h(x \<mapsto> xn\<lparr>jn_prev := Some y\<rparr>)\<rparr>"
    have xy: "x \<noteq> y" "a \<noteq> y" "y \<notin> set ys" using assms(3) n(3) snoc children_distinct [OF assms(1)] by auto
    have "cJSON_AddItemToArray (Some a) (Some x) st = Some ?st'"
      using n(1) child last x(1) y xy by (simp add: cJSON_AddItemToArray_def suffix_object_def set_next_def set_prev_def upd_node_def)
    moreover have "children ?st' a (cs @ [x])"
    proof -
      have e: "link_end cs (Some x) (js_nodes st) = ?h" using snoc y by (simp add: link_end_def)
      have "dll ?h None (jn_child n) cs (Some x)"
        using dll_link_end [OF n(2) children_distinct [OF assms(1)], of "Some x"] c child unfolding e by simp
      moreover have "last_opt cs None = Some y" using snoc by simp
      ultimately have "dll (?h(x \<mapsto> xn\<lparr>jn_prev := Some y\<rparr>)) None (jn_child n) (cs @ [x]) None"
        using assms(3) x by (simp add: dll_split [of _ _ _ cs])
      then show ?thesis using n xy assms(4) by (simp add: children_def)
    qed
    moreover have "relinked a (insert a (insert x (set cs))) st ?st'"
    proof (rule relinked_trans [of _ _ _ "st\<lparr>js_nodes := ?h\<rparr>"])
      show "relinked a (insert a (insert x (set cs))) st (st\<lparr>js_nodes := ?h\<rparr>)" by (rule relinked_step) (use y snoc xy in simp_all)
      show "relinked a (insert a (insert x (set cs))) (st\<lparr>js_nodes := ?h\<rparr>) ?st'"
        using relinked_step [of x "insert a (insert x (set cs))" "st\<lparr>js_nodes := ?h\<rparr>" xn a] x xy assms(4) by simp
    qed
    ultimately show ?thesis by blast
  qed
qed

text \<open>Redirecting an end through a pointer that may be NULL, as the code does.\<close>

lemma set_next_end:
  assumes "set xs \<subseteq> dom (js_nodes st)"
  shows "(case last_opt xs None of None \<Rightarrow> Some st | Some p \<Rightarrow> set_next p r st) = Some (st\<lparr>js_nodes := link_end xs r (js_nodes st)\<rparr>)"
  using assms by (cases xs rule: rev_cases) (auto simp: link_end_def set_next_def upd_node_def)

lemma set_prev_start:
  assumes "set ys \<subseteq> dom (js_nodes st)"
  shows "(case first_opt ys None of None \<Rightarrow> Some st | Some p \<Rightarrow> set_prev p r st) = Some (st\<lparr>js_nodes := link_start ys r (js_nodes st)\<rparr>)"
  using assms by (cases ys) (auto simp: link_start_def set_prev_def upd_node_def)

lemma relinked_end: "set xs \<subseteq> A \<Longrightarrow> par \<notin> set xs \<Longrightarrow> relinked par A st (st\<lparr>js_nodes := link_end xs r (js_nodes st)\<rparr>)"
proof (cases "xs = []")
  case False
  moreover assume "set xs \<subseteq> A" "par \<notin> set xs"
  ultimately have "last xs \<in> A" "last xs \<noteq> par" using last_in_set [of xs] by blast+
  then show ?thesis using False by (auto simp: relinked_def link_end_def option.map_comp comp_def)
qed (simp add: link_end_def)

lemma relinked_start: "set xs \<subseteq> A \<Longrightarrow> par \<notin> set xs \<Longrightarrow> relinked par A st (st\<lparr>js_nodes := link_start xs r (js_nodes st)\<rparr>)"
proof (cases "xs = []")
  case False
  moreover assume "set xs \<subseteq> A" "par \<notin> set xs"
  ultimately have "hd xs \<in> A" "hd xs \<noteq> par" using hd_in_set [of xs] by blast+
  then show ?thesis using False by (auto simp: relinked_def link_start_def option.map_comp comp_def)
qed (simp add: link_start_def)

lemma dll_link_other:
  assumes "set xs \<inter> set ys = {}"
  shows "dll (link_end ys r h) prv p xs q = dll h prv p xs q" "dll (link_start ys r h) prv p xs q = dll h prv p xs q"
proof -
  have "a \<notin> set ys" if "a \<in> set xs" for a using that assms by auto
  then show "dll (link_end ys r h) prv p xs q = dll h prv p xs q" "dll (link_start ys r h) prv p xs q = dll h prv p xs q"
    by (auto intro!: dll_cong simp: same_links_def)
qed

lemma children_split:
  assumes "children st a (xs @ x # ys)"
  obtains n xn where "js_nodes st a = Some n" "js_nodes st x = Some xn" "jn_child n = first_opt (xs @ [x]) None"
    "jn_prev xn = last_opt xs None" "jn_next xn = first_opt ys None"
    "dll (js_nodes st) None (first_opt xs (Some x)) xs (Some x)" "dll (js_nodes st) (Some x) (first_opt ys None) ys None"
    "a \<notin> set xs" "a \<noteq> x" "a \<notin> set ys" "distinct (xs @ x # ys)"
    "set xs \<subseteq> dom (js_nodes st)" "set ys \<subseteq> dom (js_nodes st)"
proof -
  obtain n where n: "js_nodes st a = Some n" "dll (js_nodes st) None (jn_child n) (xs @ x # ys) None" "a \<notin> set (xs @ x # ys)"
    using assms by (auto simp: children_def)
  then have d: "dll (js_nodes st) None (jn_child n) xs (Some x)" "dll (js_nodes st) (last_opt xs None) (Some x) (x # ys) None"
    by (simp_all add: dll_split)
  from d(2) obtain xn where x: "js_nodes st x = Some xn" "jn_prev xn = last_opt xs None" "dll (js_nodes st) (Some x) (jn_next xn) ys None" by auto
  have dom: "set xs \<subseteq> dom (js_nodes st)" "set ys \<subseteq> dom (js_nodes st)" using dll_in_heap [OF d(1)] dll_in_heap [OF x(3)] by auto
  show ?thesis
    using that [OF n(1) x(1) _ x(2) _ _ _ _ _ _ _ dom] dll_first [OF d(1)] dll_first [OF x(3)] d(1) x(3) n(3) dll_distinct [OF n(2)] by simp
qed

lemma detach_children:
  assumes "children st a (xs @ x # ys)"
  shows "\<exists>st'. cJSON_DetachItemViaPointer (Some a) (Some x) st = Some (Some x, st') \<and> children st' a (xs @ ys) \<and> detached st' x
    \<and> relinked a (insert a (set (xs @ x # ys))) st st'"
proof -
  let ?A = "insert a (set (xs @ x # ys))"
  obtain n xn where n: "js_nodes st a = Some n" "js_nodes st x = Some xn" "jn_child n = first_opt (xs @ [x]) None"
    "jn_prev xn = last_opt xs None" "jn_next xn = first_opt ys None"
    and left: "dll (js_nodes st) None (first_opt xs (Some x)) xs (Some x)" and right: "dll (js_nodes st) (Some x) (first_opt ys None) ys None"
    and out: "a \<notin> set xs" "a \<noteq> x" "a \<notin> set ys" and dist: "distinct (xs @ x # ys)"
    and dom: "set xs \<subseteq> dom (js_nodes st)" "set ys \<subseteq> dom (js_nodes st)"
    using assms by (rule children_split)
  define st1 where "st1 = st\<lparr>js_nodes := link_end xs (first_opt ys None) (js_nodes st)\<rparr>"
  define st2 where "st2 = st1\<lparr>js_nodes := link_start ys (last_opt xs None) (js_nodes st1)\<rparr>"
  define n' where "n' = (if xs = [] then n\<lparr>jn_child := first_opt ys None\<rparr> else n)"
  define st3 where "st3 = st2\<lparr>js_nodes := (js_nodes st2)(a \<mapsto> n')\<rparr>"
  define st4 where "st4 = st3\<lparr>js_nodes := (js_nodes st3)(x \<mapsto> xn\<lparr>jn_prev := None, jn_next := None\<rparr>)\<rparr>"
  have x2: "js_nodes st1 x = Some xn" "js_nodes st2 x = Some xn" "js_nodes st2 a = Some n" "js_nodes st3 x = Some xn"
    using n(1,2) dist out by (auto simp: st1_def st2_def st3_def)
  have 1: "(case jn_prev xn of None \<Rightarrow> Some st | Some p \<Rightarrow> set_next p (jn_next xn) st) = Some st1"
    unfolding n(4,5) st1_def by (rule set_next_end [OF dom(1)])
  have "set ys \<subseteq> dom (js_nodes st1)" using dom(2) by (simp add: st1_def)
  then have 2: "(case jn_next xn of None \<Rightarrow> Some st1 | Some q \<Rightarrow> set_prev q (jn_prev xn) st1) = Some st2"
    unfolding n(4,5) st2_def by (rule set_prev_start)
  have "jn_child n = Some x \<longleftrightarrow> xs = []" using n(3) dist by (cases xs) auto
  then have 3: "(if jn_child n = Some x then set_child_ptr a (jn_next xn) st2 else Some st2) = Some st3"
    using x2(3) n(5) by (auto simp: set_child_ptr_def upd_node_def st3_def n'_def fun_upd_idem)
  have 4: "set_prev x None st3 = Some (st3\<lparr>js_nodes := (js_nodes st3)(x \<mapsto> xn\<lparr>jn_prev := None\<rparr>)\<rparr>)"
    "set_next x None (st3\<lparr>js_nodes := (js_nodes st3)(x \<mapsto> xn\<lparr>jn_prev := None\<rparr>)\<rparr>) = Some st4"
    using x2(4) by (simp_all add: set_prev_def set_next_def upd_node_def st4_def)
  have run: "cJSON_DetachItemViaPointer (Some a) (Some x) st = Some (Some x, st4)"
    using n(2) 1 x2 2 3 4 by (simp add: cJSON_DetachItemViaPointer_def)
  have "dll (js_nodes st2) None (first_opt xs (first_opt ys None)) xs (first_opt ys None)"
  proof -
    have "dll (js_nodes st1) None (first_opt xs (first_opt ys None)) xs (first_opt ys None)"
      using dll_link_end [OF left, of "first_opt ys None"] dist by (simp add: st1_def)
    then show ?thesis using dist by (simp add: st2_def dll_link_other)
  qed
  moreover have "dll (js_nodes st2) (last_opt xs None) (first_opt ys None) ys None"
  proof -
    have "dll (js_nodes st1) (Some x) (first_opt ys None) ys None"
      using right dist by (simp add: st1_def dll_link_other Int_commute)
    from dll_link_start [OF this] show ?thesis using dist by (simp add: st2_def)
  qed
  ultimately have "dll (js_nodes st2) None (first_opt xs (first_opt ys None)) (xs @ ys) None" by (simp add: dll_split)
  then have "dll (js_nodes st4) None (first_opt xs (first_opt ys None)) (xs @ ys) None"
    using dist out by (simp add: st4_def st3_def)
  moreover have "jn_child n' = first_opt xs (first_opt ys None)" using n(3) by (cases xs) (auto simp: n'_def)
  moreover have "js_nodes st4 a = Some n'" using out by (simp add: st4_def st3_def)
  ultimately have "children st4 a (xs @ ys)" using out by (auto simp: children_def)
  moreover have "detached st4 x" by (simp add: detached_def st4_def)
  moreover have "relinked a ?A st st4"
  proof -
    have "relinked a ?A st st1" unfolding st1_def by (rule relinked_end) (use out in auto)
    moreover have "relinked a ?A st1 st2" unfolding st2_def by (rule relinked_start) (use out in auto)
    moreover have "relinked a ?A st2 st3" unfolding st3_def by (rule relinked_step [OF _ x2(3)]) (auto simp: n'_def)
    moreover have "relinked a ?A st3 st4" unfolding st4_def by (rule relinked_step [OF _ x2(4)]) (use out in auto)
    ultimately show ?thesis using relinked_trans by blast
  qed
  ultimately show ?thesis using run by blast
qed

lemma insert_children:
  assumes "children st a (xs @ y # ys)" "detached st x" "x \<notin> set (xs @ y # ys)" "x \<noteq> a"
  shows "\<exists>st'. cJSON_InsertItemInArray (Some a) (int (length xs)) (Some x) st = Some st' \<and> children st' a (xs @ x # y # ys)
    \<and> relinked a (insert a (insert x (set (xs @ y # ys)))) st st'"
proof -
  let ?A = "insert a (insert x (set (xs @ y # ys)))"
  obtain n yn where n: "js_nodes st a = Some n" "js_nodes st y = Some yn" "jn_child n = first_opt (xs @ [y]) None"
    "jn_prev yn = last_opt xs None" "jn_next yn = first_opt ys None"
    and left: "dll (js_nodes st) None (first_opt xs (Some y)) xs (Some y)" and right: "dll (js_nodes st) (Some y) (first_opt ys None) ys None"
    and out: "a \<notin> set xs" "a \<noteq> y" "a \<notin> set ys" and dist: "distinct (xs @ y # ys)"
    and dom: "set xs \<subseteq> dom (js_nodes st)" "set ys \<subseteq> dom (js_nodes st)"
    using assms(1) by (rule children_split)
  obtain xn where x: "js_nodes st x = Some xn" using assms(2) by (auto simp: detached_def)
  define xn' where "xn' = xn\<lparr>jn_next := Some y, jn_prev := last_opt xs None\<rparr>"
  define st1 where "st1 = st\<lparr>js_nodes := (js_nodes st)(x \<mapsto> xn')\<rparr>"
  define st2 where "st2 = st1\<lparr>js_nodes := (js_nodes st1)(y \<mapsto> yn\<lparr>jn_prev := Some x\<rparr>)\<rparr>"
  define st3 where "st3 = st2\<lparr>js_nodes := link_end xs (Some x) (js_nodes st2)\<rparr>"
  define n' where "n' = (if xs = [] then n\<lparr>jn_child := Some x\<rparr> else n)"
  define st4 where "st4 = st3\<lparr>js_nodes := (js_nodes st3)(a \<mapsto> n')\<rparr>"
  have get: "get_array_item_ptr (Some a) (length xs) st = Some (Some y)" using get_array_item_children [OF assms(1), of "length xs"] by simp
  have 1: "set_next x (Some y) st = Some (st\<lparr>js_nodes := (js_nodes st)(x \<mapsto> xn\<lparr>jn_next := Some y\<rparr>)\<rparr>)"
    "set_prev x (last_opt xs None) (st\<lparr>js_nodes := (js_nodes st)(x \<mapsto> xn\<lparr>jn_next := Some y\<rparr>)\<rparr>) = Some st1"
    using x by (simp_all add: set_next_def set_prev_def upd_node_def st1_def xn'_def)
  have nodes: "js_nodes st1 y = Some yn" "js_nodes st2 a = Some n" "js_nodes st2 x = Some xn'" "js_nodes st3 a = Some n"
    using n x assms(3,4) out by (auto simp: st1_def st2_def st3_def)
  have 2: "set_prev y (Some x) st1 = Some st2" using nodes(1) by (simp add: set_prev_def upd_node_def st2_def)
  have dom2: "set xs \<subseteq> dom (js_nodes st2)" using dom(1) by (auto simp: st2_def st1_def)
  have 3: "(if jn_child n = Some y then set_child_ptr a (Some x) st2 else do { m \<leftarrow> js_nodes st2 x; p \<leftarrow> jn_prev m; set_next p (Some x) st2 }) = Some st4"
  proof (cases xs rule: rev_cases)
    case Nil
    then show ?thesis using n(3) nodes by (simp add: set_child_ptr_def upd_node_def st4_def st3_def n'_def link_end_def)
  next
    case (snoc zs z)
    then have "jn_child n \<noteq> Some y" using n(3) dist by (cases zs) auto
    moreover have "set_next z (Some x) st2 = Some st3" using set_next_end [OF dom2, of "Some x"] snoc by (simp add: st3_def)
    moreover have "st4 = st3" using nodes(4) snoc by (simp add: st4_def n'_def fun_upd_idem)
    ultimately show ?thesis using nodes(3) snoc by (simp add: xn'_def)
  qed
  have run: "cJSON_InsertItemInArray (Some a) (int (length xs)) (Some x) st = Some st4"
    using get 1 2 3 n(2,4) nodes assms(3) by (simp add: cJSON_InsertItemInArray_def)
  have "dll (js_nodes st2) None (first_opt xs (Some y)) xs (Some y)" using left assms(3) dist by (simp add: st2_def st1_def)
  from dll_link_end [OF this] have "dll (js_nodes st3) None (first_opt xs (Some x)) xs (Some x)" using dist by (simp add: st3_def)
  moreover have "dll (js_nodes st3) (last_opt xs None) (Some x) (x # y # ys) None"
  proof -
    have "dll (js_nodes st2) (Some y) (first_opt ys None) ys None" using right assms(3) dist by (simp add: st2_def st1_def)
    then have "dll (js_nodes st2) (last_opt xs None) (Some x) (x # y # ys) None" using nodes(3) n(5) by (simp add: xn'_def st2_def)
    moreover have "set (x # y # ys) \<inter> set xs = {}" using assms(3) dist by auto
    ultimately show ?thesis by (auto simp: st3_def dll_link_other)
  qed
  ultimately have "dll (js_nodes st3) None (first_opt xs (Some x)) (xs @ x # y # ys) None" by (simp add: dll_split)
  then have "dll (js_nodes st4) None (first_opt xs (Some x)) (xs @ x # y # ys) None" using assms(4) out by (simp add: st4_def)
  moreover have "jn_child n' = first_opt xs (Some x)" using n(3) by (cases xs) (auto simp: n'_def)
  ultimately have "children st4 a (xs @ x # y # ys)" using out assms(4) by (auto simp: children_def st4_def)
  moreover have "relinked a ?A st st4"
  proof -
    have "relinked a ?A st st1" unfolding st1_def by (rule relinked_step [OF _ x]) (use assms(4) in \<open>auto simp: xn'_def\<close>)
    moreover have "relinked a ?A st1 st2" unfolding st2_def by (rule relinked_step [OF _ nodes(1)]) (use out in auto)
    moreover have "relinked a ?A st2 st3" unfolding st3_def by (rule relinked_end) (use out in auto)
    moreover have "relinked a ?A st3 st4" unfolding st4_def by (rule relinked_step [OF _ nodes(4)]) (auto simp: n'_def)
    ultimately show ?thesis using relinked_trans by blast
  qed
  ultimately show ?thesis using run by blast
qed

section \<open>Deletion releases exactly the tree\<close>

text \<open>
  What an item owns: its children unless it is a reference, its value string unless it is a reference, its
  name unless that is constant. The tree of items that a deletion reaches has the children of an item on
  the left and its next siblings on the right.
\<close>

definition owned_child :: "'d jnode \<Rightarrow> addr option" where
  "owned_child n = (if is_reference n then None else jn_child n)"

definition owned_strings :: "'d jnode \<Rightarrow> addr list" where
  "owned_strings n = (if is_reference n then [] else case jn_valuestring n of None \<Rightarrow> [] | Some s \<Rightarrow> [s])
     @ (if string_is_const n then [] else case jn_string n of None \<Rightarrow> [] | Some s \<Rightarrow> [s])"

fun shaped :: "'d jnode heap \<Rightarrow> addr option \<Rightarrow> addr tree \<Rightarrow> bool" where
  "shaped h p Leaf \<longleftrightarrow> p = None"
| "shaped h p (Node c a s) \<longleftrightarrow> p = Some a \<and> (\<exists>n. h a = Some n \<and> shaped h (owned_child n) c \<and> shaped h (jn_next n) s)"

definition strings_at :: "'d jnode heap \<Rightarrow> addr \<Rightarrow> addr list" where
  "strings_at h a = (case h a of None \<Rightarrow> [] | Some n \<Rightarrow> owned_strings n)"

lemma strings_at_Some [simp]: "h a = Some n \<Longrightarrow> strings_at h a = owned_strings n"
  by (simp add: strings_at_def)

fun tree_strings :: "'d jnode heap \<Rightarrow> addr tree \<Rightarrow> addr list" where
  "tree_strings h Leaf = []"
| "tree_strings h (Node c a s) = tree_strings h c @ strings_at h a @ tree_strings h s"

definition owned_tree :: "'d jstate \<Rightarrow> addr option \<Rightarrow> addr tree \<Rightarrow> bool" where
  "owned_tree st p t \<longleftrightarrow> shaped (js_nodes st) p t \<and> distinct (inorder t) \<and> distinct (tree_strings (js_nodes st) t)
     \<and> set (tree_strings (js_nodes st) t) \<subseteq> dom (js_strs st)"

definition released :: "addr tree \<Rightarrow> 'd jstate \<Rightarrow> 'd jstate" where
  "released t st = st\<lparr>js_nodes := js_nodes st |` (- set_tree t), js_strs := js_strs st |` (- set (tree_strings (js_nodes st) t))\<rparr>"

lemma shaped_cong: "(\<And>a. a \<in> set_tree t \<Longrightarrow> h' a = h a) \<Longrightarrow> shaped h' p t = shaped h p t"
  by (induction h p t rule: shaped.induct) auto

lemma tree_strings_cong: "(\<And>a. a \<in> set_tree t \<Longrightarrow> h' a = h a) \<Longrightarrow> tree_strings h' t = tree_strings h t"
  by (induction t) (auto simp: strings_at_def)

lemma free_owned:
  assumes "set (owned_strings n) \<subseteq> dom (js_strs st)" "distinct (owned_strings n)"
  shows "do { st \<leftarrow> (if \<not> is_reference n then free_str (jn_valuestring n) st else Some st);
              (if \<not> string_is_const n then free_str (jn_string n) st else Some st) }
    = Some (st\<lparr>js_strs := js_strs st |` (- set (owned_strings n))\<rparr>)"
  using assms by (cases "is_reference n"; cases "string_is_const n")
    (auto simp: owned_strings_def free_str_def restrict_map_def fun_eq_iff split: option.splits)

lemma released_Leaf: "released Leaf st = st"
  by (simp add: released_def restrict_map_def)

lemma shaped_None: "shaped h None t \<longleftrightarrow> t = Leaf"
  by (cases t) auto

lemma owned_tree_Node:
  assumes "owned_tree st p (Node c a s)" "js_nodes st a = Some n"
  defines "st1 \<equiv> released c st"
  defines "st2 \<equiv> st1\<lparr>js_strs := js_strs st1 |` (- set (owned_strings n)), js_nodes := (js_nodes st1)(a := None)\<rparr>"
  shows "owned_tree st (owned_child n) c" "owned_tree st2 (jn_next n) s" "js_nodes st1 a = Some n" "distinct (owned_strings n)"
    "set (owned_strings n) \<subseteq> dom (js_strs st1)" "released s st2 = released (Node c a s) st"
proof -
  have sh: "shaped (js_nodes st) (owned_child n) c" "shaped (js_nodes st) (jn_next n) s" using assms(1,2) by (auto simp: owned_tree_def)
  have dist: "distinct (inorder c)" "distinct (inorder s)" "a \<notin> set_tree c" "a \<notin> set_tree s" "set_tree c \<inter> set_tree s = {}"
    using assms(1) by (auto simp: owned_tree_def)
  let ?ts = "tree_strings (js_nodes st)"
  have str: "distinct (?ts c @ owned_strings n @ ?ts s)" "set (?ts c @ owned_strings n @ ?ts s) \<subseteq> dom (js_strs st)"
    using assms(1,2) by (auto simp: owned_tree_def)
  show "owned_tree st (owned_child n) c" using sh dist str by (auto simp: owned_tree_def)
  show "js_nodes st1 a = Some n" using assms(2) dist(3) by (simp add: st1_def released_def)
  show "distinct (owned_strings n)" using str(1) by simp
  have d1: "dom (js_strs st1) = dom (js_strs st) - set (?ts c)" by (auto simp: st1_def released_def)
  then show "set (owned_strings n) \<subseteq> dom (js_strs st1)" using str by auto
  have same: "js_nodes st2 b = js_nodes st b" if "b \<in> set_tree s" for b
  proof -
    have "b \<noteq> a" "b \<notin> set_tree c" using that dist by auto
    then show ?thesis by (simp add: st2_def st1_def released_def)
  qed
  then have ts: "tree_strings (js_nodes st2) s = ?ts s" by (rule tree_strings_cong)
  have "shaped (js_nodes st2) (jn_next n) s = shaped (js_nodes st) (jn_next n) s" using same by (rule shaped_cong)
  moreover have "set (?ts s) \<subseteq> dom (js_strs st2)" using str d1 by (auto simp: st2_def)
  ultimately show "owned_tree st2 (jn_next n) s" using sh(2) dist(2) str(1) ts by (simp add: owned_tree_def)
  show "released s st2 = released (Node c a s) st"
    using assms(2) ts by (auto simp: released_def st2_def st1_def restrict_map_def fun_eq_iff)
qed

lemma delete_releases: "owned_tree st p t \<Longrightarrow> cJSON_Delete p st = Some (released t st)"
proof (induction t arbitrary: st p)
  case Leaf
  then show ?case by (subst cJSON_Delete.simps) (simp add: owned_tree_def released_Leaf)
next
  case (Node c a s)
  obtain n where p: "p = Some a" and n: "js_nodes st a = Some n" using Node.prems by (auto simp: owned_tree_def)
  note parts = owned_tree_Node [OF Node.prems n]
  let ?st1 = "released c st"
  let ?st2 = "?st1\<lparr>js_strs := js_strs ?st1 |` (- set (owned_strings n)), js_nodes := (js_nodes ?st1)(a := None)\<rparr>"
  have child: "(if \<not> is_reference n \<and> jn_child n \<noteq> None then cJSON_Delete (jn_child n) st else Some st) = Some ?st1"
  proof (cases "\<not> is_reference n \<and> jn_child n \<noteq> None")
    case True
    then show ?thesis using Node.IH(1) [OF parts(1)] by (auto simp: owned_child_def)
  next
    case False
    then have "c = Leaf" using parts(1) by (auto simp: owned_tree_def owned_child_def shaped_None split: if_splits)
    then show ?thesis using False by (auto simp: released_Leaf)
  qed
  have strs: "do { st \<leftarrow> (if \<not> is_reference n then free_str (jn_valuestring n) ?st1 else Some ?st1);
      (if \<not> string_is_const n then free_str (jn_string n) st else Some st) } \<bind> free_node a = Some ?st2"
    unfolding free_owned [OF parts(5,4)] using parts(3) by (simp add: free_node_def)
  have "cJSON_Delete p st = do { st \<leftarrow> do { st \<leftarrow> (if \<not> is_reference n then free_str (jn_valuestring n) ?st1 else Some ?st1);
      (if \<not> string_is_const n then free_str (jn_string n) st else Some st) } \<bind> free_node a; cJSON_Delete (jn_next n) st }"
    unfolding p by (subst cJSON_Delete.simps) (simp only: n child parts(3) option.case Option.bind.simps Option.bind_assoc)
  also have "\<dots> = cJSON_Delete (jn_next n) ?st2" unfolding strs by simp
  also have "\<dots> = Some (released (Node c a s) st)" using Node.IH(2) [OF parts(2)] parts(6) by simp
  finally show ?case .
qed

section \<open>Replacing\<close>

text \<open>An item and everything it owns, apart from its siblings.\<close>

definition owned_item :: "'d jstate \<Rightarrow> addr \<Rightarrow> addr tree \<Rightarrow> bool" where
  "owned_item st x c \<longleftrightarrow> (\<exists>n. js_nodes st x = Some n \<and> shaped (js_nodes st) (owned_child n) c) \<and> distinct (inorder (Node c x Leaf))
     \<and> distinct (tree_strings (js_nodes st) (Node c x Leaf)) \<and> set (tree_strings (js_nodes st) (Node c x Leaf)) \<subseteq> dom (js_strs st)"

lemma owned_item_relinked:
  assumes "owned_item st x c" "relinked a A st st'" "detached st' x" "set_tree c \<inter> A = {}" "x \<noteq> a"
  shows "owned_tree st' (Some x) (Node c x Leaf) \<and> tree_strings (js_nodes st') (Node c x Leaf) = tree_strings (js_nodes st) (Node c x Leaf)"
proof -
  obtain n where n: "js_nodes st x = Some n" "shaped (js_nodes st) (owned_child n) c" using assms(1) unfolding owned_item_def by blast
  have parts: "distinct (inorder (Node c x Leaf))" "distinct (tree_strings (js_nodes st) (Node c x Leaf))"
    "set (tree_strings (js_nodes st) (Node c x Leaf)) \<subseteq> dom (js_strs st)"
    using assms(1) unfolding owned_item_def by blast+
  obtain n' where n': "js_nodes st' x = Some n'" "jn_next n' = None" using assms(3) by (auto simp: detached_def)
  have same: "js_nodes st' b = js_nodes st b" if "b \<in> set_tree c" for b using that assms(2,4) by (auto simp: relinked_def)
  have "map_option (data_of (x = a)) (js_nodes st' x) = map_option (data_of (x = a)) (js_nodes st x)" using assms(2) unfolding relinked_def by blast
  then have "data_of False n' = data_of False n" using n(1) n'(1) assms(5) by simp
  then have "jn_child n' = jn_child n" "jn_type n' = jn_type n" "jn_valuestring n' = jn_valuestring n" "jn_string n' = jn_string n"
    by (cases n; cases n'; simp add: data_of_def)+
  then have own: "owned_child n' = owned_child n" "owned_strings n' = owned_strings n"
    by (simp_all add: owned_child_def owned_strings_def is_reference_def string_is_const_def)
  have ts: "tree_strings (js_nodes st') (Node c x Leaf) = tree_strings (js_nodes st) (Node c x Leaf)"
    using tree_strings_cong [of c "js_nodes st'" "js_nodes st"] same n n' own by simp
  have "shaped (js_nodes st') (owned_child n') c" using shaped_cong [of c "js_nodes st'" "js_nodes st"] same n(2) own by simp
  then have "owned_tree st' (Some x) (Node c x Leaf)"
    using ts n' parts assms(2) unfolding owned_tree_def relinked_def by simp
  then show ?thesis using ts by blast
qed

lemma children_released:
  assumes "children st a cs" "set_tree t \<inter> insert a (set cs) = {}"
  shows "children (released t st) a cs"
proof -
  have "same_links (js_nodes st) (js_nodes (released t st)) b" if "b \<in> set cs" for b
    using that assms(2) by (auto simp: same_links_def released_def restrict_map_def)
  then have "dll (js_nodes (released t st)) prv p cs q = dll (js_nodes st) prv p cs q" for prv p q by (rule dll_cong)
  then show ?thesis using assms by (auto simp: children_def released_def)
qed

lemma replace_children:
  assumes "children st a (xs @ x # ys)" "detached st r" "r \<notin> set (xs @ x # ys)" "r \<noteq> a"
  shows "\<exists>st'. cJSON_ReplaceItemViaPointer (Some a) (Some x) (Some r) st = map_option (Pair True) (cJSON_Delete (Some x) st')
    \<and> children st' a (xs @ r # ys) \<and> detached st' x \<and> relinked a (insert a (insert r (set (xs @ x # ys)))) st st'"
proof -
  let ?A = "insert a (insert r (set (xs @ x # ys)))"
  obtain n xn where n: "js_nodes st a = Some n" "js_nodes st x = Some xn" "jn_child n = first_opt (xs @ [x]) None"
    "jn_prev xn = last_opt xs None" "jn_next xn = first_opt ys None"
    and left: "dll (js_nodes st) None (first_opt xs (Some x)) xs (Some x)" and right: "dll (js_nodes st) (Some x) (first_opt ys None) ys None"
    and out: "a \<notin> set xs" "a \<noteq> x" "a \<notin> set ys" and dist: "distinct (xs @ x # ys)"
    and dom: "set xs \<subseteq> dom (js_nodes st)" "set ys \<subseteq> dom (js_nodes st)"
    using assms(1) by (rule children_split)
  obtain rn where r: "js_nodes st r = Some rn" using assms(2) by (auto simp: detached_def)
  have rx: "r \<noteq> x" using assms(3) by auto
  define rn' where "rn' = rn\<lparr>jn_next := first_opt ys None, jn_prev := last_opt xs None\<rparr>"
  define st1 where "st1 = st\<lparr>js_nodes := (js_nodes st)(r \<mapsto> rn')\<rparr>"
  define st2 where "st2 = st1\<lparr>js_nodes := link_start ys (Some r) (js_nodes st1)\<rparr>"
  define st3 where "st3 = st2\<lparr>js_nodes := link_end xs (Some r) (js_nodes st2)\<rparr>"
  define n' where "n' = (if xs = [] then n\<lparr>jn_child := Some r\<rparr> else n)"
  define st4 where "st4 = st3\<lparr>js_nodes := (js_nodes st3)(a \<mapsto> n')\<rparr>"
  define st5 where "st5 = st4\<lparr>js_nodes := (js_nodes st4)(x \<mapsto> xn\<lparr>jn_next := None, jn_prev := None\<rparr>)\<rparr>"
  have nodes: "js_nodes st1 r = Some rn'" "js_nodes st2 r = Some rn'" "js_nodes st3 a = Some n" "js_nodes st4 x = Some xn"
    using n r rx assms(3,4) out dist by (auto simp: st1_def st2_def st3_def st4_def)
  have 1: "set_next r (jn_next xn) st = Some (st\<lparr>js_nodes := (js_nodes st)(r \<mapsto> rn\<lparr>jn_next := first_opt ys None\<rparr>)\<rparr>)"
    "set_prev r (jn_prev xn) (st\<lparr>js_nodes := (js_nodes st)(r \<mapsto> rn\<lparr>jn_next := first_opt ys None\<rparr>)\<rparr>) = Some st1"
    using r n(4,5) by (simp_all add: set_next_def set_prev_def upd_node_def st1_def rn'_def)
  have "set ys \<subseteq> dom (js_nodes st1)" "set xs \<subseteq> dom (js_nodes st2)" using dom by (auto simp: st1_def st2_def)
  then have 2: "(case jn_next rn' of None \<Rightarrow> Some st1 | Some q \<Rightarrow> set_prev q (Some r) st1) = Some st2"
    and 3: "(case jn_prev rn' of None \<Rightarrow> Some st2 | Some p \<Rightarrow> set_next p (Some r) st2) = Some st3"
    using set_prev_start [of ys st1] set_next_end [of xs st2] by (simp_all add: rn'_def st2_def st3_def)
  have "jn_child n = Some x \<longleftrightarrow> xs = []" using n(3) dist by (cases xs) auto
  then have 4: "(if jn_child n = Some x then set_child_ptr a (Some r) st3 else Some st3) = Some st4"
    using nodes(3) by (auto simp: set_child_ptr_def upd_node_def st4_def n'_def fun_upd_idem)
  have 5: "set_next x None st4 = Some (st4\<lparr>js_nodes := (js_nodes st4)(x \<mapsto> xn\<lparr>jn_next := None\<rparr>)\<rparr>)"
    "set_prev x None (st4\<lparr>js_nodes := (js_nodes st4)(x \<mapsto> xn\<lparr>jn_next := None\<rparr>)\<rparr>) = Some st5"
    using nodes(4) by (simp_all add: set_prev_def set_next_def upd_node_def st5_def)
  have run: "cJSON_ReplaceItemViaPointer (Some a) (Some x) (Some r) st = map_option (Pair True) (cJSON_Delete (Some x) st5)"
    using n(2) 1 2 3 4 5 nodes rx by (cases "cJSON_Delete (Some x) st5") (simp_all add: cJSON_ReplaceItemViaPointer_def)
  have "dll (js_nodes st2) None (first_opt xs (Some x)) xs (Some x)" using left assms(3) dist by (simp add: st2_def st1_def dll_link_other)
  from dll_link_end [OF this] have "dll (js_nodes st3) None (first_opt xs (Some r)) xs (Some r)" using dist by (simp add: st3_def)
  moreover have "dll (js_nodes st3) (last_opt xs None) (Some r) (r # ys) None"
  proof -
    have "dll (js_nodes st1) (Some x) (first_opt ys None) ys None" using right assms(3) by (simp add: st1_def)
    from dll_link_start [OF this] have "dll (js_nodes st2) (Some r) (first_opt ys None) ys None" using dist by (simp add: st2_def)
    then have "dll (js_nodes st2) (last_opt xs None) (Some r) (r # ys) None" using nodes(2) by (simp add: rn'_def)
    moreover have "set ys \<inter> set xs = {}" using dist by auto
    ultimately show ?thesis using assms(3) by (auto simp: st3_def dll_link_other)
  qed
  ultimately have "dll (js_nodes st3) None (first_opt xs (Some r)) (xs @ r # ys) None" by (simp add: dll_split)
  then have "dll (js_nodes st5) None (first_opt xs (Some r)) (xs @ r # ys) None" using assms(4) out dist rx by (simp add: st4_def st5_def)
  moreover have "jn_child n' = first_opt xs (Some r)" using n(3) by (cases xs) (auto simp: n'_def)
  ultimately have "children st5 a (xs @ r # ys)" using out assms(4) by (auto simp: children_def st4_def st5_def)
  moreover have "detached st5 x" by (simp add: detached_def st5_def)
  moreover have "relinked a ?A st st5"
  proof -
    have "relinked a ?A st st1" unfolding st1_def by (rule relinked_step [OF _ r]) (use assms(4) in \<open>auto simp: rn'_def\<close>)
    moreover have "relinked a ?A st1 st2" unfolding st2_def by (rule relinked_start) (use out in auto)
    moreover have "relinked a ?A st2 st3" unfolding st3_def by (rule relinked_end) (use out in auto)
    moreover have "relinked a ?A st3 st4" unfolding st4_def by (rule relinked_step [OF _ nodes(3)]) (auto simp: n'_def)
    moreover have "relinked a ?A st4 st5" unfolding st5_def by (rule relinked_step [OF _ nodes(4)]) (use out in auto)
    ultimately show ?thesis using relinked_trans by blast
  qed
  ultimately show ?thesis using run by blast
qed

text \<open>Two states with the same children that differ only in links below one item are equal.\<close>

lemma dll_links_eq: "dll h prv p cs q \<Longrightarrow> dll h' prv p' cs q \<Longrightarrow> b \<in> set cs \<Longrightarrow> same_links h h' b"
proof (induction cs arbitrary: prv p p')
  case (Cons c cs)
  then obtain n n' where n: "h c = Some n" "jn_prev n = prv" "dll h (Some c) (jn_next n) cs q"
    and n': "h' c = Some n'" "jn_prev n' = prv" "dll h' (Some c) (jn_next n') cs q" by auto
  then show ?case using Cons.IH [OF n(3) n'(3)] Cons.prems(3) dll_first [OF n(3)] dll_first [OF n'(3)] by (auto simp: same_links_def)
qed simp

lemma children_eq:
  assumes "children st a cs" "children st' a cs" "relinked a (insert a (set cs)) st st'"
  shows "st' = st"
proof -
  obtain n where n: "js_nodes st a = Some n" "dll (js_nodes st) None (jn_child n) cs None" using assms(1) by (auto simp: children_def)
  obtain n' where n': "js_nodes st' a = Some n'" "dll (js_nodes st') None (jn_child n') cs None" using assms(2) by (auto simp: children_def)
  have d: "map_option (data_of (b = a)) (js_nodes st' b) = map_option (data_of (b = a)) (js_nodes st b)" for b
    using assms(3) by (simp add: relinked_def)
  have "js_nodes st' b = js_nodes st b" for b
  proof -
    consider "b \<notin> insert a (set cs)" | "b = a" | "b \<in> set cs" "b \<noteq> a" by blast
    then show ?thesis
    proof cases
      case 1
      then show ?thesis using assms(3) by (simp add: relinked_def)
    next
      case 2
      have "jn_child n' = jn_child n" using dll_first [OF n(2)] dll_first [OF n'(2)] by simp
      moreover have "n'\<lparr>jn_child := None\<rparr> = n\<lparr>jn_child := None\<rparr>" using d [of a] n(1) n'(1) by (simp add: data_of_def)
      ultimately show ?thesis using n(1) n'(1) 2 by (cases n; cases n') simp
    next
      case 3
      obtain m m' where m: "js_nodes st b = Some m" "js_nodes st' b = Some m'" using dll_in_heap [OF n(2) 3(1)] dll_in_heap [OF n'(2) 3(1)] by auto
      have "same_links (js_nodes st) (js_nodes st') b" by (rule dll_links_eq [OF n(2) n'(2) 3(1)])
      then have "jn_next m' = jn_next m" "jn_prev m' = jn_prev m" using m by (auto simp: same_links_def)
      moreover have "m'\<lparr>jn_next := None, jn_prev := None\<rparr> = m\<lparr>jn_next := None, jn_prev := None\<rparr>" using d [of b] m 3(2) by (simp add: data_of_def)
      ultimately show ?thesis using m by (cases m; cases m') simp
    qed
  qed
  then show ?thesis using assms(3) by (cases st; cases st') (auto simp: relinked_def)
qed

section \<open>Editing arrays\<close>

lemma insert_any:
  assumes "children st a cs" "detached st x" "x \<notin> set cs" "x \<noteq> a"
  shows "\<exists>st'. cJSON_InsertItemInArray (Some a) (int i) (Some x) st = Some st' \<and> children st' a (take i cs @ x # drop i cs)
    \<and> relinked a (insert a (insert x (set cs))) st st'"
proof (cases "i < length cs")
  case True
  then have cs: "cs = take i cs @ cs ! i # drop (Suc i) cs" by (rule id_take_nth_drop)
  then have d: "drop i cs = cs ! i # drop (Suc i) cs" using True by (simp add: Cons_nth_drop_Suc)
  show ?thesis
    using insert_children [of st a "take i cs" "cs ! i" "drop (Suc i) cs" x] assms cs d True by (simp flip: cs)
next
  case False
  then have "get_array_item_ptr (Some a) i st = Some None" using get_array_item_children [OF assms(1), of i] by simp
  then show ?thesis using add_item_children [OF assms] False by (simp add: cJSON_InsertItemInArray_def)
qed

text \<open>
  C29: \<open>cJSON_InsertItemInArray\<close> puts a detached item in front of the child with the given index, or behind the
  last one if there is none (as \<open>cJSON_AddItemToArray\<close> does): the chain of children is again well linked in
  both directions, and no other part of the heap changes.
\<close>

theorem cjson_insert_correct:
  assumes "children st a cs" "detached st x" "x \<notin> set cs" "x \<noteq> a" "0 \<le> which"
  shows "\<exists>st'. cJSON_InsertItemInArray (Some a) which (Some x) st = Some st'
    \<and> children st' a (take (nat which) cs @ x # drop (nat which) cs) \<and> relinked a (insert a (insert x (set cs))) st st'"
  using insert_any [OF assms(1-4), of "nat which"] assms(5) by simp

lemma detach_index:
  assumes "children st a cs" "i < length cs"
  shows "\<exists>st'. cJSON_DetachItemFromArray (Some a) (int i) st = Some (Some (cs ! i), st') \<and> children st' a (take i cs @ drop (Suc i) cs)
    \<and> detached st' (cs ! i) \<and> relinked a (insert a (set cs)) st st'"
proof -
  have cs: "cs = take i cs @ cs ! i # drop (Suc i) cs" using assms(2) by (rule id_take_nth_drop)
  have "get_array_item_ptr (Some a) i st = Some (Some (cs ! i))" using get_array_item_children [OF assms(1), of i] assms(2) by simp
  then show ?thesis using detach_children [of st a "take i cs" "cs ! i" "drop (Suc i) cs"] assms(1)
    by (simp add: cJSON_DetachItemFromArray_def flip: cs)
qed

text \<open>
  C30: Detaching a child and inserting it again at the same index gives back exactly the heap before:
  \<open>cJSON_DetachItemFromArray\<close> takes the child out of the chain and clears its links, and
  \<open>cJSON_InsertItemInArray\<close> undoes it, for every position of the child.
\<close>

theorem cjson_detach_reinsert:
  assumes "children st a cs" "i < length cs"
  shows "\<exists>st'. cJSON_DetachItemFromArray (Some a) (int i) st = Some (Some (cs ! i), st') \<and> detached st' (cs ! i)
    \<and> children st' a (take i cs @ drop (Suc i) cs)
    \<and> cJSON_InsertItemInArray (Some a) (int i) (Some (cs ! i)) st' = Some st"
proof -
  obtain st1 where st1: "cJSON_DetachItemFromArray (Some a) (int i) st = Some (Some (cs ! i), st1)"
    "children st1 a (take i cs @ drop (Suc i) cs)" "detached st1 (cs ! i)" "relinked a (insert a (set cs)) st st1"
    using detach_index [OF assms] by blast
  have cs: "cs = take i cs @ cs ! i # drop (Suc i) cs" using assms(2) by (rule id_take_nth_drop)
  have "distinct (take i cs @ cs ! i # drop (Suc i) cs)" using children_distinct [OF assms(1)] cs by simp
  then have "cs ! i \<notin> set (take i cs @ drop (Suc i) cs)" by simp
  moreover have "cs ! i \<noteq> a" using assms by (auto simp: children_def)
  ultimately obtain st2 where st2: "cJSON_InsertItemInArray (Some a) (int i) (Some (cs ! i)) st1 = Some st2"
    "children st2 a (take i (take i cs @ drop (Suc i) cs) @ cs ! i # drop i (take i cs @ drop (Suc i) cs))"
    "relinked a (insert a (insert (cs ! i) (set (take i cs @ drop (Suc i) cs)))) st1 st2"
    using insert_any [OF st1(2,3), of i] by blast
  have "children st2 a cs" using st2(2) assms(2) cs by simp
  moreover have "insert (cs ! i) (set (take i cs @ drop (Suc i) cs)) = set cs" by (subst (3) cs) auto
  then have "relinked a (insert a (set cs)) st1 st2" using st2(3) by simp
  then have "relinked a (insert a (set cs)) st st2" by (rule relinked_trans [OF st1(4)])
  ultimately have "st2 = st" by (rule children_eq [OF assms(1)])
  then show ?thesis using st1 st2(1) by blast
qed

text \<open>
  C31: \<open>cJSON_Delete\<close> releases every item and every string of the tree that it is given, each exactly once, and
  nothing else. It neither touches what a reference points to nor a constant name; it terminates.
\<close>

theorem cjson_delete_correct:
  assumes "owned_tree st p t"
  shows "cJSON_Delete p st = Some (st\<lparr>js_nodes := js_nodes st |` (- set_tree t),
    js_strs := js_strs st |` (- set (tree_strings (js_nodes st) t))\<rparr>)"
  using delete_releases [OF assms] by (simp add: released_def)

text \<open>
  C32: \<open>cJSON_ReplaceItemInArray\<close> puts a detached item in the place of a child and deletes the old one: the new
  item stands at the same index between the same neighbours, the replaced item is released with all
  it owns, and the rest of the heap only changes in the links of the neighbours.
\<close>

theorem cjson_replace_correct:
  assumes "children st a cs" "i < length cs" "detached st r" "r \<notin> set cs" "r \<noteq> a"
    and "owned_item st (cs ! i) c" "set_tree c \<inter> insert a (insert r (set cs)) = {}"
  shows "\<exists>st1. relinked a (insert a (insert r (set cs))) st st1
    \<and> cJSON_ReplaceItemInArray (Some a) (int i) (Some r) st = Some (released (Node c (cs ! i) Leaf) st1)
    \<and> children (released (Node c (cs ! i) Leaf) st1) a (cs[i := r])"
proof -
  have cs: "cs = take i cs @ cs ! i # drop (Suc i) cs" using assms(2) by (rule id_take_nth_drop)
  have get: "get_array_item_ptr (Some a) i st = Some (Some (cs ! i))" using get_array_item_children [OF assms(1), of i] assms(2) by simp
  obtain st1 where st1: "cJSON_ReplaceItemViaPointer (Some a) (Some (cs ! i)) (Some r) st = map_option (Pair True) (cJSON_Delete (Some (cs ! i)) st1)"
    "children st1 a (take i cs @ r # drop (Suc i) cs)" "detached st1 (cs ! i)" "relinked a (insert a (insert r (set cs))) st st1"
    using replace_children [of st a "take i cs" "cs ! i" "drop (Suc i) cs" r] assms(1,3,4,5) by (auto simp flip: cs)
  have xa: "cs ! i \<noteq> a" "cs ! i \<noteq> r" using assms(1,2,4) by (auto simp: children_def)
  have "owned_tree st1 (Some (cs ! i)) (Node c (cs ! i) Leaf)" using owned_item_relinked [OF assms(6) st1(4,3) assms(7) xa(1)] by blast
  then have del: "cJSON_Delete (Some (cs ! i)) st1 = Some (released (Node c (cs ! i) Leaf) st1)" by (rule delete_releases)
  have upd: "cs[i := r] = take i cs @ r # drop (Suc i) cs" using assms(2) by (simp add: upd_conv_take_nth_drop)
  have "distinct (take i cs @ cs ! i # drop (Suc i) cs)" using children_distinct [OF assms(1)] cs by simp
  then have "cs ! i \<notin> set (cs[i := r])" using xa(2) by (simp add: upd)
  moreover have "set (cs[i := r]) \<subseteq> insert r (set cs)" by (rule set_update_subset_insert)
  ultimately have "set_tree (Node c (cs ! i) Leaf) \<inter> insert a (set (cs[i := r])) = {}" using assms(7) xa(1) by auto
  moreover have "children st1 a (cs[i := r])" using st1(2) by (simp add: upd)
  ultimately have "children (released (Node c (cs ! i) Leaf) st1) a (cs[i := r])" using children_released by blast
  then show ?thesis using st1(4) get st1(1) del by (auto simp: cJSON_ReplaceItemInArray_def)
qed

section \<open>Members of objects\<close>

text \<open>The search finds the first member whose name matches.\<close>

lemma find_sibling_dll:
  assumes "dll (js_nodes st) prv p cs None"
    and "\<And>c. c \<in> set cs \<Longrightarrow> \<exists>n. js_nodes st c = Some n \<and> name_matches (jn_string n) name b st = Some (hit c)"
  shows "find_sibling p name b st = Some (find hit cs)"
  using assms
proof (induction cs arbitrary: prv p)
  case Nil
  then show ?case by (subst find_sibling.simps) simp
next
  case (Cons c cs)
  then obtain n where n: "p = Some c" "js_nodes st c = Some n" "dll (js_nodes st) (Some c) (jn_next n) cs None" by auto
  moreover have "name_matches (jn_string n) name b st = Some (hit c)" using Cons.prems(2) [of c] n(2) by simp
  moreover have "find_sibling (jn_next n) name b st = Some (find hit cs)" using Cons.IH [OF n(3)] Cons.prems(2) by simp
  ultimately show ?case by (subst find_sibling.simps) simp
qed

text \<open>
  Adding with a copied name clears the mark of a constant name even when the copy fails: an item whose
  name is constant then loses the mark, although it keeps that name.
\<close>

lemma add_to_object_clears_const:
  assumes "js_nodes st x = Some n" "js_strs st s = Some t" "js_mem st = False # m"
  shows "cJSON_AddItemToObject ob (Some s) (Some x) st
    = Some (st\<lparr>js_mem := m, js_nodes := (js_nodes st)(x \<mapsto> n\<lparr>jn_type := jn_type n AND NOT cJSON_StringIsConst\<rparr>)\<rparr>)"
  using assms by (simp add: cJSON_AddItemToObject_def strdup_ptr_def cJSON_AddItemToObjectCS_def upd_node_def)

section \<open>Witnesses\<close>

definition ex_node :: "addr option \<Rightarrow> addr option \<Rightarrow> addr option \<Rightarrow> u32 \<Rightarrow> addr option \<Rightarrow> unit jnode" where
  "ex_node nx pv ch t s = \<lparr>jn_next = nx, jn_prev = pv, jn_child = ch, jn_type = t, jn_valuestring = s, jn_valueint = 0, jn_valuedouble = (), jn_string = None\<rparr>"

text \<open>An array (item 1) with a string (item 2) and an empty array (item 3), and a detached item 4.\<close>

definition ex_state :: "unit jstate" where
  "ex_state = \<lparr>js_nodes = [1 \<mapsto> ex_node None None (Some 2) 32 None, 2 \<mapsto> ex_node (Some 3) None None 16 (Some 9),
       3 \<mapsto> ex_node None (Some 2) None 32 None, 4 \<mapsto> ex_node None None None 4 None],
     js_strs = [9 \<mapsto> ''x''], js_fresh = 10, js_mem = []\<rparr>"

lemma ex_children: "children ex_state 1 [2, 3]"
  by (simp add: children_def ex_state_def ex_node_def)

lemma ex_detached: "detached ex_state 4"
  by (simp add: detached_def ex_state_def ex_node_def)

theorem cjson_insert_correct_witness:
  "\<exists>st'. cJSON_InsertItemInArray (Some 1) 1 (Some 4) ex_state = Some st' \<and> children st' 1 [2, 4, 3]"
  using cjson_insert_correct [OF ex_children ex_detached, of 1] by auto

theorem cjson_detach_reinsert_witness:
  "\<exists>st'. cJSON_DetachItemFromArray (Some 1) 0 ex_state = Some (Some 2, st') \<and> cJSON_InsertItemInArray (Some 1) 0 (Some 2) st' = Some ex_state"
  using cjson_detach_reinsert [OF ex_children, of 0] by auto

lemma ex_owned_tree: "owned_tree ex_state (Some 1) (Node (Node Leaf 2 (Node Leaf 3 Leaf)) 1 Leaf)"
  by (simp add: owned_tree_def ex_state_def ex_node_def owned_child_def owned_strings_def is_reference_def string_is_const_def cjson_types strings_at_def)

theorem cjson_delete_correct_witness:
  "\<exists>st'. cJSON_Delete (Some 1) ex_state = Some st' \<and> dom (js_nodes st') = {4} \<and> dom (js_strs st') = {}"
  using cjson_delete_correct [OF ex_owned_tree]
  by (auto simp: ex_state_def ex_node_def owned_strings_def is_reference_def string_is_const_def cjson_types strings_at_def)

lemma ex_owned_item: "owned_item ex_state 2 Leaf"
  by (simp add: owned_item_def ex_state_def ex_node_def owned_child_def owned_strings_def is_reference_def string_is_const_def cjson_types strings_at_def)

theorem cjson_replace_correct_witness:
  "\<exists>st'. cJSON_ReplaceItemInArray (Some 1) 0 (Some 4) ex_state = Some st' \<and> children st' 1 [4, 3]"
  using cjson_replace_correct [OF ex_children _ ex_detached _ _, of 0 Leaf] ex_owned_item by auto

end
