(* ===== verification/Dev_List.thy ===== *)
theory Dev_List
  imports Linked_Heap
begin

text \<open>
  The list of devices of \<open>20180208/list.c\<close> and \<open>list.h\<close>: nodes in a heap, each pointing to a device entry
  in a block of its own. Reading through NULL or a freed pointer has no value; neither has a failed
  allocation, which the code does not check.
\<close>

section \<open>Nodes and entries\<close>

text \<open>The byte arrays of an entry are strings of 17 and 5 characters.\<close>

record dev_info =
  dev_id :: string
  short_addr :: string
  dev_flag :: u8
  dev_other :: u8

record dev_node =
  ln_data :: "addr option"
  ln_next :: "addr option"

record dev_sys =
  dl_nodes :: "dev_node heap"
  dl_data :: "dev_info heap"
  dl_fresh :: addr
  dl_mem :: mem

text \<open>A \<open>list_t\<close> is its head pointer; the functions that change it return the new one.\<close>

type_synonym list_t = "addr option"

definition list_init :: "list_t" where
  "list_init = None"

definition upd_next :: "addr \<Rightarrow> addr option \<Rightarrow> dev_sys \<Rightarrow> dev_sys option" where
  "upd_next a p st = do { n \<leftarrow> dl_nodes st a; Some (st\<lparr>dl_nodes := (dl_nodes st)(a \<mapsto> n\<lparr>ln_next := p\<rparr>)\<rparr>) }"

text \<open>\<open>dev_new_node\<close> is \<open>new_node\<close>: both blocks are written without a check of the allocations.\<close>

definition dev_new_node :: "dev_info \<Rightarrow> dev_sys \<Rightarrow> (addr \<times> dev_sys) option" where
  "dev_new_node d st =
     (case malloc_ok (dl_mem st) of (ok1, m) \<Rightarrow>
      case malloc_ok m of (ok2, m) \<Rightarrow>
        if ok1 \<and> ok2
        then (let a = dl_fresh st; b = a + 1 in
          Some (a, st\<lparr>dl_nodes := (dl_nodes st)(a \<mapsto> \<lparr>ln_data = Some b, ln_next = None\<rparr>),
                      dl_data := (dl_data st)(b \<mapsto> d), dl_fresh := a + 2, dl_mem := m\<rparr>))
        else None)"

definition free_data :: "addr option \<Rightarrow> dev_sys \<Rightarrow> dev_sys option" where
  "free_data p st = do { b \<leftarrow> p; _ \<leftarrow> dl_data st b; Some (st\<lparr>dl_data := (dl_data st)(b := None)\<rparr>) }"

definition free_dev_node :: "addr \<Rightarrow> dev_sys \<Rightarrow> dev_sys option" where
  "free_dev_node a st = do { _ \<leftarrow> dl_nodes st a; Some (st\<lparr>dl_nodes := (dl_nodes st)(a := None)\<rparr>) }"

section \<open>Walking\<close>

partial_function (option) len_loop :: "addr option \<Rightarrow> int \<Rightarrow> dev_sys \<Rightarrow> int option" where
  "len_loop p i st = (case p of None \<Rightarrow> Some i | Some a \<Rightarrow> do { n \<leftarrow> dl_nodes st a; len_loop (ln_next n) (i + 1) st })"

definition list_len :: "list_t \<Rightarrow> dev_sys \<Rightarrow> int option" where
  "list_len head st = len_loop head 0 st"

partial_function (option) index_by_node_loop :: "addr option \<Rightarrow> addr option \<Rightarrow> int \<Rightarrow> dev_sys \<Rightarrow> int option" where
  "index_by_node_loop t p i st =
     (if t = p then Some i else do { a \<leftarrow> t; n \<leftarrow> dl_nodes st a; index_by_node_loop (ln_next n) p (i + 1) st })"

definition get_index_by_node :: "list_t \<Rightarrow> addr option \<Rightarrow> dev_sys \<Rightarrow> int option" where
  "get_index_by_node head p st = index_by_node_loop head p 0 st"

text \<open>The last node of a list, and the node in front of a given one.\<close>

partial_function (option) last_loop :: "addr \<Rightarrow> dev_sys \<Rightarrow> addr option" where
  "last_loop a st = do { n \<leftarrow> dl_nodes st a; (case ln_next n of None \<Rightarrow> Some a | Some b \<Rightarrow> last_loop b st) }"

partial_function (option) before_loop :: "addr \<Rightarrow> addr option \<Rightarrow> dev_sys \<Rightarrow> addr option" where
  "before_loop a t st = do { n \<leftarrow> dl_nodes st a; (if ln_next n = t then Some a else do { b \<leftarrow> ln_next n; before_loop b t st }) }"

text \<open>The node at a position, or NULL.\<close>

partial_function (option) at_loop :: "addr option \<Rightarrow> int \<Rightarrow> int \<Rightarrow> dev_sys \<Rightarrow> addr option option" where
  "at_loop p i pos st =
     (case p of
        None \<Rightarrow> Some None
      | Some a \<Rightarrow> if i = pos then Some (Some a) else do { n \<leftarrow> dl_nodes st a; at_loop (ln_next n) (i + 1) pos st })"

section \<open>Adding and removing\<close>

definition list_append :: "list_t \<Rightarrow> dev_info \<Rightarrow> dev_sys \<Rightarrow> (list_t \<times> dev_sys) option" where
  "list_append head d st = do {
     (node, st) \<leftarrow> dev_new_node d st;
     (case head of
        None \<Rightarrow> Some (Some node, st)
      | Some h \<Rightarrow> do { l \<leftarrow> last_loop h st; st \<leftarrow> upd_next l (Some node) st; Some (head, st) })
   }"

partial_function (option) second_last_loop :: "addr \<Rightarrow> dev_sys \<Rightarrow> addr option" where
  "second_last_loop a st = do {
     n \<leftarrow> dl_nodes st a;
     b \<leftarrow> ln_next n;
     m \<leftarrow> dl_nodes st b;
     (if ln_next m = None then Some a else second_last_loop b st)
   }"

definition list_pop_tail :: "list_t \<Rightarrow> dev_sys \<Rightarrow> (int \<times> list_t \<times> dev_sys) option" where
  "list_pop_tail head st =
     (case head of
        None \<Rightarrow> Some (0, head, st)
      | Some h \<Rightarrow> do {
          n \<leftarrow> dl_nodes st h;
          (if ln_next n = None then do {
             st \<leftarrow> free_data (ln_data n) st;
             st \<leftarrow> free_dev_node h st;
             Some (1, None, st)
           }
           else do {
             a \<leftarrow> second_last_loop h st;
             m \<leftarrow> dl_nodes st a;
             b \<leftarrow> ln_next m;
             k \<leftarrow> dl_nodes st b;
             st \<leftarrow> free_data (ln_data k) st;
             st \<leftarrow> free_dev_node b st;
             st \<leftarrow> upd_next a None st;
             Some (1, head, st)
           })
        })"

definition list_pop :: "list_t \<Rightarrow> int \<Rightarrow> dev_sys \<Rightarrow> (int \<times> list_t \<times> dev_sys) option" where
  "list_pop head pos st =
     (case head of
        None \<Rightarrow> Some (0, head, st)
      | Some h \<Rightarrow> do {
          temp \<leftarrow> at_loop head 0 pos st;
          (case temp of
             None \<Rightarrow> Some (0, head, st)
           | Some t \<Rightarrow>
               (if t = h then do {
                  n \<leftarrow> dl_nodes st h;
                  st \<leftarrow> free_dev_node h st;
                  Some (1, ln_next n, st)
                }
                else do {
                  a \<leftarrow> before_loop h temp st;
                  n \<leftarrow> dl_nodes st t;
                  st \<leftarrow> upd_next a (ln_next n) st;
                  st \<leftarrow> free_data (ln_data n) st;
                  st \<leftarrow> free_dev_node t st;
                  Some (1, head, st)
                }))
        })"

section \<open>Access\<close>

definition list_get :: "list_t \<Rightarrow> int \<Rightarrow> dev_sys \<Rightarrow> addr option option option" where
  "list_get head pos st = do {
     p \<leftarrow> at_loop head 0 pos st;
     (case p of None \<Rightarrow> Some None | Some a \<Rightarrow> do { n \<leftarrow> dl_nodes st a; Some (Some (ln_data n)) })
   }"

definition list_set :: "list_t \<Rightarrow> int \<Rightarrow> addr option \<Rightarrow> dev_sys \<Rightarrow> (int \<times> dev_sys) option" where
  "list_set head pos data st = do {
     p \<leftarrow> at_loop head 0 pos st;
     (case p of
        None \<Rightarrow> Some (0, st)
      | Some a \<Rightarrow> do { n \<leftarrow> dl_nodes st a; Some (1, st\<lparr>dl_nodes := (dl_nodes st)(a \<mapsto> n\<lparr>ln_data := data\<rparr>)\<rparr>) })
   }"

partial_function (option) index_loop :: "(dev_node \<Rightarrow> bool option) \<Rightarrow> addr option \<Rightarrow> int \<Rightarrow> dev_sys \<Rightarrow> int option" where
  "index_loop P p i st =
     (case p of
        None \<Rightarrow> Some (-1)
      | Some a \<Rightarrow> do { n \<leftarrow> dl_nodes st a; hit \<leftarrow> P n; (if hit then Some i else index_loop P (ln_next n) (i + 1) st) })"

definition list_index :: "list_t \<Rightarrow> addr option \<Rightarrow> dev_sys \<Rightarrow> int option" where
  "list_index head data st = index_loop (\<lambda>n. Some (ln_data n = data)) head 0 st"

text \<open>An identifier that is not terminated inside its array is read beyond it.\<close>

definition id_string :: "string \<Rightarrow> string option" where
  "id_string s = (if CHR 0x00 \<in> set s then Some (cstring s) else None)"

definition list_index_by_devID :: "list_t \<Rightarrow> dev_info \<Rightarrow> dev_sys \<Rightarrow> int option" where
  "list_index_by_devID head data st = index_loop (\<lambda>n. do {
     b \<leftarrow> ln_data n;
     d \<leftarrow> dl_data st b;
     s \<leftarrow> id_string (dev_id d);
     t \<leftarrow> id_string (dev_id data);
     Some (s = t)
   }) head 0 st"

text \<open>
  The iterators keep their position in a static variable: \<open>list_iter\<close> a pointer and a flag, \<open>list_cycle\<close> a
  pointer. The result is the data pointer and the index, if the call returns 1.
\<close>

definition list_iter :: "list_t \<Rightarrow> addr option \<times> bool \<Rightarrow> dev_sys \<Rightarrow> ((addr option \<times> int) option \<times> addr option \<times> bool) option" where
  "list_iter head s st =
     (case (if snd s then fst s else head) of
        None \<Rightarrow> Some (None, None, False)
      | Some a \<Rightarrow> do {
          n \<leftarrow> dl_nodes st a;
          i \<leftarrow> get_index_by_node head (Some a) st;
          Some (Some (ln_data n, i), ln_next n, True)
        })"

definition list_cycle :: "list_t \<Rightarrow> addr option \<Rightarrow> dev_sys \<Rightarrow> ((addr option \<times> int) \<times> addr option) option" where
  "list_cycle head p st = do {
     a \<leftarrow> (if p = None then head else p);
     n \<leftarrow> dl_nodes st a;
     i \<leftarrow> get_index_by_node head (Some a) st;
     Some ((ln_data n, i), ln_next n)
   }"

section \<open>Rearranging\<close>

definition list_extend :: "list_t \<Rightarrow> list_t \<Rightarrow> dev_sys \<Rightarrow> (list_t \<times> dev_sys) option" where
  "list_extend head_a head_b st =
     (case head_a of
        None \<Rightarrow> Some (head_b, st)
      | Some h \<Rightarrow> do { t \<leftarrow> last_loop h st; st \<leftarrow> upd_next t head_b st; Some (head_a, st) })"

text \<open>The nodes at the two positions and in front of them, as the loop of \<open>list_swap\<close> collects them.\<close>

record swap_vars =
  sw_a_pre :: "addr option"
  sw_a :: "addr option"
  sw_b_pre :: "addr option"
  sw_b :: "addr option"

definition swap_visit :: "int \<Rightarrow> int \<Rightarrow> int \<Rightarrow> addr \<Rightarrow> addr option \<Rightarrow> swap_vars \<Rightarrow> swap_vars" where
  "swap_visit pos_a pos_b i t nx v =
     (let v = (if i = pos_a - 1 then v\<lparr>sw_a_pre := Some t, sw_a := nx\<rparr> else v)
      in if i = pos_b - 1 then v\<lparr>sw_b_pre := Some t, sw_b := nx\<rparr> else v)"

partial_function (option) swap_loop :: "int \<Rightarrow> int \<Rightarrow> addr option \<Rightarrow> int \<Rightarrow> swap_vars \<Rightarrow> dev_sys \<Rightarrow> swap_vars option" where
  "swap_loop pos_a pos_b p i v st =
     (case p of
        None \<Rightarrow> Some v
      | Some t \<Rightarrow> do {
          n \<leftarrow> dl_nodes st t;
          swap_loop pos_a pos_b (ln_next n) (i + 1) (swap_visit pos_a pos_b i t (ln_next n) v) st
        })"

text \<open>The exchange of two different nodes \<open>a\<close> and \<open>b\<close>.\<close>

definition swap_links :: "list_t \<Rightarrow> swap_vars \<Rightarrow> addr \<Rightarrow> addr \<Rightarrow> dev_sys \<Rightarrow> (list_t \<times> dev_sys) option" where
  "swap_links head v a b st = do {
     (head', st) \<leftarrow>
       (if Some a = head then do { p \<leftarrow> sw_b_pre v; st \<leftarrow> upd_next p (Some a) st; Some (Some b, st) }
        else if Some b = head then do { p \<leftarrow> sw_a_pre v; st \<leftarrow> upd_next p (Some b) st; Some (Some a, st) }
        else do {
          p \<leftarrow> sw_a_pre v; st \<leftarrow> upd_next p (Some b) st;
          q \<leftarrow> sw_b_pre v; st \<leftarrow> upd_next q (Some a) st;
          Some (head, st)
        });
     na \<leftarrow> dl_nodes st a;
     nb \<leftarrow> dl_nodes st b;
     st \<leftarrow> upd_next a (ln_next nb) st;
     st \<leftarrow> upd_next b (ln_next na) st;
     Some (head', st)
   }"

definition list_swap :: "list_t \<Rightarrow> int \<Rightarrow> int \<Rightarrow> dev_sys \<Rightarrow> (int \<times> list_t \<times> dev_sys) option" where
  "list_swap head pos_a pos_b st = do {
     v \<leftarrow> swap_loop pos_a pos_b head 0
            \<lparr>sw_a_pre = None, sw_a = if pos_a = 0 then head else None, sw_b_pre = None, sw_b = if pos_b = 0 then head else None\<rparr> st;
     (case (sw_a v, sw_b v) of
        (Some a, Some b) \<Rightarrow>
          (if a = b then Some (0, head, st)
           else do { (head, st) \<leftarrow> swap_links head v a b st; Some (1, head, st) })
      | _ \<Rightarrow> Some (0, head, st))
   }"

partial_function (option) reverse_loop :: "addr option \<Rightarrow> addr option \<Rightarrow> dev_sys \<Rightarrow> (list_t \<times> dev_sys) option" where
  "reverse_loop q m st =
     (case m of
        None \<Rightarrow> Some (q, st)
      | Some a \<Rightarrow> do { n \<leftarrow> dl_nodes st a; st \<leftarrow> upd_next a q st; reverse_loop (Some a) (ln_next n) st })"

definition list_reverse :: "list_t \<Rightarrow> dev_sys \<Rightarrow> (list_t \<times> dev_sys) option" where
  "list_reverse head st = reverse_loop None head st"

text \<open>
  \<open>list_from_array\<close> reads entries \<open>0\<close> to \<open>len - 1\<close> of an array (entry 0 in any case). It returns 0 for a list
  that is not empty and no value otherwise.
\<close>

fun from_array_loop :: "dev_info list \<Rightarrow> nat \<Rightarrow> nat \<Rightarrow> addr \<Rightarrow> dev_sys \<Rightarrow> dev_sys option" where
  "from_array_loop arr i 0 t st = Some st"
| "from_array_loop arr i (Suc k) t st = do {
     d \<leftarrow> nth_opt arr i;
     (node, st) \<leftarrow> dev_new_node d st;
     st \<leftarrow> upd_next t (Some node) st;
     from_array_loop arr (Suc i) k node st
   }"

definition list_from_array :: "list_t \<Rightarrow> dev_info list \<Rightarrow> int \<Rightarrow> dev_sys \<Rightarrow> (int option \<times> list_t \<times> dev_sys) option" where
  "list_from_array head arr len st =
     (if head \<noteq> None then Some (Some 0, head, st)
      else do {
        d \<leftarrow> nth_opt arr 0;
        (node, st) \<leftarrow> dev_new_node d st;
        st \<leftarrow> from_array_loop arr 1 (nat (len - 1)) node st;
        Some (None, Some node, st)
      })"

declare len_loop.simps [code] index_by_node_loop.simps [code] last_loop.simps [code] before_loop.simps [code]
  at_loop.simps [code] second_last_loop.simps [code] index_loop.simps [code] swap_loop.simps [code] reverse_loop.simps [code]

interpretation dev: linked_nodes ln_next "\<lambda>p n. n\<lparr>ln_next := p\<rparr>"
  by unfold_locales simp

section \<open>The loops along a chain\<close>

abbreviation dev_chain :: "dev_sys \<Rightarrow> addr option \<Rightarrow> addr list \<Rightarrow> bool" where
  "dev_chain st p as \<equiv> chain ln_next (dl_nodes st) p as None"

lemma len_loop_chain: "dev_chain st p as \<Longrightarrow> len_loop p i st = Some (i + int (length as))"
proof (induction as arbitrary: p i)
  case Nil
  then show ?case by (subst len_loop.simps) simp
next
  case (Cons a as)
  then obtain n where "p = Some a" "dl_nodes st a = Some n" "dev_chain st (ln_next n) as" by auto
  then show ?case using Cons.IH by (subst len_loop.simps) simp
qed

lemma at_loop_chain:
  "dev_chain st p as \<Longrightarrow> at_loop p i pos st = Some (if i \<le> pos \<and> pos < i + int (length as) then Some (as ! nat (pos - i)) else None)"
proof (induction as arbitrary: p i)
  case Nil
  then show ?case by (subst at_loop.simps) simp
next
  case (Cons a as)
  then obtain n where n: "p = Some a" "dl_nodes st a = Some n" "dev_chain st (ln_next n) as" by auto
  have "nat (pos - i) = Suc (nat (pos - (i + 1)))" if "i < pos" using that by simp
  then show ?case using n Cons.IH [OF n(3), of "i + 1"] by (subst at_loop.simps) auto
qed

lemma last_loop_chain: "dev_chain st (Some a) (a # as) \<Longrightarrow> last_loop a st = Some (last (a # as))"
proof (induction as arbitrary: a)
  case Nil
  then show ?case by (subst last_loop.simps) auto
next
  case (Cons b as)
  then obtain n where "dl_nodes st a = Some n" "ln_next n = Some b" "dev_chain st (Some b) (b # as)" by auto
  then show ?case using Cons.IH by (subst last_loop.simps) simp
qed

lemma before_loop_chain: "dev_chain st (Some a) (xs @ b # t # ys) \<Longrightarrow> before_loop a (Some t) st = Some b"
proof (induction xs arbitrary: a)
  case Nil
  then show ?case by (subst before_loop.simps) auto
next
  case (Cons x xs)
  then obtain n where n: "a = x" "dl_nodes st a = Some n" "dev_chain st (ln_next n) (xs @ b # t # ys)" by auto
  then obtain c where c: "ln_next n = Some c" "c = hd (xs @ [b])" by (cases xs) auto
  have "distinct (xs @ b # t # ys)" using chain_distinct [OF n(3)] .
  then have "c \<noteq> t" using c(2) by (cases xs) auto
  then show ?case using n c Cons.IH [of c] by (subst before_loop.simps) simp
qed

lemma second_last_loop_chain: "dev_chain st (Some a) (xs @ [b, c]) \<Longrightarrow> second_last_loop a st = Some b"
proof (induction xs arbitrary: a)
  case Nil
  then show ?case by (subst second_last_loop.simps) auto
next
  case (Cons x xs)
  then obtain n where n: "a = x" "dl_nodes st a = Some n" "dev_chain st (ln_next n) (xs @ [b, c])" by auto
  then obtain y m where "ln_next n = Some y" "dl_nodes st y = Some m" "ln_next m \<noteq> None" by (cases xs; cases "tl xs") auto
  then show ?case using n Cons.IH [of y] by (subst second_last_loop.simps) auto
qed

lemma index_loop_chain:
  assumes "dev_chain st p as" "\<And>a. a \<in> set as \<Longrightarrow> \<exists>n. dl_nodes st a = Some n \<and> P n = Some (hit a)"
  shows "index_loop P p i st = Some (if \<exists>a \<in> set as. hit a then i + int (length (takeWhile (\<lambda>a. \<not> hit a) as)) else -1)"
  using assms
proof (induction as arbitrary: p i)
  case Nil
  then show ?case by (subst index_loop.simps) simp
next
  case (Cons a as)
  then obtain n where n: "p = Some a" "dl_nodes st a = Some n" "dev_chain st (ln_next n) as" by auto
  have "P n = Some (hit a)" using Cons.prems(2) [of a] n(2) by simp
  then show ?case using n Cons.IH [OF n(3), of "i + 1"] Cons.prems(2)
    by (subst index_loop.simps) auto
qed

section \<open>The list that a heap holds\<close>

text \<open>An entry of the list: the address of its node, of its data, and the data.\<close>

type_synonym dev_entry = "addr \<times> addr \<times> dev_info"

abbreviation entry_dev :: "dev_entry \<Rightarrow> dev_info" where
  "entry_dev e \<equiv> snd (snd e)"

definition entry_ok :: "dev_sys \<Rightarrow> dev_entry \<Rightarrow> bool" where
  "entry_ok st e \<longleftrightarrow> (\<exists>n. dl_nodes st (fst e) = Some n \<and> ln_data n = Some (fst (snd e))) \<and> dl_data st (fst (snd e)) = Some (entry_dev e)"

definition fresh_ok :: "dev_sys \<Rightarrow> bool" where
  "fresh_ok st \<longleftrightarrow> (\<forall>a \<ge> dl_fresh st. dl_nodes st a = None \<and> dl_data st a = None)"

definition entries_ok :: "dev_sys \<Rightarrow> dev_entry list \<Rightarrow> bool" where
  "entries_ok st es \<longleftrightarrow> (\<forall>e \<in> set es. entry_ok st e) \<and> distinct (map (fst \<circ> snd) es) \<and> fresh_ok st"

definition holds :: "dev_sys \<Rightarrow> list_t \<Rightarrow> dev_entry list \<Rightarrow> bool" where
  "holds st head es \<longleftrightarrow> dev_chain st head (map fst es) \<and> entries_ok st es"

lemma holdsD:
  assumes "holds st head es"
  shows "dev_chain st head (map fst es)" "\<And>e. e \<in> set es \<Longrightarrow> entry_ok st e" "distinct (map (fst \<circ> snd) es)" "fresh_ok st" "distinct (map fst es)"
    "entries_ok st es"
  using assms chain_distinct by (auto simp: holds_def entries_ok_def)

text \<open>Rearranging nodes keeps the entries.\<close>

definition only_links :: "dev_sys \<Rightarrow> dev_sys \<Rightarrow> bool" where
  "only_links st st' \<longleftrightarrow> dl_data st' = dl_data st \<and> dl_fresh st' = dl_fresh st \<and> dl_mem st' = dl_mem st \<and> (\<forall>a. map_option ln_data (dl_nodes st' a) = map_option ln_data (dl_nodes st a))"

lemma only_links_refl: "only_links st st"
  by (simp add: only_links_def)

lemma upd_next_only_links: "only_links st st1 \<Longrightarrow> upd_next a p st1 = Some st2 \<Longrightarrow> only_links st st2"
  by (auto simp: only_links_def upd_next_def split: bind_splits) (metis option.simps(9))

lemma only_links_entries:
  assumes "entries_ok st es" "only_links st st'" "set es' \<subseteq> set es" "distinct (map (fst \<circ> snd) es')"
  shows "entries_ok st' es'"
proof -
  have data: "dl_data st' = dl_data st" "dl_fresh st' = dl_fresh st" using assms(2) by (auto simp: only_links_def)
  have same: "map_option ln_data (dl_nodes st' a) = map_option ln_data (dl_nodes st a)" for a using assms(2) by (simp add: only_links_def)
  have "entry_ok st' e" if "e \<in> set es'" for e
  proof -
    have "entry_ok st e" using that assms(1,3) by (auto simp: entries_ok_def)
    then obtain n where n: "dl_nodes st (fst e) = Some n" "ln_data n = Some (fst (snd e))" "dl_data st (fst (snd e)) = Some (entry_dev e)"
      by (auto simp: entry_ok_def)
    then obtain n' where "dl_nodes st' (fst e) = Some n'" "ln_data n' = ln_data n" using same [of "fst e"] by auto
    then show ?thesis using n data by (simp add: entry_ok_def)
  qed
  moreover have "fresh_ok st'"
  proof -
    have "dl_nodes st' a = None \<longleftrightarrow> dl_nodes st a = None" for a using same [of a] by (cases "dl_nodes st' a"; cases "dl_nodes st a") auto
    then show ?thesis using assms(1) data by (simp add: fresh_ok_def entries_ok_def)
  qed
  ultimately show ?thesis using assms(4) by (simp add: entries_ok_def)
qed

section \<open>Adding and removing\<close>

lemma dev_new_node_ok:
  assumes "fresh_ok st" "all_ok (dl_mem st)"
  shows "\<exists>a b st'. dev_new_node d st = Some (a, st') \<and> dl_nodes st a = None \<and> dl_data st b = None \<and> all_ok (dl_mem st') \<and> fresh_ok st'
    \<and> dl_nodes st' = (dl_nodes st)(a \<mapsto> \<lparr>ln_data = Some b, ln_next = None\<rparr>) \<and> dl_data st' = (dl_data st)(b \<mapsto> d)"
proof -
  obtain m1 where m1: "malloc_ok (dl_mem st) = (True, m1)" "all_ok m1" using malloc_all_ok [OF assms(2)] by blast
  obtain m2 where m2: "malloc_ok m1 = (True, m2)" "all_ok m2" using malloc_all_ok [OF m1(2)] by blast
  show ?thesis using assms(1) m1 m2
    by (intro exI [of _ "dl_fresh st"] exI [of _ "Suc (dl_fresh st)"]) (simp add: dev_new_node_def Let_def fresh_ok_def)
qed

lemma append_holds:
  assumes "holds st head es" "all_ok (dl_mem st)"
  shows "\<exists>head' st' e. list_append head d st = Some (head', st') \<and> holds st' head' (es @ [e]) \<and> entry_dev e = d \<and> all_ok (dl_mem st')"
proof -
  note h = holdsD [OF assms(1)]
  obtain a b st1 where st1: "dev_new_node d st = Some (a, st1)" "dl_nodes st a = None" "dl_data st b = None" "all_ok (dl_mem st1)" "fresh_ok st1"
    "dl_nodes st1 = (dl_nodes st)(a \<mapsto> \<lparr>ln_data = Some b, ln_next = None\<rparr>)" "dl_data st1 = (dl_data st)(b \<mapsto> d)"
    using dev_new_node_ok [OF h(4) assms(2)] by blast
  let ?e = "(a, b, d)"
  have "fst e \<noteq> a \<and> fst (snd e) \<noteq> b" if "e \<in> set es" for e using h(2) [OF that] st1(2,3) by (auto simp: entry_ok_def)
  then have new: "a \<notin> set (map fst es)" "b \<notin> set (map (fst \<circ> snd) es)" by auto
  have ch1: "chain ln_next (dl_nodes st1) head (map fst es) None" using h(1) new(1) by (simp add: st1(6))
  have "entry_ok st1 e" if "e \<in> set es" for e using h(2) [OF that] st1(2,3) by (auto simp: entry_ok_def st1(6,7))
  then have ok: "entries_ok st1 (es @ [?e])"
    using h(3) new(2) st1(5) by (auto simp: entries_ok_def) (simp add: entry_ok_def st1(6,7))
  show ?thesis
  proof (cases head)
    case None
    then have "es = []" using h(1) by (cases es) auto
    then have "holds st1 (Some a) (es @ [?e])" using ok st1(6) by (simp add: holds_def)
    then show ?thesis using None st1(1,4) by (auto simp: list_append_def)
  next
    case (Some x)
    then obtain as where as: "map fst es = x # as" using h(1) by (cases "map fst es") auto
    obtain ys l where l: "map fst es = ys @ [l]" using as by (metis list.distinct(1) rev_exhaust)
    have "last_loop x st1 = Some l" using last_loop_chain [of st1 x as] ch1 as Some l by (metis last_snoc)
    moreover obtain nl where nl: "dl_nodes st1 l = Some nl" using chain_in_heap [OF ch1, of l] l by auto
    define st2 where "st2 = st1\<lparr>dl_nodes := (dl_nodes st1)(l \<mapsto> nl\<lparr>ln_next := Some a\<rparr>)\<rparr>"
    moreover have u: "upd_next l (Some a) st1 = Some st2" using nl by (simp add: upd_next_def st2_def)
    ultimately have run: "list_append head d st = Some (head, st2)" using Some st1(1) by (simp add: list_append_def)
    have "l \<notin> set ys" "a \<noteq> l" "a \<notin> set ys" using l h(5) new(1) by auto
    then have "chain ln_next (dl_nodes st2) head (map fst es @ [a]) None"
      using dev.chain_relink [of "dl_nodes st1" head ys l None nl "Some a"] ch1 l nl st1(6) by (auto simp: st2_def chain_append)
    moreover have "only_links st1 st2" by (rule upd_next_only_links [OF only_links_refl u])
    then have "entries_ok st2 (es @ [?e])" by (rule only_links_entries [OF ok]) (use ok in \<open>auto simp: entries_ok_def\<close>)
    ultimately have "holds st2 head (es @ [?e])" by (simp add: holds_def)
    moreover have "all_ok (dl_mem st2)" using st1(4) by (simp add: st2_def)
    ultimately show ?thesis using run by (intro exI [of _ head] exI [of _ st2] exI [of _ ?e]) simp
  qed
qed

lemma remove_entry:
  assumes "entries_ok st (xs @ e # ys)" "distinct (map fst (xs @ e # ys))"
    and "dl_nodes st' = (dl_nodes st)(fst e := None)" "dl_data st' = dl_data st \<or> dl_data st' = (dl_data st)(fst (snd e) := None)" "dl_fresh st' = dl_fresh st"
  shows "entries_ok st' (xs @ ys)"
proof -
  have "entry_ok st' f" if "f \<in> set (xs @ ys)" for f
  proof -
    have "fst f \<in> fst ` set (xs @ ys)" using that by (rule imageI)
    moreover have "fst e \<notin> fst ` set (xs @ ys)" using assms(2) by (simp add: image_Un)
    ultimately have "fst f \<noteq> fst e" by metis
    moreover have "fst (snd f) \<noteq> fst (snd e)" using that assms(1) by (auto simp: entries_ok_def image_iff)
    moreover have "entry_ok st f" using that assms(1) by (auto simp: entries_ok_def)
    ultimately show ?thesis using assms(3,4) by (auto simp: entry_ok_def)
  qed
  then show ?thesis using assms by (auto simp: entries_ok_def fresh_ok_def)
qed

lemma entry_nodes:
  "entry_ok st e \<Longrightarrow> \<exists>nx. dl_nodes st (fst e) = Some \<lparr>ln_data = Some (fst (snd e)), ln_next = nx\<rparr> \<and> dl_data st (fst (snd e)) = Some (entry_dev e)"
  unfolding entry_ok_def by (metis dev_node.surjective old.unit.exhaust)

text \<open>Unlinking a node behind another one and releasing it with its data.\<close>

lemma unlink_holds:
  assumes "holds st head (xs @ p # e # ys)"
  obtains n nx st1 st2 st' where "dl_nodes st (fst p) = Some n" "dl_nodes st (fst e) = Some \<lparr>ln_data = Some (fst (snd e)), ln_next = nx\<rparr>"
    "upd_next (fst p) nx st = Some st1" "free_data (Some (fst (snd e))) st1 = Some st2" "free_dev_node (fst e) st2 = Some st'"
    "holds st' head (xs @ p # ys)" "dl_mem st' = dl_mem st"
proof -
  note h = holdsD [OF assms]
  obtain n where n: "dl_nodes st (fst p) = Some n" using h(2) [of p] by (auto simp: entry_ok_def)
  obtain nx where nx: "dl_nodes st (fst e) = Some \<lparr>ln_data = Some (fst (snd e)), ln_next = nx\<rparr>" "dl_data st (fst (snd e)) = Some (entry_dev e)"
    using entry_nodes [OF h(2) [of e]] by auto
  define st1 where "st1 = st\<lparr>dl_nodes := (dl_nodes st)(fst p \<mapsto> n\<lparr>ln_next := nx\<rparr>)\<rparr>"
  define st3 where "st3 = st1\<lparr>dl_data := (dl_data st)(fst (snd e) := None)\<rparr>"
  define st2 where "st2 = st3\<lparr>dl_nodes := (dl_nodes st1)(fst e := None)\<rparr>"
  have u: "upd_next (fst p) nx st = Some st1" using n by (simp add: upd_next_def st1_def)
  have pe: "fst p \<noteq> fst e" using h(5) by auto
  have run: "free_data (Some (fst (snd e))) st1 = Some st3" "free_dev_node (fst e) st3 = Some st2"
    using nx pe by (simp_all add: free_data_def free_dev_node_def st1_def st2_def st3_def)
  have "chain ln_next (dl_nodes st2) head (map fst (xs @ p # ys)) None"
    using dev.chain_remove [of "dl_nodes st" head "map fst xs" "fst p" "fst e" "map fst ys" n "\<lparr>ln_data = Some (fst (snd e)), ln_next = nx\<rparr>"] h(1) n nx(1)
    by (simp add: st2_def st1_def st3_def)
  moreover have "entries_ok st1 (xs @ p # e # ys)"
    by (rule only_links_entries [OF h(6) upd_next_only_links [OF only_links_refl u]]) (use h(3) in auto)
  then have "entries_ok st2 ((xs @ [p]) @ ys)" by (intro remove_entry [of st1 "xs @ [p]" e ys]) (use h(5) in \<open>auto simp: st2_def st1_def st3_def\<close>)
  ultimately have "holds st2 head (xs @ p # ys)" by (simp add: holds_def)
  moreover have "dl_mem st2 = dl_mem st" by (simp add: st2_def st1_def st3_def)
  ultimately show thesis using that n nx(1) u run by blast
qed

lemma pop_tail_holds:
  assumes "holds st head es"
  shows "\<exists>head' st'. list_pop_tail head st = Some (if es = [] then 0 else 1, head', st') \<and> holds st' head' (butlast es) \<and> dl_mem st' = dl_mem st"
proof (cases es rule: rev_cases)
  case Nil
  then show ?thesis using assms holdsD(1) [OF assms] by (auto simp: list_pop_tail_def)
next
  case (snoc fs e)
  note h = holdsD [OF assms]
  show ?thesis
  proof (cases fs rule: rev_cases)
    case Nil
    obtain nx where nx: "dl_nodes st (fst e) = Some \<lparr>ln_data = Some (fst (snd e)), ln_next = nx\<rparr>" "dl_data st (fst (snd e)) = Some (entry_dev e)"
      using entry_nodes [OF h(2) [of e]] snoc by auto
    moreover have "head = Some (fst e)" using h(1) snoc Nil by auto
    moreover have "nx = None" using h(1) snoc Nil nx(1) by auto
    moreover define st' where "st' = st\<lparr>dl_data := (dl_data st)(fst (snd e) := None), dl_nodes := (dl_nodes st)(fst e := None)\<rparr>"
    ultimately have "list_pop_tail head st = Some (1, None, st')" using nx by (simp add: list_pop_tail_def free_data_def free_dev_node_def)
    moreover have "entries_ok st' ([] @ [])" by (rule remove_entry [of st "[]" e]) (use h(5,6) snoc Nil in \<open>auto simp: st'_def\<close>)
    ultimately show ?thesis using snoc Nil by (auto simp: holds_def st'_def)
  next
    case ps: (snoc gs q)
    then have es: "es = gs @ q # e # []" using snoc by simp
    obtain n nx st1 st2 st' where u: "dl_nodes st (fst q) = Some n" "dl_nodes st (fst e) = Some \<lparr>ln_data = Some (fst (snd e)), ln_next = nx\<rparr>"
      "upd_next (fst q) nx st = Some st1" "free_data (Some (fst (snd e))) st1 = Some st2" "free_dev_node (fst e) st2 = Some st'"
      "holds st' head (gs @ q # [])" "dl_mem st' = dl_mem st"
      using assms unfolding es by (rule unlink_holds)
    have ch: "dev_chain st head (map fst gs @ [fst q, fst e])" using h(1) es by simp
    then have nxt: "ln_next n = Some (fst e)" "nx = None" using u(1,2) by (auto simp: chain_append)
    obtain x xn where x: "head = Some x" "dl_nodes st x = Some xn" "ln_next xn \<noteq> None" using ch by (cases gs; cases "tl gs") auto
    have "second_last_loop x st = Some (fst q)" using second_last_loop_chain [of st x "map fst gs" "fst q" "fst e"] ch x(1) by simp
    moreover have "do { st \<leftarrow> free_data (Some (fst (snd e))) st; st \<leftarrow> free_dev_node (fst e) st; upd_next (fst q) None st } = Some st'"
      using u(3-5) nxt(2) u(1,2) h(5) es by (auto simp: upd_next_def free_data_def free_dev_node_def fun_upd_twist split: bind_splits)
    ultimately have "list_pop_tail head st = Some (1, head, st')"
      using x u(1,2) nxt by (auto simp: list_pop_tail_def split: bind_splits)
    then show ?thesis using u(6,7) es by (auto simp: butlast_append)
  qed
qed

lemma list_pop_inner:
  "at_loop (Some x) 0 pos st = Some (Some t) \<Longrightarrow> t \<noteq> x \<Longrightarrow> before_loop x (Some t) st = Some a \<Longrightarrow> dl_nodes st t = Some n
    \<Longrightarrow> upd_next a (ln_next n) st = Some st1 \<Longrightarrow> free_data (ln_data n) st1 = Some st2 \<Longrightarrow> free_dev_node t st2 = Some st'
    \<Longrightarrow> list_pop (Some x) pos st = Some (1, Some x, st')"
  by (simp add: list_pop_def)

lemma pop_holds:
  assumes "holds st head es"
  shows "\<exists>head' st'. list_pop head pos st = Some (if 0 \<le> pos \<and> pos < int (length es) then 1 else 0, head', st')
    \<and> holds st' head' (if 0 \<le> pos \<and> pos < int (length es) then take (nat pos) es @ drop (Suc (nat pos)) es else es) \<and> dl_mem st' = dl_mem st"
proof (cases "0 \<le> pos \<and> pos < int (length es)")
  case False
  note h = holdsD [OF assms]
  have "at_loop head 0 pos st = Some None" using at_loop_chain [OF h(1), of 0 pos] False by auto
  then have "list_pop head pos st = Some (0, head, st)" by (auto simp: list_pop_def split: option.splits)
  then show ?thesis using False assms by auto
next
  case True
  note h = holdsD [OF assms]
  define i where "i = nat pos"
  have i: "i < length es" "pos = int i" using True by (auto simp: i_def)
  have es: "es = take i es @ es ! i # drop (Suc i) es" using i(1) by (rule id_take_nth_drop)
  have at: "at_loop head 0 pos st = Some (Some (fst (es ! i)))" using at_loop_chain [OF h(1), of 0 pos] i by auto
  have "\<exists>head' st'. list_pop head pos st = Some (1, head', st') \<and> holds st' head' (take i es @ drop (Suc i) es) \<and> dl_mem st' = dl_mem st"
  proof (cases i)
    case 0
    then obtain e fs where e: "es = e # fs" using i(1) by (cases es) auto
    then obtain n where n: "head = Some (fst e)" "dl_nodes st (fst e) = Some n" "dev_chain st (ln_next n) (map fst fs)" using h(1) by auto
    define st' where "st' = st\<lparr>dl_nodes := (dl_nodes st)(fst e := None)\<rparr>"
    have "list_pop head pos st = Some (1, ln_next n, st')" using at n e 0 by (simp add: list_pop_def free_dev_node_def st'_def)
    moreover have "entries_ok st' ([] @ fs)" by (rule remove_entry [of st "[]" e]) (use h(5,6) e in \<open>auto simp: st'_def\<close>)
    moreover have "fst e \<notin> set (map fst fs)" using h(5) e by simp
    then have "dev_chain st' (ln_next n) (map fst fs)" using n(3) by (simp add: st'_def)
    ultimately show ?thesis using e 0 by (auto simp: holds_def st'_def)
  next
    case (Suc j)
    then have "take i es = take j es @ [es ! j]" using i(1) by (simp add: take_Suc_conv_app_nth)
    then have es2: "es = take j es @ es ! j # es ! i # drop (Suc i) es" using es by simp
    obtain n nx st1 st2 st' where u: "dl_nodes st (fst (es ! j)) = Some n" "dl_nodes st (fst (es ! i)) = Some \<lparr>ln_data = Some (fst (snd (es ! i))), ln_next = nx\<rparr>"
      "upd_next (fst (es ! j)) nx st = Some st1" "free_data (Some (fst (snd (es ! i)))) st1 = Some st2" "free_dev_node (fst (es ! i)) st2 = Some st'"
      "holds st' head (take j es @ es ! j # drop (Suc i) es)" "dl_mem st' = dl_mem st"
      using assms es2 by (metis unlink_holds)
    have "map fst es = map fst (take j es) @ fst (es ! j) # fst (es ! i) # map fst (drop (Suc i) es)" using arg_cong [OF es2, of "map fst"] by simp
    then have ch: "dev_chain st head (map fst (take j es) @ fst (es ! j) # fst (es ! i) # map fst (drop (Suc i) es))" using h(1) by simp
    then obtain x where x: "head = Some x" by (cases "take j es") auto
    have bef: "before_loop x (Some (fst (es ! i))) st = Some (fst (es ! j))" using before_loop_chain ch x by blast
    have "x = fst (es ! 0)" using h(1) x i(1) by (cases es) auto
    moreover have "map fst es ! i \<noteq> map fst es ! 0" using i(1) Suc by (subst nth_eq_iff_index_eq [OF h(5)]) auto
    moreover have "0 < length es" using i(1) by linarith
    then have "map fst es ! i = fst (es ! i)" "map fst es ! 0 = fst (es ! 0)" using i(1) by simp_all
    ultimately have "fst (es ! i) \<noteq> x" by simp
    then have "list_pop head pos st = Some (1, head, st')" using list_pop_inner [of x pos st] at x bef u(2-5) by simp
    then show ?thesis using u(6,7) \<open>take i es = take j es @ [es ! j]\<close> by auto
  qed
  then show ?thesis using True by (simp only: i_def [symmetric] if_True simp_thms)
qed

section \<open>Reversing and swapping\<close>

lemma reverse_loop_chain:
  assumes "dev_chain st q qs" "dev_chain st m ms" "set qs \<inter> set ms = {}"
  shows "\<exists>head st'. reverse_loop q m st = Some (head, st') \<and> dev_chain st' head (rev ms @ qs) \<and> only_links st st'"
  using assms
proof (induction ms arbitrary: q qs m st)
  case Nil
  then show ?case by (subst reverse_loop.simps) (auto simp: only_links_refl)
next
  case (Cons a ms)
  then obtain n where n: "m = Some a" "dl_nodes st a = Some n" "dev_chain st (ln_next n) ms" by auto
  have "distinct (a # ms)" using chain_distinct Cons.prems(2) by blast
  define st1 where "st1 = st\<lparr>dl_nodes := (dl_nodes st)(a \<mapsto> n\<lparr>ln_next := q\<rparr>)\<rparr>"
  have u: "upd_next a q st = Some st1" using n(2) by (simp add: upd_next_def st1_def)
  have "dev_chain st1 (Some a) (a # qs)" "dev_chain st1 (ln_next n) ms" "set (a # qs) \<inter> set ms = {}"
    using Cons.prems n \<open>distinct (a # ms)\<close> by (auto simp: st1_def)
  then obtain head st' where "reverse_loop (Some a) (ln_next n) st1 = Some (head, st')" "dev_chain st' head (rev ms @ a # qs)" "only_links st1 st'"
    using Cons.IH by blast
  moreover have "only_links st st1" by (rule upd_next_only_links [OF only_links_refl u])
  ultimately show ?case using n u by (subst reverse_loop.simps) (auto simp: only_links_def)
qed

lemma reverse_holds:
  assumes "holds st head es"
  shows "\<exists>head' st'. list_reverse head st = Some (head', st') \<and> holds st' head' (rev es) \<and> dl_mem st' = dl_mem st"
proof -
  note h = holdsD [OF assms]
  obtain head' st' where r: "reverse_loop None head st = Some (head', st')" "dev_chain st' head' (rev (map fst es))" "only_links st st'"
    using reverse_loop_chain [of st None "[]" head "map fst es"] h(1) by auto
  moreover have "entries_ok st' (rev es)" by (rule only_links_entries [OF h(6) r(3)]) (use h(3) in \<open>auto simp: rev_map [symmetric]\<close>)
  moreover have "dl_mem st' = dl_mem st" using r(3) by (auto simp: only_links_def)
  ultimately show ?thesis by (auto simp: list_reverse_def holds_def rev_map)
qed

text \<open>What the loop of \<open>list_swap\<close> collects.\<close>

definition node_at :: "addr list \<Rightarrow> int \<Rightarrow> addr option" where
  "node_at as pos = (if 0 \<le> pos \<and> pos < int (length as) then Some (as ! nat pos) else None)"

lemma node_at_Cons: "node_at (a # as) pos = (if pos = 0 then Some a else node_at as (pos - 1))"
proof -
  have "nat pos = Suc (nat (pos - 1))" if "0 < pos" using that by simp
  then show ?thesis by (auto simp: node_at_def)
qed

lemma node_at_first: "dev_chain st p as \<Longrightarrow> node_at as 0 = p"
  by (cases as) (auto simp: node_at_def)

definition found :: "addr list \<Rightarrow> int \<Rightarrow> int \<Rightarrow> addr option \<Rightarrow> addr option" where
  "found as i pos old = (if i < pos \<and> pos \<le> i + int (length as) then node_at as (pos - i) else old)"

definition found_pre :: "addr list \<Rightarrow> int \<Rightarrow> int \<Rightarrow> addr option \<Rightarrow> addr option" where
  "found_pre as i pos old = (if i < pos \<and> pos \<le> i + int (length as) then node_at as (pos - 1 - i) else old)"

lemma found_Nil [simp]: "found [] i pos old = old" "found_pre [] i pos old = old"
  by (auto simp: found_def found_pre_def)

lemma found_Cons:
  "found (a # as) i pos old = found as (i + 1) pos (if i = pos - 1 then node_at as 0 else old)"
  "found_pre (a # as) i pos old = found_pre as (i + 1) pos (if i = pos - 1 then Some a else old)"
proof -
  have e: "pos - (i + 1) = pos - i - 1" "pos - 1 - (i + 1) = pos - 1 - i - 1" by simp_all
  show "found (a # as) i pos old = found as (i + 1) pos (if i = pos - 1 then node_at as 0 else old)"
    "found_pre (a # as) i pos old = found_pre as (i + 1) pos (if i = pos - 1 then Some a else old)"
    unfolding found_def found_pre_def e by (auto simp: node_at_Cons)
qed

lemma swap_loop_chain:
  "dev_chain st p as \<Longrightarrow> swap_loop pos_a pos_b p i v st = Some \<lparr>
     sw_a_pre = found_pre as i pos_a (sw_a_pre v), sw_a = found as i pos_a (sw_a v),
     sw_b_pre = found_pre as i pos_b (sw_b_pre v), sw_b = found as i pos_b (sw_b v)\<rparr>"
proof (induction as arbitrary: p i v)
  case Nil
  then show ?case by (subst swap_loop.simps) simp
next
  case (Cons a as)
  then obtain n where n: "p = Some a" "dl_nodes st a = Some n" "dev_chain st (ln_next n) as" by auto
  have f: "node_at as 0 = ln_next n" using node_at_first [OF n(3)] .
  show ?case using n(1,2) Cons.IH [OF n(3), of "i + 1"] f
    by (subst swap_loop.simps) (simp add: found_Cons swap_visit_def Let_def)
qed

lemma upd_next_Some: "dl_nodes st a = Some n \<Longrightarrow> upd_next a p st = Some (st\<lparr>dl_nodes := (dl_nodes st)(a \<mapsto> n\<lparr>ln_next := p\<rparr>)\<rparr>)"
  by (simp add: upd_next_def)

lemma swap_links_forward:
  assumes ch: "dev_chain st head (xs @ a # ys @ b # zs)"
    and v: "sw_a_pre v = (if xs = [] then None else Some (last xs))" "sw_b_pre v = Some (last (a # ys))"
  shows "\<exists>head' st'. swap_links head v a b st = Some (head', st') \<and> dev_chain st' head' (xs @ b # ys @ a # zs) \<and> only_links st st'"
proof -
  have dist: "distinct (xs @ a # ys @ b # zs)" by (rule chain_distinct [OF ch])
  obtain na nb where na: "dl_nodes st a = Some na" and nb: "dl_nodes st b = Some nb" and zs: "chain ln_next (dl_nodes st) (ln_next nb) zs None"
    and ys: "chain ln_next (dl_nodes st) (ln_next na) ys (Some b)" and xs: "chain ln_next (dl_nodes st) head xs (Some a)"
    using ch by (auto simp: chain_append)
  show ?thesis
  proof (cases xs rule: rev_cases)
    case X: Nil
    then have hd: "head = Some a" using xs by simp
    show ?thesis
    proof (cases ys rule: rev_cases)
      case Nil
      then show ?thesis using X hd v na nb zs ys dist by (auto simp: swap_links_def upd_next_Some only_links_def)
    next
      case (snoc us y)
      then obtain ny where ny: "dl_nodes st y = Some ny" using chain_in_heap [OF ys, of y] by auto
      show ?thesis using X hd v na nb zs ys dist snoc ny
        by (auto simp: swap_links_def upd_next_Some chain_append only_links_def)
    qed
  next
    case X: (snoc ws x)
    then obtain nx where nx: "dl_nodes st x = Some nx" using chain_in_heap [OF xs, of x] by auto
    have hd: "head \<noteq> Some a" "head \<noteq> Some b" using xs X dist by (cases ws; auto)+
    show ?thesis
    proof (cases ys rule: rev_cases)
      case Nil
      then show ?thesis using X hd v na nb zs ys xs dist nx
        by (auto simp: swap_links_def upd_next_Some chain_append only_links_def)
    next
      case (snoc us y)
      then obtain ny where ny: "dl_nodes st y = Some ny" using chain_in_heap [OF ys, of y] by auto
      show ?thesis using X hd v na nb zs ys xs dist snoc ny nx
        by (auto simp: swap_links_def upd_next_Some chain_append only_links_def)
    qed
  qed
qed

lemma swap_links_backward:
  assumes ch: "dev_chain st head (xs @ b # ys @ a # zs)"
    and v: "sw_b_pre v = (if xs = [] then None else Some (last xs))" "sw_a_pre v = Some (last (b # ys))"
  shows "\<exists>head' st'. swap_links head v a b st = Some (head', st') \<and> dev_chain st' head' (xs @ a # ys @ b # zs) \<and> only_links st st'"
proof -
  have dist: "distinct (xs @ b # ys @ a # zs)" by (rule chain_distinct [OF ch])
  obtain na nb where na: "dl_nodes st a = Some na" and nb: "dl_nodes st b = Some nb" and zs: "chain ln_next (dl_nodes st) (ln_next na) zs None"
    and ys: "chain ln_next (dl_nodes st) (ln_next nb) ys (Some a)" and xs: "chain ln_next (dl_nodes st) head xs (Some b)"
    using ch by (auto simp: chain_append)
  show ?thesis
  proof (cases xs rule: rev_cases)
    case X: Nil
    then have hd: "head = Some b" using xs by simp
    show ?thesis
    proof (cases ys rule: rev_cases)
      case Nil
      then show ?thesis using X hd v na nb zs ys dist by (auto simp: swap_links_def upd_next_Some only_links_def)
    next
      case (snoc us y)
      then obtain ny where ny: "dl_nodes st y = Some ny" using chain_in_heap [OF ys, of y] by auto
      show ?thesis using X hd v na nb zs ys dist snoc ny
        by (auto simp: swap_links_def upd_next_Some chain_append only_links_def)
    qed
  next
    case X: (snoc ws x)
    then obtain nx where nx: "dl_nodes st x = Some nx" using chain_in_heap [OF xs, of x] by auto
    have hd: "head \<noteq> Some a" "head \<noteq> Some b" using xs X dist by (cases ws; auto)+
    show ?thesis
    proof (cases ys rule: rev_cases)
      case Nil
      then show ?thesis using X hd v na nb zs ys xs dist nx
        by (auto simp: swap_links_def upd_next_Some chain_append only_links_def)
    next
      case (snoc us y)
      then obtain ny where ny: "dl_nodes st y = Some ny" using chain_in_heap [OF ys, of y] by auto
      show ?thesis using X hd v na nb zs ys xs dist snoc ny nx
        by (auto simp: swap_links_def upd_next_Some chain_append only_links_def)
    qed
  qed
qed

lemma split_two:
  assumes "i < j" "j < length xs"
  shows "xs = take i xs @ xs ! i # drop (Suc i) (take j xs) @ xs ! j # drop (Suc j) xs"
    and "xs[i := xs ! j, j := xs ! i] = take i xs @ xs ! j # drop (Suc i) (take j xs) @ xs ! i # drop (Suc j) xs"
    and "last (xs ! i # drop (Suc i) (take j xs)) = xs ! (j - 1)"
proof -
  have j: "xs = take j xs @ xs ! j # drop (Suc j) xs" using assms(2) by (rule id_take_nth_drop)
  have i: "take j xs = take i xs @ xs ! i # drop (Suc i) (take j xs)"
    using id_take_nth_drop [of i "take j xs"] assms by (simp add: min_def)
  show "xs = take i xs @ xs ! i # drop (Suc i) (take j xs) @ xs ! j # drop (Suc j) xs" using i j by (metis append.assoc append_Cons)
  show "xs[i := xs ! j, j := xs ! i] = take i xs @ xs ! j # drop (Suc i) (take j xs) @ xs ! i # drop (Suc j) xs"
    using assms by (intro nth_equalityI) (auto simp: nth_list_update nth_append nth_Cons' min_def)
  show "last (xs ! i # drop (Suc i) (take j xs)) = xs ! (j - 1)"
  proof (cases "j = Suc i")
    case False
    then have "Suc (j - 2) = j - 1" "Suc i < j" using assms by auto
    then show ?thesis using assms by (simp add: last_conv_nth)
  qed simp
qed

lemma swap_holds:
  assumes "holds st head es"
  defines "valid \<equiv> (\<lambda>i j. 0 \<le> i \<and> i < int (length es) \<and> 0 \<le> j \<and> j < int (length es) \<and> i \<noteq> j)"
  shows "\<exists>head' st'. list_swap head pos_a pos_b st = Some (if valid pos_a pos_b then 1 else 0, head', st')
    \<and> holds st' head' (if valid pos_a pos_b then es[nat pos_a := es ! nat pos_b, nat pos_b := es ! nat pos_a] else es)
    \<and> dl_mem st' = dl_mem st"
proof -
  note h = holdsD [OF assms(1)]
  let ?as = "map fst es"
  have first: "head = node_at ?as 0" using node_at_first [OF h(1)] by simp
  have pos: "found ?as 0 pos (if pos = 0 then head else None) = node_at ?as pos" "found_pre ?as 0 pos None = node_at ?as (pos - 1)" for pos
    using first by (auto simp: found_def found_pre_def node_at_def)
  define v where "v = \<lparr>sw_a_pre = node_at ?as (pos_a - 1), sw_a = node_at ?as pos_a, sw_b_pre = node_at ?as (pos_b - 1), sw_b = node_at ?as pos_b\<rparr>"
  have loop: "list_swap head pos_a pos_b st = (case (node_at ?as pos_a, node_at ?as pos_b) of
        (Some a, Some b) \<Rightarrow> (if a = b then Some (0, head, st) else do { (head, st) \<leftarrow> swap_links head v a b st; Some (1, head, st) })
      | _ \<Rightarrow> Some (0, head, st))"
  proof -
    have "swap_loop pos_a pos_b head 0 \<lparr>sw_a_pre = None, sw_a = if pos_a = 0 then head else None, sw_b_pre = None,
        sw_b = if pos_b = 0 then head else None\<rparr> st = Some v"
      by (simp only: swap_loop_chain [OF h(1)] swap_vars.simps pos v_def)
    moreover have "sw_a v = node_at ?as pos_a" "sw_b v = node_at ?as pos_b" by (simp_all add: v_def)
    ultimately show ?thesis by (auto simp: list_swap_def split: option.splits)
  qed
  show ?thesis
  proof (cases "valid pos_a pos_b")
    case False
    have "node_at ?as pos_a = None \<or> node_at ?as pos_b = None \<or> node_at ?as pos_a = node_at ?as pos_b"
      using False by (auto simp: valid_def node_at_def)
    then have "list_swap head pos_a pos_b st = Some (0, head, st)" unfolding loop by (auto split: option.splits)
    then show ?thesis using False assms(1) by auto
  next
    case True
    define i j where "i = nat pos_a" and "j = nat pos_b"
    have ij: "i < length es" "j < length es" "i \<noteq> j" "pos_a = int i" "pos_b = int j" using True by (auto simp: valid_def i_def j_def)
    have a: "node_at ?as pos_a = Some (?as ! i)" "node_at ?as pos_b = Some (?as ! j)" using ij by (auto simp: node_at_def)
    have ne: "?as ! i \<noteq> ?as ! j" using ij nth_eq_iff_index_eq [OF h(5), of i j] by simp
    have upd: "map fst (es[i := es ! j, j := es ! i]) = ?as[i := ?as ! j, j := ?as ! i]" using ij by (simp add: map_update)
    have v': "sw_a_pre v = (if i = 0 then None else Some (?as ! (i - 1)))" "sw_b_pre v = (if j = 0 then None else Some (?as ! (j - 1)))"
      using ij by (auto simp: v_def node_at_def nat_diff_distrib)
    have last: "(if take k ?as = [] then None else Some (last (take k ?as))) = (if k = 0 then None else Some (?as ! (k - 1)))"
      if "k < length ?as" for k using that by (auto simp: last_conv_nth)
    obtain head' st' where sw: "swap_links head v (?as ! i) (?as ! j) st = Some (head', st')" "dev_chain st' head' (?as[i := ?as ! j, j := ?as ! i])" "only_links st st'"
    proof (cases "i < j")
      case True
      have len: "j < length ?as" using ij by simp
      note sp = split_two [OF True len]
      show thesis
        using swap_links_forward [of st head "take i ?as" "?as ! i" "drop (Suc i) (take j ?as)" "?as ! j" "drop (Suc j) ?as" v]
          h(1) sp v' last [of i] len True that by (simp del: take_eq_Nil take_eq_Nil2) blast
    next
      case False
      then have ji: "j < i" using ij(3) by simp
      have len: "i < length ?as" using ij by simp
      note sp = split_two [OF ji len]
      show thesis
        using swap_links_backward [of st head "take j ?as" "?as ! j" "drop (Suc j) (take i ?as)" "?as ! i" "drop (Suc i) ?as" v]
          h(1) sp v' last [of j] len ji that by (simp add: list_update_swap del: take_eq_Nil take_eq_Nil2) blast
    qed
    let ?es = "es[i := es ! j, j := es ! i]"
    have "distinct (map (fst \<circ> snd) ?es)"
      using h(3) ij distinct_swap [of i "map (fst \<circ> snd) es" j] by (simp add: map_update del: distinct_swap)
    then have "entries_ok st' ?es" using only_links_entries [OF h(6) sw(3), of ?es] set_swap [of i es j] ij by simp
    then have "holds st' head' ?es" using sw(2) upd by (simp add: holds_def)
    moreover have "list_swap head pos_a pos_b st = Some (1, head', st')" unfolding loop a using ne sw(1) by simp
    moreover have "dl_mem st' = dl_mem st" using sw(3) by (simp add: only_links_def)
    ultimately show ?thesis using True unfolding i_def j_def by (simp only: if_True) blast
  qed
qed


section \<open>Access\<close>

text \<open>The position of the first entry that satisfies a predicate, or -1.\<close>

definition first_index :: "('a \<Rightarrow> bool) \<Rightarrow> 'a list \<Rightarrow> int" where
  "first_index P xs = (if \<exists>x \<in> set xs. P x then int (length (takeWhile (\<lambda>x. \<not> P x) xs)) else -1)"

lemma first_index_map: "first_index P (map f xs) = first_index (P \<circ> f) xs"
  by (auto simp: first_index_def takeWhile_map comp_def)

definition same_id :: "dev_info \<Rightarrow> dev_info \<Rightarrow> bool" where
  "same_id d d' \<longleftrightarrow> cstring (dev_id d') = cstring (dev_id d)"

definition id_ended :: "dev_info \<Rightarrow> bool" where
  "id_ended d \<longleftrightarrow> CHR 0x00 \<in> set (dev_id d)"

lemma find_entries:
  assumes "holds st head es" "\<And>e n. e \<in> set es \<Longrightarrow> dl_nodes st (fst e) = Some n \<Longrightarrow> ln_data n = Some (fst (snd e)) \<Longrightarrow> P n = Some (hit e)"
  shows "index_loop P head 0 st = Some (first_index hit es)"
proof -
  note h = holdsD [OF assms(1)]
  let ?hit = "\<lambda>a. hit (the (find (\<lambda>e. fst e = a) es))"
  have find: "find (\<lambda>e. fst e = fst f) es = Some f" if f: "f \<in> set es" for f
  proof -
    obtain xs ys where es: "es = xs @ f # ys" using split_list [OF f] by blast
    then have "fst f \<notin> set (map fst xs)" using h(5) by auto
    then show ?thesis unfolding es by (induction xs) auto
  qed
  have "\<exists>n. dl_nodes st a = Some n \<and> P n = Some (?hit a)" if a: "a \<in> set (map fst es)" for a
  proof -
    obtain e where e: "e \<in> set es" "a = fst e" using a by auto
    then obtain n where "dl_nodes st a = Some n" "ln_data n = Some (fst (snd e))" using h(2) [OF e(1)] by (auto simp: entry_ok_def)
    then show ?thesis using assms(2) [OF e(1)] find [OF e(1)] e by simp
  qed
  then have "index_loop P head 0 st = Some (first_index ?hit (map fst es))" using index_loop_chain [OF h(1), of P ?hit 0] by (auto simp: first_index_def)
  also have "first_index ?hit (map fst es) = first_index hit es"
  proof -
    have "takeWhile (\<lambda>e. \<not> ?hit (fst e)) es = takeWhile (\<lambda>e. \<not> hit e) es" by (rule takeWhile_cong) (simp_all add: find)
    then show ?thesis unfolding first_index_map by (auto simp: first_index_def find comp_def)
  qed
  finally show ?thesis .
qed

lemma index_by_id_holds:
  assumes "holds st head es" "list_all id_ended (map entry_dev es)" "id_ended d"
  shows "list_index_by_devID head d st = Some (first_index (same_id d) (map entry_dev es))"
  unfolding list_index_by_devID_def first_index_map
proof (rule find_entries [OF assms(1)])
  fix e n
  assume e: "e \<in> set es" "ln_data n = Some (fst (snd e))"
  have "dl_data st (fst (snd e)) = Some (entry_dev e)" using holdsD(2) [OF assms(1) e(1)] by (simp add: entry_ok_def)
  moreover have "id_ended (entry_dev e)" using assms(2) e(1) by (auto simp: list_all_iff)
  ultimately show "do { b \<leftarrow> ln_data n; d' \<leftarrow> dl_data st b; s \<leftarrow> id_string (dev_id d'); t \<leftarrow> id_string (dev_id d); Some (s = t) } = Some ((same_id d \<circ> entry_dev) e)"
    using e(2) assms(3) by (simp add: id_string_def id_ended_def same_id_def)
qed

lemma list_get_holds:
  assumes "holds st head es"
  shows "list_get head pos st = Some (if 0 \<le> pos \<and> pos < int (length es) then Some (Some (fst (snd (es ! nat pos)))) else None)"
proof -
  note h = holdsD [OF assms]
  have "\<exists>n. dl_nodes st (fst (es ! i)) = Some n \<and> ln_data n = Some (fst (snd (es ! i)))" if "i < length es" for i
    using h(2) [of "es ! i"] that by (auto simp: entry_ok_def)
  then have "\<exists>n. dl_nodes st (fst (es ! nat pos)) = Some n \<and> ln_data n = Some (fst (snd (es ! nat pos)))" if "0 \<le> pos" "pos < int (length es)"
    using that by simp
  then show ?thesis using at_loop_chain [OF h(1), of 0 pos] by (auto simp: list_get_def)
qed

section \<open>Sessions\<close>

text \<open>
  A session is a sequence of calls on one list. \<open>Pop_Id\<close> is the pair of calls by which \<open>main.c\<close> removes a
  device: the index of its identifier, then \<open>list_pop\<close> at that index. The second component of the result of a
  command is the value returned (0 for a function that returns none).
\<close>

datatype dev_cmd = Append dev_info | Pop int | Pop_Tail | Pop_Id dev_info | Reverse | Swap int int

fun run_cmd :: "dev_cmd \<Rightarrow> list_t \<Rightarrow> dev_sys \<Rightarrow> (int \<times> list_t \<times> dev_sys) option" where
  "run_cmd (Append d) head st = do { (head, st) \<leftarrow> list_append head d st; Some (0, head, st) }"
| "run_cmd (Pop pos) head st = list_pop head pos st"
| "run_cmd Pop_Tail head st = list_pop_tail head st"
| "run_cmd (Pop_Id d) head st = do { i \<leftarrow> list_index_by_devID head d st; list_pop head i st }"
| "run_cmd Reverse head st = do { (head, st) \<leftarrow> list_reverse head st; Some (0, head, st) }"
| "run_cmd (Swap a b) head st = list_swap head a b st"

fun run_cmds :: "dev_cmd list \<Rightarrow> list_t \<Rightarrow> dev_sys \<Rightarrow> (int list \<times> list_t \<times> dev_sys) option" where
  "run_cmds [] head st = Some ([], head, st)"
| "run_cmds (c # cs) head st = do {
     (r, head, st) \<leftarrow> run_cmd c head st;
     (rs, head, st) \<leftarrow> run_cmds cs head st;
     Some (r # rs, head, st)
   }"

text \<open>The same on a plain list.\<close>

definition in_range :: "int \<Rightarrow> 'a list \<Rightarrow> bool" where
  "in_range i xs \<longleftrightarrow> 0 \<le> i \<and> i < int (length xs)"

definition drop_at :: "int \<Rightarrow> 'a list \<Rightarrow> int \<times> 'a list" where
  "drop_at i xs = (if in_range i xs then (1, take (nat i) xs @ drop (Suc (nat i)) xs) else (0, xs))"

fun spec_cmd :: "dev_cmd \<Rightarrow> dev_info list \<Rightarrow> int \<times> dev_info list" where
  "spec_cmd (Append d) ds = (0, ds @ [d])"
| "spec_cmd (Pop pos) ds = drop_at pos ds"
| "spec_cmd Pop_Tail ds = (if ds = [] then 0 else 1, butlast ds)"
| "spec_cmd (Pop_Id d) ds = drop_at (first_index (same_id d) ds) ds"
| "spec_cmd Reverse ds = (0, rev ds)"
| "spec_cmd (Swap a b) ds =
     (if in_range a ds \<and> in_range b ds \<and> a \<noteq> b then (1, ds[nat a := ds ! nat b, nat b := ds ! nat a]) else (0, ds))"

fun spec_cmds :: "dev_cmd list \<Rightarrow> dev_info list \<Rightarrow> int list \<times> dev_info list" where
  "spec_cmds [] ds = ([], ds)"
| "spec_cmds (c # cs) ds = (let (r, ds) = spec_cmd c ds; (rs, ds) = spec_cmds cs ds in (r # rs, ds))"

fun cmd_ids :: "dev_cmd \<Rightarrow> bool" where
  "cmd_ids (Append d) = id_ended d"
| "cmd_ids (Pop_Id d) = id_ended d"
| "cmd_ids _ = True"

text \<open>\<open>dev_rep st head ds\<close>: the list at \<open>head\<close> has the entries \<open>ds\<close>, with terminated identifiers.\<close>

definition dev_rep :: "dev_sys \<Rightarrow> list_t \<Rightarrow> dev_info list \<Rightarrow> bool" where
  "dev_rep st head ds \<longleftrightarrow> (\<exists>es. holds st head es \<and> map entry_dev es = ds) \<and> list_all id_ended ds \<and> all_ok (dl_mem st)"

lemma dev_repI: "holds st head es \<Longrightarrow> map entry_dev es = ds \<Longrightarrow> list_all id_ended ds \<Longrightarrow> all_ok (dl_mem st) \<Longrightarrow> dev_rep st head ds"
  by (auto simp: dev_rep_def)

lemma pop_rep:
  assumes "dev_rep st head ds"
  shows "\<exists>r head' st' ds'. list_pop head pos st = Some (r, head', st') \<and> drop_at pos ds = (r, ds') \<and> dev_rep st' head' ds'"
proof -
  obtain es where es: "holds st head es" "map entry_dev es = ds" "list_all id_ended ds" "all_ok (dl_mem st)" using assms by (auto simp: dev_rep_def)
  have all: "list_all id_ended (snd (drop_at pos ds))" using es(3) by (auto simp: drop_at_def list_all_iff dest: in_set_takeD in_set_dropD)
  obtain head' st' where p: "list_pop head pos st = Some (if in_range pos es then 1 else 0, head', st')"
    "holds st' head' (if in_range pos es then take (nat pos) es @ drop (Suc (nat pos)) es else es)" "dl_mem st' = dl_mem st"
    using pop_holds [OF es(1), of pos] unfolding in_range_def by blast
  have "in_range pos es = in_range pos ds" using es(2) by (auto simp: in_range_def)
  then show ?thesis using p es(2,4) all
    by (cases "in_range pos ds") (auto simp: drop_at_def take_map drop_map intro: dev_repI)
qed

lemma run_cmd_rep:
  assumes "dev_rep st head ds" "cmd_ids c"
  shows "\<exists>r head' st' ds'. run_cmd c head st = Some (r, head', st') \<and> spec_cmd c ds = (r, ds') \<and> dev_rep st' head' ds'"
proof -
  obtain es where es: "holds st head es" "map entry_dev es = ds" "list_all id_ended ds" "all_ok (dl_mem st)" using assms(1) by (auto simp: dev_rep_def)
  show ?thesis
  proof (cases c)
    case (Append d)
    then show ?thesis using append_holds [OF es(1,4), of d] es assms(2) by (fastforce intro: dev_repI)
  next
    case (Pop pos)
    then show ?thesis using pop_rep [OF assms(1)] by simp
  next
    case Pop_Tail
    have "list_all id_ended (butlast ds)" using es(3) by (auto simp: list_all_iff dest: in_set_butlastD)
    then show ?thesis using pop_tail_holds [OF es(1)] es Pop_Tail by (fastforce intro: dev_repI simp: map_butlast)
  next
    case (Pop_Id d)
    then have "list_index_by_devID head d st = Some (first_index (same_id d) ds)"
      using index_by_id_holds [OF es(1), of d] es(2,3) assms(2) by simp
    then show ?thesis using pop_rep [OF assms(1)] Pop_Id by simp
  next
    case Reverse
    obtain head' st' where r: "list_reverse head st = Some (head', st')" "holds st' head' (rev es)" "dl_mem st' = dl_mem st"
      using reverse_holds [OF es(1)] by blast
    have "dev_rep st' head' (rev ds)" by (rule dev_repI [OF r(2)]) (use es r(3) in \<open>auto simp: rev_map\<close>)
    then show ?thesis using r(1) Reverse by simp
  next
    case (Swap a b)
    let ?ok = "in_range a es \<and> in_range b es \<and> a \<noteq> b"
    have eq: "?ok = (in_range a ds \<and> in_range b ds \<and> a \<noteq> b)" using es(2) by (auto simp: in_range_def)
    obtain head' st' where s: "list_swap head a b st = Some (if ?ok then 1 else 0, head', st')"
      "holds st' head' (if ?ok then es[nat a := es ! nat b, nat b := es ! nat a] else es)" "dl_mem st' = dl_mem st"
      using swap_holds [OF es(1), of a b] unfolding in_range_def by (auto simp: conj_ac split: if_splits)
    have "set (ds[nat a := ds ! nat b, nat b := ds ! nat a]) = set ds" if ?ok using that es(2) by (subst set_swap) (auto simp: in_range_def)
    then have all: "list_all id_ended (ds[nat a := ds ! nat b, nat b := ds ! nat a])" if ?ok using that es(3) by (simp add: list_all_iff)
    have map: "map entry_dev (es[nat a := es ! nat b, nat b := es ! nat a]) = ds[nat a := ds ! nat b, nat b := ds ! nat a]" if ?ok
      using that es(2) by (auto simp: map_update in_range_def)
    show ?thesis
    proof (cases ?ok)
      case True
      have "dev_rep st' head' (ds[nat a := ds ! nat b, nat b := ds ! nat a])"
        by (rule dev_repI [OF _ map [OF True] all [OF True]]) (use s(2,3) True es(4) in simp_all)
      then show ?thesis using s(1) True eq Swap by simp
    next
      case False
      have "dev_rep st' head' ds" by (rule dev_repI [OF _ es(2,3)]) (use s(2,3) False es(4) in \<open>simp_all only: if_False\<close>)
      then show ?thesis using s(1) False eq Swap by simp
    qed
  qed
qed

lemma run_cmds_rep:
  "dev_rep st head ds \<Longrightarrow> list_all cmd_ids cs \<Longrightarrow>
    \<exists>rs head' st' ds'. run_cmds cs head st = Some (rs, head', st') \<and> spec_cmds cs ds = (rs, ds') \<and> dev_rep st' head' ds'"
proof (induction cs arbitrary: st head ds)
  case (Cons c cs)
  then obtain r head1 st1 ds1 where c: "run_cmd c head st = Some (r, head1, st1)" "spec_cmd c ds = (r, ds1)" "dev_rep st1 head1 ds1"
    using run_cmd_rep [OF Cons.prems(1), of c] by auto
  then show ?case using Cons.IH [OF c(3)] Cons.prems(2) by auto
qed simp

definition dev_empty :: "mem \<Rightarrow> dev_sys" where
  "dev_empty m = \<lparr>dl_nodes = Map.empty, dl_data = Map.empty, dl_fresh = 0, dl_mem = m\<rparr>"

lemma dev_empty_rep: "all_ok m \<Longrightarrow> dev_rep (dev_empty m) list_init []"
  by (simp add: dev_rep_def dev_empty_def list_init_def holds_def entries_ok_def fresh_ok_def)

lemma rep_access:
  assumes "dev_rep st head ds"
  shows "list_len head st = Some (int (length ds))"
    and "i < length ds \<Longrightarrow> \<exists>b. list_get head (int i) st = Some (Some (Some b)) \<and> dl_data st b = Some (ds ! i)"
    and "\<not> in_range pos ds \<Longrightarrow> list_get head pos st = Some None"
proof -
  obtain es where es: "holds st head es" "map entry_dev es = ds" using assms by (auto simp: dev_rep_def)
  note h = holdsD [OF es(1)] and g = list_get_holds [OF es(1)]
  show "list_len head st = Some (int (length ds))" using len_loop_chain [OF h(1), of 0] es(2) by (auto simp: list_len_def)
  show "i < length ds \<Longrightarrow> \<exists>b. list_get head (int i) st = Some (Some (Some b)) \<and> dl_data st b = Some (ds ! i)"
    using g [of "int i"] h(2) [of "es ! i"] es(2) by (auto simp: entry_ok_def)
  show "\<not> in_range pos ds \<Longrightarrow> list_get head pos st = Some None" using g [of pos] es(2) by (auto simp: in_range_def)
qed

text \<open>
  C33: the device list implements a list of devices. Whatever sequence of appends, removals by position, from
  the tail and by device identifier, reversals and swaps is run on an empty list, with any positions and
  identifiers that are terminated strings, every call returns the value the plain list gives, no freed or NULL
  pointer is read, and at the end the length, every position in range and every position out of range read
  back as in the plain list. The allocations are taken to succeed.
\<close>

theorem dev_list_session:
  assumes "all_ok m" "list_all cmd_ids cs"
  shows "\<exists>rs head st ds. run_cmds cs list_init (dev_empty m) = Some (rs, head, st) \<and> spec_cmds cs [] = (rs, ds)
    \<and> list_len head st = Some (int (length ds))
    \<and> (\<forall>i < length ds. \<exists>b. list_get head (int i) st = Some (Some (Some b)) \<and> dl_data st b = Some (ds ! i))
    \<and> (\<forall>pos. \<not> in_range pos ds \<longrightarrow> list_get head pos st = Some None)"
proof -
  obtain rs head st ds where "run_cmds cs list_init (dev_empty m) = Some (rs, head, st)" "spec_cmds cs [] = (rs, ds)" "dev_rep st head ds"
    using run_cmds_rep [OF dev_empty_rep [OF assms(1)] assms(2)] by blast
  then show ?thesis using rep_access by blast
qed


theorem dev_list_session_witness:
  "\<exists>rs head st ds. run_cmds [Append \<lparr>dev_id = ''ab'' @ [CHR 0x00], short_addr = [], dev_flag = 1, dev_other = 0\<rparr>,
      Append \<lparr>dev_id = ''cd'' @ [CHR 0x00], short_addr = [], dev_flag = 2, dev_other = 0\<rparr>, Swap 0 1,
      Pop_Id \<lparr>dev_id = ''ab'' @ [CHR 0x00], short_addr = [], dev_flag = 0, dev_other = 0\<rparr>, Pop 5] list_init (dev_empty []) = Some (rs, head, st)
    \<and> rs = [0, 0, 1, 1, 0] \<and> list_len head st = Some 1"
proof -
  let ?cs = "[Append \<lparr>dev_id = ''ab'' @ [CHR 0x00], short_addr = [], dev_flag = 1, dev_other = 0\<rparr>,
      Append \<lparr>dev_id = ''cd'' @ [CHR 0x00], short_addr = [], dev_flag = 2, dev_other = 0\<rparr>, Swap 0 1,
      Pop_Id \<lparr>dev_id = ''ab'' @ [CHR 0x00], short_addr = [], dev_flag = 0, dev_other = 0\<rparr>, Pop 5]"
  have ids: "list_all cmd_ids ?cs" by (simp add: id_ended_def)
  have spec: "spec_cmds ?cs [] = ([0, 0, 1, 1, 0], [\<lparr>dev_id = ''cd'' @ [CHR 0x00], short_addr = [], dev_flag = 2, dev_other = 0\<rparr>])"
    by (simp add: drop_at_def in_range_def first_index_def same_id_def cstring_def)
  show ?thesis using dev_list_session [OF all_ok_Nil ids] unfolding spec by auto
qed

section \<open>Iterating\<close>

lemma index_by_node_chain:
  "dev_chain st p (xs @ a # ys) \<Longrightarrow> index_by_node_loop p (Some a) i st = Some (i + int (length xs))"
proof (induction xs arbitrary: p i)
  case Nil
  then show ?case by (subst index_by_node_loop.simps) simp
next
  case (Cons x xs)
  have "x \<noteq> a" using chain_distinct [OF Cons.prems] by auto
  moreover obtain n where "p = Some x" "dl_nodes st x = Some n" "dev_chain st (ln_next n) (xs @ a # ys)" using Cons.prems by auto
  ultimately show ?case using Cons.IH [of "ln_next n" "i + 1"] by (subst index_by_node_loop.simps) simp
qed

text \<open>The pointer to the entry at a position: NULL at the end of the list.\<close>

definition entry_ptr :: "dev_entry list \<Rightarrow> nat \<Rightarrow> addr option" where
  "entry_ptr es k = (if k < length es then Some (fst (es ! k)) else None)"

lemma holds_at:
  assumes "holds st head es" "k < length es"
  shows "\<exists>n. dl_nodes st (fst (es ! k)) = Some n \<and> ln_data n = Some (fst (snd (es ! k))) \<and> ln_next n = entry_ptr es (Suc k)
    \<and> get_index_by_node head (Some (fst (es ! k))) st = Some (int k)"
proof -
  note h = holdsD [OF assms(1)]
  obtain xs ys where es: "map fst es = xs @ fst (es ! k) # ys" "length xs = k" "ys = map fst (drop (Suc k) es)"
    using assms(2) id_take_nth_drop [of k "map fst es"] that [of "take k (map fst es)" "drop (Suc k) (map fst es)"] by (simp add: drop_map)
  have ch: "dev_chain st head (xs @ fst (es ! k) # ys)" using h(1) es(1) by simp
  obtain n where n: "dl_nodes st (fst (es ! k)) = Some n" "dev_chain st (ln_next n) ys" using chain_suffix [OF ch] by auto
  have "ln_next n = entry_ptr es (Suc k)"
  proof (cases "Suc k < length es")
    case True
    then have "drop (Suc k) es = es ! Suc k # drop (Suc (Suc k)) es" by (rule Cons_nth_drop_Suc [symmetric])
    then show ?thesis using chain_head [OF n(2)] True by (simp add: entry_ptr_def es(3))
  next
    case False
    then show ?thesis using chain_head [OF n(2)] by (simp add: entry_ptr_def es(3))
  qed
  moreover have "get_index_by_node head (Some (fst (es ! k))) st = Some (int k)"
    using index_by_node_chain [OF ch, of 0] es(2) by (simp add: get_index_by_node_def)
  moreover have "ln_data n = Some (fst (snd (es ! k)))" using h(2) [of "es ! k"] assms(2) n(1) by (auto simp: entry_ok_def)
  ultimately show ?thesis using n(1) by blast
qed

lemma holds_head: "holds st head es \<Longrightarrow> head = entry_ptr es 0"
  using chain_head [of ln_next "dl_nodes st" head "map fst es"] by (cases es) (auto simp: holds_def entry_ptr_def)


text \<open>The results of repeated calls of the iterators, from their initial static variables on.\<close>

fun iter_calls :: "nat \<Rightarrow> list_t \<Rightarrow> addr option \<times> bool \<Rightarrow> dev_sys \<Rightarrow> ((addr option \<times> int) option list \<times> addr option \<times> bool) option" where
  "iter_calls 0 head s st = Some ([], s)"
| "iter_calls (Suc k) head s st = do {
     (r, s) \<leftarrow> list_iter head s st;
     (rs, s) \<leftarrow> iter_calls k head s st;
     Some (r # rs, s)
   }"

fun cycle_calls :: "nat \<Rightarrow> list_t \<Rightarrow> addr option \<Rightarrow> dev_sys \<Rightarrow> ((addr option \<times> int) list \<times> addr option) option" where
  "cycle_calls 0 head p st = Some ([], p)"
| "cycle_calls (Suc k) head p st = do {
     (r, p) \<leftarrow> list_cycle head p st;
     (rs, p) \<leftarrow> cycle_calls k head p st;
     Some (r # rs, p)
   }"

definition visit :: "dev_entry list \<Rightarrow> nat \<Rightarrow> addr option \<times> int" where
  "visit es k = (Some (fst (snd (es ! k))), int k)"

lemma iter_step:
  assumes "holds st head es" "k \<le> length es"
  shows "list_iter head (entry_ptr es k, True) st =
    Some (if k < length es then (Some (visit es k), entry_ptr es (Suc k), True) else (None, None, False))"
  using holds_at [OF assms(1), of k] assms(2) by (auto simp: list_iter_def entry_ptr_def visit_def)

lemma iter_calls_rest:
  assumes "holds st head es"
  shows "k \<le> length es \<Longrightarrow> iter_calls (Suc (length es - k)) head (entry_ptr es k, True) st = Some (map (\<lambda>i. Some (visit es i)) [k..<length es] @ [None], None, False)"
proof (induction "length es - k" arbitrary: k)
  case 0
  then show ?case using iter_step [OF assms, of k] by simp
next
  case (Suc d)
  then have "iter_calls (Suc (length es - Suc k)) head (entry_ptr es (Suc k), True) st = Some (map (\<lambda>i. Some (visit es i)) [Suc k..<length es] @ [None], None, False)"
    by (intro Suc.hyps(1)) auto
  moreover have k: "length es - k = Suc (length es - Suc k)" "[k..<length es] = k # [Suc k..<length es]" "k < length es"
    using Suc(2,3) by (auto simp: upt_conv_Cons)
  moreover have "list_iter head (entry_ptr es k, True) st = Some (Some (visit es k), entry_ptr es (Suc k), True)" using iter_step [OF assms, of k] k(3) by simp
  ultimately show ?case by (simp only: iter_calls.simps(2) [of "Suc (length es - Suc k)"] bind.bind_lunit prod.case list.map append_Cons)
qed

lemma cycle_step:
  assumes "holds st head es" "k < length es" "p = entry_ptr es k \<or> (k = 0 \<and> p = None)"
  shows "list_cycle head p st = Some (visit es k, entry_ptr es (Suc k))"
proof -
  have "(if p = None then head else p) = Some (fst (es ! k))" using assms holds_head [OF assms(1)] by (auto simp: entry_ptr_def)
  then show ?thesis using holds_at [OF assms(1,2)] by (auto simp: list_cycle_def visit_def)
qed

lemma cycle_calls_from:
  assumes "holds st head es" "es \<noteq> []"
  shows "p = entry_ptr es (i mod length es) \<or> (i mod length es = 0 \<and> p = None) \<Longrightarrow>
    \<exists>p'. cycle_calls k head p st = Some (map (\<lambda>j. visit es (j mod length es)) [i..<i + k], p')"
proof (induction k arbitrary: i p)
  case (Suc k)
  have lt: "i mod length es < length es" using assms(2) by simp
  have nx: "entry_ptr es (Suc (i mod length es)) = entry_ptr es (Suc i mod length es) \<or> (Suc i mod length es = 0 \<and> entry_ptr es (Suc (i mod length es)) = None)"
    using lt by (auto simp: mod_Suc entry_ptr_def)
  obtain p' where p': "cycle_calls k head (entry_ptr es (Suc (i mod length es))) st = Some (map (\<lambda>j. visit es (j mod length es)) [Suc i..<Suc i + k], p')"
    using Suc.IH [OF nx] by blast
  have "[i..<i + Suc k] = i # [Suc i..<Suc i + k]" by (simp add: upt_conv_Cons)
  then have "cycle_calls (Suc k) head p st = Some (map (\<lambda>j. visit es (j mod length es)) [i..<i + Suc k], p')"
    by (simp only: cycle_calls.simps cycle_step [OF assms(1) lt Suc.prems] p' bind.bind_lunit prod.case list.map)
  then show ?case by blast
qed simp

text \<open>
  C34: both iterators visit every entry. From its initial static variables \<open>list_iter\<close> returns, on a list of n
  entries, each entry with its index in order, answers 0 at the call after the last, and has then reset its
  variables, so that the next walk starts at the head. \<open>list_cycle\<close> on a list that is not empty never stops:
  its \<open>j\<close>-th call gives entry \<open>j mod n\<close>, so every entry comes back after n further calls.
\<close>

theorem dev_list_iteration:
  assumes "holds st head es"
  shows "iter_calls (Suc (length es)) head (p0, False) st = Some (map (\<lambda>i. Some (Some (fst (snd (es ! i))), int i)) [0..<length es] @ [None], None, False)
    \<and> (es \<noteq> [] \<longrightarrow> (\<exists>p. cycle_calls k head None st = Some (map (\<lambda>j. (Some (fst (snd (es ! (j mod length es)))), int (j mod length es))) [0..<k], p)))"
proof (intro conjI impI)
  have "list_iter head (p0, False) st = list_iter head (entry_ptr es 0, True) st" using holds_head [OF assms] by (simp add: list_iter_def)
  then show "iter_calls (Suc (length es)) head (p0, False) st = Some (map (\<lambda>i. Some (Some (fst (snd (es ! i))), int i)) [0..<length es] @ [None], None, False)"
    using iter_calls_rest [OF assms, of 0] by (simp add: visit_def)
  show "\<exists>p. cycle_calls k head None st = Some (map (\<lambda>j. (Some (fst (snd (es ! (j mod length es)))), int (j mod length es))) [0..<k], p)" if "es \<noteq> []"
    using cycle_calls_from [OF assms that, of None 0 k] by (simp add: visit_def)
qed

theorem dev_list_iteration_witness:
  "\<exists>p. cycle_calls 3 (Some 0) None \<lparr>dl_nodes = [0 \<mapsto> \<lparr>ln_data = Some 1, ln_next = Some 2\<rparr>, 2 \<mapsto> \<lparr>ln_data = Some 3, ln_next = None\<rparr>],
      dl_data = [1 \<mapsto> \<lparr>dev_id = [], short_addr = [], dev_flag = 1, dev_other = 0\<rparr>, 3 \<mapsto> \<lparr>dev_id = [], short_addr = [], dev_flag = 2, dev_other = 0\<rparr>],
      dl_fresh = 4, dl_mem = []\<rparr> = Some ([(Some 1, 0), (Some 3, 1), (Some 1, 0)], p)"
proof -
  let ?st = "\<lparr>dl_nodes = [0 \<mapsto> \<lparr>ln_data = Some 1, ln_next = Some 2\<rparr>, 2 \<mapsto> \<lparr>ln_data = Some 3, ln_next = None\<rparr>],
      dl_data = [1 \<mapsto> \<lparr>dev_id = [], short_addr = [], dev_flag = 1, dev_other = 0\<rparr>, 3 \<mapsto> \<lparr>dev_id = [], short_addr = [], dev_flag = 2, dev_other = 0\<rparr>],
      dl_fresh = 4, dl_mem = []\<rparr>"
  let ?es = "[(0, 1, \<lparr>dev_id = [], short_addr = [], dev_flag = 1, dev_other = 0\<rparr>), (2, 3, \<lparr>dev_id = [], short_addr = [], dev_flag = 2, dev_other = 0\<rparr>)] :: dev_entry list"
  have h: "holds ?st (Some 0) ?es" by (simp add: holds_def entries_ok_def entry_ok_def fresh_ok_def)
  have "[0..<3] = [0, 1, 2::nat]" "2 mod Suc (Suc 0) = 0" by (simp_all add: numeral_3_eq_3 numeral_2_eq_2)
  moreover have "\<exists>p. cycle_calls 3 (Some 0) None ?st = Some (map (\<lambda>j. (Some (fst (snd (?es ! (j mod length ?es)))), int (j mod length ?es))) [0..<3], p)"
    by (rule mp [OF conjunct2 [OF dev_list_iteration [OF h, of None 3]]]) simp
  ultimately show ?thesis by simp
qed


section \<open>Joining lists, and what the code leaves behind\<close>

lemma extend_holds:
  assumes "holds st a (es @ [e])" "holds st b fs" "fst ` set (es @ [e]) \<inter> fst ` set fs = {}" "distinct (map (fst \<circ> snd) ((es @ [e]) @ fs))"
  shows "\<exists>st'. list_extend a b st = Some (a, st') \<and> holds st' a ((es @ [e]) @ fs) \<and> holds st' b fs"
proof -
  note ha = holdsD [OF assms(1)] and hb = holdsD [OF assms(2)]
  obtain h as where as: "map fst (es @ [e]) = h # as" by (cases "map fst (es @ [e])") auto
  then have a: "a = Some h" using chain_head [OF ha(1)] by simp
  have last: "last (h # as) = fst e" using as by (metis last_map last_snoc snoc_eq_iff_butlast)
  then have loop: "last_loop h st = Some (fst e)" using last_loop_chain [of st h as] ha(1) as a by simp
  obtain n where n: "dl_nodes st (fst e) = Some n" using ha(2) [of e] by (auto simp: entry_ok_def)
  define st' where "st' = st\<lparr>dl_nodes := (dl_nodes st)(fst e \<mapsto> n\<lparr>ln_next := b\<rparr>)\<rparr>"
  have u: "upd_next (fst e) b st = Some st'" using n by (simp add: st'_def upd_next_Some)
  have out: "fst e \<notin> set (map fst es)" "fst e \<notin> set (map fst fs)" using ha(5) assms(3) by auto
  have links: "only_links st st'" by (rule upd_next_only_links [OF only_links_refl u])
  have "dev_chain st' b (map fst fs)" using hb(1) out(2) by (simp add: st'_def)
  moreover have "chain ln_next (dl_nodes st') a (map fst (es @ [e])) b" using ha(1) out(1) by (simp add: st'_def chain_append)
  moreover have "entries_ok st' fs" by (rule only_links_entries [OF hb(6) links subset_refl hb(3)])
  moreover have "entries_ok st' (es @ [e])" by (rule only_links_entries [OF ha(6) links subset_refl ha(3)])
  ultimately have "holds st' a ((es @ [e]) @ fs)" "holds st' b fs"
    using assms(4) by (simp_all only: holds_def chain_append map_append) (auto simp: entries_ok_def)
  then show ?thesis using a loop u by (auto simp: list_extend_def)
qed

text \<open>Popping the head frees its node only: the entry stays allocated with nothing pointing to it.\<close>

lemma pop_head_leaks:
  assumes "holds st head (e # es)"
  shows "\<exists>head' st'. list_pop head 0 st = Some (1, head', st') \<and> dl_data st' (fst (snd e)) = Some (entry_dev e) \<and> dl_nodes st' (fst e) = None"
proof -
  note h = holdsD [OF assms]
  obtain nx where nx: "dl_nodes st (fst e) = Some \<lparr>ln_data = Some (fst (snd e)), ln_next = nx\<rparr>" "dl_data st (fst (snd e)) = Some (entry_dev e)"
    using entry_nodes [OF h(2) [of e]] by auto
  have "head = Some (fst e)" using chain_head [OF h(1)] by simp
  moreover have "at_loop (Some (fst e)) 0 0 st = Some (Some (fst e))" by (subst at_loop.simps) simp
  ultimately show ?thesis using nx by (simp add: list_pop_def free_dev_node_def)
qed

lemma cycle_empty_fails: "list_cycle None None st = None"
  by (simp add: list_cycle_def)

lemma from_array_no_value: "list_from_array None [d] len st = Some (r, head, st') \<Longrightarrow> r = None"
  by (auto simp: list_from_array_def split: bind_splits prod.splits)

end
