(* ===== verification/Msg_Queue.thy ===== *)
theory Msg_Queue
  imports Linked_Heap
begin

text \<open>
  The message queue of \<open>20180320queue/src/queue.c\<close> and \<open>queue.h\<close>, used by one thread: elements in a heap,
  each pointing to a block of characters. Memory from \<open>malloc\<close> is not initialised, so a pointer read from it
  is \<open>Junk\<close>: it can be copied, but neither followed nor compared. The blocks have exactly the size the code
  asks for, and \<open>strlen\<close> of a block without a NUL reads beyond it and has no value. A lock that is held makes
  the thread wait for itself.
\<close>

section \<open>Elements and blocks\<close>

datatype ptr = Junk | Null | At addr

record qelem =
  el_data :: ptr
  el_next :: ptr

record queue_core =
  qc_locked :: bool
  qc_size :: u32

record msgqueue_t =
  q_node :: ptr
  q_core :: "queue_core option"
  q_rear :: ptr
  q_front :: ptr
  q_backrear :: ptr
  q_count :: u32

record q_sys =
  qs_elems :: "qelem heap"
  qs_text :: "string heap"
  qs_fresh :: addr
  qs_mem :: mem

fun ptr_addr :: "ptr \<Rightarrow> addr option" where
  "ptr_addr (At a) = Some a"
| "ptr_addr _ = None"

fun is_null :: "ptr \<Rightarrow> bool option" where
  "is_null Junk = None"
| "is_null Null = Some True"
| "is_null (At a) = Some False"

definition malloc_elem :: "q_sys \<Rightarrow> ptr \<times> q_sys" where
  "malloc_elem st =
     (case malloc_ok (qs_mem st) of (ok, m) \<Rightarrow>
        if ok
        then (At (qs_fresh st), st\<lparr>qs_elems := (qs_elems st)(qs_fresh st \<mapsto> \<lparr>el_data = Junk, el_next = Junk\<rparr>), qs_fresh := qs_fresh st + 1, qs_mem := m\<rparr>)
        else (Null, st\<lparr>qs_mem := m\<rparr>))"

text \<open>A block of the length of a string with a copy of its characters: \<open>malloc (strlen s)\<close> and \<open>memcpy\<close>.\<close>

definition copy_text :: "string \<Rightarrow> q_sys \<Rightarrow> (ptr \<times> q_sys) option" where
  "copy_text s st =
     (case malloc_ok (qs_mem st) of (ok, m) \<Rightarrow>
        if ok
        then Some (At (qs_fresh st), st\<lparr>qs_text := (qs_text st)(qs_fresh st \<mapsto> cstring s), qs_fresh := qs_fresh st + 1, qs_mem := m\<rparr>)
        else None)"

definition block_strlen :: "addr \<Rightarrow> q_sys \<Rightarrow> nat option" where
  "block_strlen b st = do { s \<leftarrow> qs_text st b; (if CHR 0x00 \<in> set s then Some (length (cstring s)) else None) }"

definition set_el_data :: "addr \<Rightarrow> ptr \<Rightarrow> q_sys \<Rightarrow> q_sys option" where
  "set_el_data a p st = do { e \<leftarrow> qs_elems st a; Some (st\<lparr>qs_elems := (qs_elems st)(a \<mapsto> e\<lparr>el_data := p\<rparr>)\<rparr>) }"

definition set_el_next :: "addr \<Rightarrow> ptr \<Rightarrow> q_sys \<Rightarrow> q_sys option" where
  "set_el_next a p st = do { e \<leftarrow> qs_elems st a; Some (st\<lparr>qs_elems := (qs_elems st)(a \<mapsto> e\<lparr>el_next := p\<rparr>)\<rparr>) }"

section \<open>The operations\<close>

definition QUEUE_INIT :: "msgqueue_t \<Rightarrow> u32 \<Rightarrow> q_sys \<Rightarrow> msgqueue_t \<times> q_sys" where
  "QUEUE_INIT q sz st =
     (let (node, st) = malloc_elem st; q = q\<lparr>q_node := node\<rparr>
      in case malloc_ok (qs_mem st) of (ok, m) \<Rightarrow>
        (if ok
         then (q\<lparr>q_core := Some \<lparr>qc_locked = False, qc_size = sz\<rparr>, q_rear := Null, q_front := Null, q_count := 0\<rparr>, st\<lparr>qs_mem := m\<rparr>)
         else (q\<lparr>q_core := None\<rparr>, st\<lparr>qs_mem := m\<rparr>)))"

definition QUEUE_SIZE :: "msgqueue_t \<Rightarrow> u32" where
  "QUEUE_SIZE q = q_count q"

definition QUEUE_LOCK :: "msgqueue_t \<Rightarrow> msgqueue_t option" where
  "QUEUE_LOCK q = do { c \<leftarrow> q_core q; (if qc_locked c then None else Some (q\<lparr>q_core := Some (c\<lparr>qc_locked := True\<rparr>)\<rparr>)) }"

definition QUEUE_UNLOCK :: "msgqueue_t \<Rightarrow> msgqueue_t option" where
  "QUEUE_UNLOCK q = do { c \<leftarrow> q_core q; (if qc_locked c then Some (q\<lparr>q_core := Some (c\<lparr>qc_locked := False\<rparr>)\<rparr>) else None) }"

text \<open>A new last element with a copy of the message.\<close>

definition push_behind :: "msgqueue_t \<Rightarrow> string \<Rightarrow> q_sys \<Rightarrow> (msgqueue_t \<times> q_sys) option" where
  "push_behind q s st = do {
     r \<leftarrow> ptr_addr (q_backrear q);
     let (temp, st) = malloc_elem st;
     st \<leftarrow> set_el_next r temp st;
     t \<leftarrow> ptr_addr temp;
     (b, st) \<leftarrow> copy_text s st;
     st \<leftarrow> set_el_data t b st;
     e \<leftarrow> qs_elems st t;
     Some (q\<lparr>q_backrear := temp, q_rear := el_next e, q_count := q_count q + 1\<rparr>, st)
   }"

text \<open>The first element is overwritten and released with its data.\<close>

definition drop_front :: "msgqueue_t \<Rightarrow> q_sys \<Rightarrow> (msgqueue_t \<times> q_sys) option" where
  "drop_front q st = do {
     f \<leftarrow> ptr_addr (q_front q);
     e \<leftarrow> qs_elems st f;
     b \<leftarrow> ptr_addr (el_data e);
     _ \<leftarrow> block_strlen b st;
     Some (q\<lparr>q_front := el_next e, q_count := q_count q - 1\<rparr>,
       st\<lparr>qs_text := (qs_text st)(b := None), qs_elems := (qs_elems st)(f := None)\<rparr>)
   }"

definition QUEUE_PUSH :: "msgqueue_t \<Rightarrow> string \<Rightarrow> q_sys \<Rightarrow> (msgqueue_t \<times> q_sys) option" where
  "QUEUE_PUSH q s st = do {
     c \<leftarrow> q_core q;
     q \<leftarrow> QUEUE_LOCK q;
     empty \<leftarrow> is_null (q_front q);
     (q, st) \<leftarrow>
       (if empty then do {
          n \<leftarrow> ptr_addr (q_node q);
          (b, st) \<leftarrow> copy_text s st;
          st \<leftarrow> set_el_data n b st;
          e \<leftarrow> qs_elems st n;
          Some (q\<lparr>q_front := q_node q, q_backrear := q_node q, q_rear := el_next e, q_count := q_count q + 1\<rparr>, st)
        }
        else if q_count q < qc_size c then push_behind q s st
        else do {
          (q, st) \<leftarrow> drop_front q st;
          push_behind q s st
        });
     q \<leftarrow> QUEUE_UNLOCK q;
     Some (q, st)
   }"

text \<open>
  \<open>QUEUE_POP\<close> waits for a signal while the queue is empty; otherwise the result is the pointer it stores in the
  data of the caller's element. (With elements counted but no front it stores nothing.)
\<close>

datatype 'a popping = Waits | Popped 'a

definition QUEUE_POP :: "msgqueue_t \<Rightarrow> q_sys \<Rightarrow> (ptr option \<times> msgqueue_t \<times> q_sys) popping option" where
  "QUEUE_POP q st = do {
     q \<leftarrow> QUEUE_LOCK q;
     (if QUEUE_SIZE q = 0 then Some Waits
      else do {
        empty \<leftarrow> is_null (q_front q);
        (r, q, st) \<leftarrow>
          (if empty then Some (None, q, st)
           else do {
             f \<leftarrow> ptr_addr (q_front q);
             e \<leftarrow> qs_elems st f;
             b \<leftarrow> ptr_addr (el_data e);
             _ \<leftarrow> block_strlen b st;
             s \<leftarrow> qs_text st b;
             (d, st) \<leftarrow> copy_text s st;
             (q, st) \<leftarrow> drop_front q st;
             Some (Some d, q, st)
           });
        q \<leftarrow> QUEUE_UNLOCK q;
        Some (Popped (r, q, st))
      })
   }"

section \<open>The elements of a queue\<close>

definition ptr_next :: "qelem \<Rightarrow> addr option" where
  "ptr_next e = ptr_addr (el_next e)"

definition ptr_of :: "addr option \<Rightarrow> ptr" where
  "ptr_of p = (case p of None \<Rightarrow> Junk | Some a \<Rightarrow> At a)"

interpretation mq: linked_nodes ptr_next "\<lambda>p e. e\<lparr>el_next := ptr_of p\<rparr>"
  by unfold_locales (simp add: ptr_next_def ptr_of_def split: option.splits)

text \<open>\<open>elem_text st a s\<close>: the element at \<open>a\<close> points to a block that holds exactly \<open>s\<close>.\<close>

definition elem_text :: "q_sys \<Rightarrow> addr \<Rightarrow> string \<Rightarrow> bool" where
  "elem_text st a s \<longleftrightarrow> (\<exists>e b. qs_elems st a = Some e \<and> el_data e = At b \<and> qs_text st b = Some s)"

definition fresh_above :: "q_sys \<Rightarrow> bool" where
  "fresh_above st \<longleftrightarrow> (\<forall>a \<ge> qs_fresh st. qs_elems st a = None \<and> qs_text st a = None)"

definition queue_of :: "msgqueue_t \<Rightarrow> q_sys \<Rightarrow> u32 \<Rightarrow> addr list \<Rightarrow> string list \<Rightarrow> bool" where
  "queue_of q st sz as ms \<longleftrightarrow> q_core q = Some \<lparr>qc_locked = False, qc_size = sz\<rparr> \<and> all_ok (qs_mem st) \<and> fresh_above st
     \<and> q_count q = of_nat (length ms) \<and> list_all2 (elem_text st) as ms
     \<and> (if ms = [] then q_front q = Null \<and> (\<exists>n. q_node q = At n \<and> qs_elems st n = Some \<lparr>el_data = Junk, el_next = Junk\<rparr>)
        else q_front q = At (hd as) \<and> q_backrear q = At (last as) \<and> chain ptr_next (qs_elems st) (Some (hd as)) as None)"


lemma copy_text_ok:
  assumes "all_ok (qs_mem st)" "fresh_above st"
  shows "\<exists>b st'. copy_text s st = Some (At b, st') \<and> all_ok (qs_mem st') \<and> fresh_above st' \<and> qs_text st b = None
    \<and> qs_elems st' = qs_elems st \<and> qs_text st' = (qs_text st)(b \<mapsto> cstring s)"
proof -
  obtain m where "malloc_ok (qs_mem st) = (True, m)" "all_ok m" using malloc_all_ok [OF assms(1)] by blast
  then show ?thesis using assms(2) by (auto simp: copy_text_def fresh_above_def)
qed

lemma malloc_elem_ok:
  assumes "all_ok (qs_mem st)" "fresh_above st"
  shows "\<exists>t st'. malloc_elem st = (At t, st') \<and> all_ok (qs_mem st') \<and> fresh_above st' \<and> qs_elems st t = None
    \<and> qs_elems st' = (qs_elems st)(t \<mapsto> \<lparr>el_data = Junk, el_next = Junk\<rparr>) \<and> qs_text st' = qs_text st"
proof -
  obtain m where "malloc_ok (qs_mem st) = (True, m)" "all_ok m" using malloc_all_ok [OF assms(1)] by blast
  then show ?thesis using assms(2) by (auto simp: malloc_elem_def fresh_above_def)
qed

lemma init_queue_of:
  assumes "all_ok (qs_mem st)" "fresh_above st" "QUEUE_INIT q sz st = (q', st')"
  shows "queue_of q' st' sz [] []"
proof -
  obtain t st1 where st1: "malloc_elem st = (At t, st1)" "all_ok (qs_mem st1)" "fresh_above st1"
    "qs_elems st1 = (qs_elems st)(t \<mapsto> \<lparr>el_data = Junk, el_next = Junk\<rparr>)"
    using malloc_elem_ok [OF assms(1,2)] by blast
  obtain m where m: "malloc_ok (qs_mem st1) = (True, m)" "all_ok m" using malloc_all_ok [OF st1(2)] by blast
  show ?thesis using assms(3) st1 m by (auto simp: QUEUE_INIT_def queue_of_def fresh_above_def)
qed

lemma push_first:
  assumes "queue_of q st sz [] []"
  shows "\<exists>q' st' n. QUEUE_PUSH q s st = Some (q', st') \<and> queue_of q' st' sz [n] [cstring s]"
proof -
  obtain n where n: "q_node q = At n" "qs_elems st n = Some \<lparr>el_data = Junk, el_next = Junk\<rparr>" using assms by (auto simp: queue_of_def)
  have q: "all_ok (qs_mem st)" "fresh_above st" "q_core q = Some \<lparr>qc_locked = False, qc_size = sz\<rparr>" "q_front q = Null" "q_count q = 0"
    using assms by (auto simp: queue_of_def)
  obtain b st1 where "copy_text s st = Some (At b, st1)" "all_ok (qs_mem st1)" "fresh_above st1" "qs_text st b = None"
    "qs_elems st1 = qs_elems st" "qs_text st1 = (qs_text st)(b \<mapsto> cstring s)" using copy_text_ok [OF q(1,2)] by blast
  then show ?thesis using n q
    by (auto simp: QUEUE_PUSH_def QUEUE_LOCK_def QUEUE_UNLOCK_def set_el_data_def queue_of_def elem_text_def ptr_next_def fresh_above_def
        intro!: exI [of _ n])
qed


lemma elem_text_frame:
  assumes "elem_text st a s" "a \<noteq> t" "qs_text st b = None"
    and "qs_elems st' = ((qs_elems st)(t \<mapsto> n))(l \<mapsto> e\<lparr>el_next := p\<rparr>)" "qs_elems st l = Some e" "qs_text st' = (qs_text st)(b \<mapsto> x)"
  shows "elem_text st' a s"
proof -
  obtain e' b' where e': "qs_elems st a = Some e'" "el_data e' = At b'" "qs_text st b' = Some s" using assms(1) by (auto simp: elem_text_def)
  then have "b' \<noteq> b" using assms(3) by auto
  moreover have "\<exists>e''. qs_elems st' a = Some e'' \<and> el_data e'' = At b'" using e' assms(2,4,5) by (cases "a = l") auto
  ultimately show ?thesis using e'(3) assms(6) by (auto simp: elem_text_def)
qed

lemma push_behind_ok:
  assumes "all_ok (qs_mem st)" "fresh_above st" "q_backrear q = At l" "qs_elems st l = Some e"
  shows "\<exists>t b st'. push_behind q s st = Some (q\<lparr>q_backrear := At t, q_rear := Junk, q_count := q_count q + 1\<rparr>, st')
    \<and> all_ok (qs_mem st') \<and> fresh_above st' \<and> qs_elems st t = None \<and> qs_text st b = None \<and> qs_text st' = (qs_text st)(b \<mapsto> cstring s)
    \<and> qs_elems st' = ((qs_elems st)(t \<mapsto> \<lparr>el_data = At b, el_next = Junk\<rparr>))(l \<mapsto> e\<lparr>el_next := At t\<rparr>)"
proof -
  obtain t st1 where st1: "malloc_elem st = (At t, st1)" "all_ok (qs_mem st1)" "fresh_above st1" "qs_elems st t = None"
    "qs_elems st1 = (qs_elems st)(t \<mapsto> \<lparr>el_data = Junk, el_next = Junk\<rparr>)" "qs_text st1 = qs_text st"
    using malloc_elem_ok [OF assms(1,2)] by blast
  have tl: "t \<noteq> l" using st1(4) assms(4) by auto
  define st2 where "st2 = st1\<lparr>qs_elems := (qs_elems st1)(l \<mapsto> e\<lparr>el_next := At t\<rparr>)\<rparr>"
  have st2: "set_el_next l (At t) st1 = Some st2" using assms(4) st1(5) tl by (simp add: set_el_next_def st2_def)
  have lt: "l < qs_fresh st1" using st1(3,5) assms(4) tl by (metis fresh_above_def fun_upd_other not_less option.distinct(1))
  have ok2: "all_ok (qs_mem st2)" "fresh_above st2" using st1(2,3) lt by (auto simp: st2_def fresh_above_def)
  obtain b st3 where st3: "copy_text s st2 = Some (At b, st3)" "all_ok (qs_mem st3)" "fresh_above st3" "qs_text st2 b = None"
    "qs_elems st3 = qs_elems st2" "qs_text st3 = (qs_text st2)(b \<mapsto> cstring s)" using copy_text_ok [OF ok2] by blast
  define st4 where "st4 = st3\<lparr>qs_elems := (qs_elems st3)(t \<mapsto> \<lparr>el_data = At b, el_next = Junk\<rparr>)\<rparr>"
  have st4: "set_el_data t (At b) st3 = Some st4" using st3(5) st1(5) tl by (simp add: set_el_data_def st4_def st2_def)
  have "t < qs_fresh st3" using st3(3,5) st1(5) tl by (metis fresh_above_def fun_upd_other fun_upd_same not_less option.distinct(1) q_sys.select_convs(1) q_sys.surjective q_sys.update_convs(1) st2_def)
  then have ok4: "all_ok (qs_mem st4)" "fresh_above st4" using st3(2,3) by (auto simp: st4_def fresh_above_def)
  have el: "qs_elems st4 = ((qs_elems st)(t \<mapsto> \<lparr>el_data = At b, el_next = Junk\<rparr>))(l \<mapsto> e\<lparr>el_next := At t\<rparr>)"
    using tl by (simp add: st4_def st3(5) st2_def st1(5) fun_upd_twist)
  have "push_behind q s st = Some (q\<lparr>q_backrear := At t, q_rear := Junk, q_count := q_count q + 1\<rparr>, st4)"
    using tl by (simp add: push_behind_def assms(3) st1(1) st2 st3(1) st4 el)
  moreover have "qs_text st4 = (qs_text st)(b \<mapsto> cstring s)" "qs_text st b = None" using st3(4,6) st1(6) by (simp_all add: st4_def st2_def)
  ultimately show ?thesis using ok4 el st1(4) by blast
qed

lemma push_more:
  assumes "queue_of q st sz as ms" "ms \<noteq> []" "length ms < unat sz"
  shows "\<exists>q' st' t. QUEUE_PUSH q s st = Some (q', st') \<and> queue_of q' st' sz (as @ [t]) (ms @ [cstring s])"
proof -
  have q: "all_ok (qs_mem st)" "fresh_above st" "q_core q = Some \<lparr>qc_locked = False, qc_size = sz\<rparr>" "q_front q = At (hd as)"
      "q_backrear q = At (last as)" "q_count q = of_nat (length ms)" "list_all2 (elem_text st) as ms"
      "chain ptr_next (qs_elems st) (Some (hd as)) as None"
    using assms(1,2) by (auto simp: queue_of_def)
  have "length as = length ms" using q(7) by (rule list_all2_lengthD)
  then obtain ys l where as: "as = ys @ [l]" using assms(2) by (cases as rule: rev_cases) auto
  obtain e where e: "qs_elems st l = Some e" "ptr_next e = None" using q(8) by (auto simp: as chain_append)
  let ?q = "q\<lparr>q_core := Some \<lparr>qc_locked = True, qc_size = sz\<rparr>\<rparr>"
  obtain t b st' where st': "push_behind ?q s st = Some (?q\<lparr>q_backrear := At t, q_rear := Junk, q_count := q_count ?q + 1\<rparr>, st')"
    "all_ok (qs_mem st')" "fresh_above st'" "qs_elems st t = None" "qs_text st b = None" "qs_text st' = (qs_text st)(b \<mapsto> cstring s)"
    "qs_elems st' = ((qs_elems st)(t \<mapsto> \<lparr>el_data = At b, el_next = Junk\<rparr>))(l \<mapsto> e\<lparr>el_next := At t\<rparr>)"
    using push_behind_ok [of st ?q l e s] q(1,2,5) e(1) as by auto
  have lt: "(of_nat (length ms) :: u32) < sz" using assms(3) unsigned_less [of sz, where ?'a = nat] by (simp add: word_less_nat_alt unat_of_nat)
  have run: "QUEUE_PUSH q s st = Some (q\<lparr>q_backrear := At t, q_rear := Junk, q_count := q_count q + 1\<rparr>, st')"
    using q(3,4,6) lt st'(1) by (simp add: QUEUE_PUSH_def QUEUE_LOCK_def QUEUE_UNLOCK_def)
  have t: "t \<notin> set as" using st'(4) chain_in_heap [OF q(8)] by fastforce
  have "chain ptr_next (qs_elems st') (Some (hd as)) (ys @ l # [t]) None"
    using mq.chain_insert [of "qs_elems st" "Some (hd as)" ys l "[]" e t "\<lparr>el_data = At b, el_next = Junk\<rparr>"] q(8) as t e
    by (simp add: st'(7) ptr_of_def)
  moreover have "hd (as @ [t]) = hd as" using as by (cases ys) auto
  moreover have "list_all2 (elem_text st') (as @ [t]) (ms @ [cstring s])"
  proof (rule list_all2_appendI)
    show "list_all2 (elem_text st') as ms"
    proof (rule list_all2_all_nthI)
      show "elem_text st' (as ! i) (ms ! i)" if "i < length as" for i
      proof (rule elem_text_frame [OF _ _ st'(5,7) e(1) st'(6)])
        show "elem_text st (as ! i) (ms ! i)" using q(7) that by (rule list_all2_nthD)
        show "as ! i \<noteq> t" using t that by (metis nth_mem)
      qed
    qed (rule list_all2_lengthD [OF q(7)])
    show "list_all2 (elem_text st') [t] [cstring s]" using st'(6,7) e(1) st'(4) by (auto simp: elem_text_def)
  qed
  ultimately have "queue_of (q\<lparr>q_backrear := At t, q_rear := Junk, q_count := q_count q + 1\<rparr>) st' sz (as @ [t]) (ms @ [cstring s])"
    using q(3,4,6) st'(2,3) as by (simp add: queue_of_def)
  then show ?thesis using run by blast
qed


section \<open>Sequences of pushes\<close>

fun push_all :: "string list \<Rightarrow> msgqueue_t \<Rightarrow> q_sys \<Rightarrow> (msgqueue_t \<times> q_sys) option" where
  "push_all [] q st = Some (q, st)"
| "push_all (s # ss) q st = do { (q, st) \<leftarrow> QUEUE_PUSH q s st; push_all ss q st }"

text \<open>The texts of the first elements, following the links from a pointer.\<close>

fun read_queue :: "nat \<Rightarrow> ptr \<Rightarrow> q_sys \<Rightarrow> string list option" where
  "read_queue 0 p st = Some []"
| "read_queue (Suc k) p st = do {
     a \<leftarrow> ptr_addr p;
     e \<leftarrow> qs_elems st a;
     b \<leftarrow> ptr_addr (el_data e);
     s \<leftarrow> qs_text st b;
     ss \<leftarrow> read_queue k (el_next e) st;
     Some (s # ss)
   }"

lemma read_queue_chain:
  "chain ptr_next (qs_elems st) (ptr_addr p) as None \<Longrightarrow> list_all2 (elem_text st) as ms \<Longrightarrow> read_queue (length ms) p st = Some ms"
proof (induction as arbitrary: p ms)
  case (Cons a as)
  from Cons.prems(2) obtain s ss where ms: "ms = s # ss" "elem_text st a s" "list_all2 (elem_text st) as ss" by (auto simp: list_all2_Cons1)
  from ms(2) obtain e b where "qs_elems st a = Some e" "el_data e = At b" "qs_text st b = Some s" by (auto simp: elem_text_def)
  then show ?case using Cons.prems(1) Cons.IH [of "el_next e", OF _ ms(3)] ms(1) by (simp add: ptr_next_def)
qed simp

lemma push_all_queue_of:
  "queue_of q st sz as ms \<Longrightarrow> length ms + length ss \<le> max 1 (unat sz) \<Longrightarrow>
    \<exists>q' st' as'. push_all ss q st = Some (q', st') \<and> queue_of q' st' sz as' (ms @ map cstring ss)"
proof (induction ss arbitrary: q st as ms)
  case (Cons s ss)
  have "\<exists>q1 st1 as1. QUEUE_PUSH q s st = Some (q1, st1) \<and> queue_of q1 st1 sz as1 (ms @ [cstring s])"
  proof (cases "ms = []")
    case True
    then have "as = []" using Cons.prems(1) by (auto simp: queue_of_def)
    then show ?thesis using push_first [of q st sz s] Cons.prems(1) True by auto
  next
    case False
    then have "length ms < unat sz" using Cons.prems(2) by (cases ms) (auto simp: max_def split: if_splits)
    then show ?thesis using push_more [OF Cons.prems(1) False] by blast
  qed
  then obtain q1 st1 as1 where q1: "QUEUE_PUSH q s st = Some (q1, st1)" "queue_of q1 st1 sz as1 (ms @ [cstring s])" by blast
  then show ?case using Cons.IH [OF q1(2)] Cons.prems(2) by simp
qed auto

lemma no_nul_cstring: "CHR 0x00 \<notin> set (cstring s)"
  by (auto simp: cstring_def dest: set_takeWhileD)

text \<open>The data of the first element have no terminator, so every call that takes its length fails.\<close>

lemma front_unterminated:
  assumes "queue_of q st sz as (cstring s # ms)"
  shows "\<exists>f e b. q_front q = At f \<and> qs_elems st f = Some e \<and> el_data e = At b \<and> block_strlen b st = None"
proof -
  obtain f fs where as: "as = f # fs" "elem_text st f (cstring s)" "q_front q = At f" using assms by (auto simp: queue_of_def list_all2_Cons2)
  then show ?thesis using no_nul_cstring by (fastforce simp: elem_text_def block_strlen_def)
qed

lemma pop_undefined:
  assumes "queue_of q st sz as (cstring s # ms)" "Suc (length ms) < 2 ^ 32"
  shows "QUEUE_POP q st = None"
proof -
  obtain f e b where f: "q_front q = At f" "qs_elems st f = Some e" "el_data e = At b" "block_strlen b st = None"
    using front_unterminated [OF assms(1)] by blast
  have "q_core q = Some \<lparr>qc_locked = False, qc_size = sz\<rparr>" "q_count q = of_nat (Suc (length ms))" using assms(1) by (auto simp: queue_of_def)
  moreover have "of_nat (Suc (length ms)) \<noteq> (0 :: u32)" using assms(2) unfolding word_unat_eq_iff unat_of_nat by simp
  ultimately show ?thesis using f by (simp add: QUEUE_POP_def QUEUE_LOCK_def QUEUE_SIZE_def del: of_nat_Suc)
qed

lemma push_full_undefined:
  assumes "queue_of q st sz as (cstring s # ms)" "unat sz \<le> Suc (length ms)" "Suc (length ms) < 2 ^ 32"
  shows "QUEUE_PUSH q s' st = None"
proof -
  obtain f e b where f: "q_front q = At f" "qs_elems st f = Some e" "el_data e = At b" "block_strlen b st = None"
    using front_unterminated [OF assms(1)] by blast
  have q: "q_core q = Some \<lparr>qc_locked = False, qc_size = sz\<rparr>" "q_count q = of_nat (Suc (length ms))" using assms(1) by (auto simp: queue_of_def)
  have "\<not> (of_nat (Suc (length ms)) :: u32) < sz" using assms(2,3) unfolding word_less_nat_alt unat_of_nat by simp
  then show ?thesis using f q by (simp add: QUEUE_PUSH_def QUEUE_LOCK_def drop_front_def)
qed

definition q_empty :: "mem \<Rightarrow> q_sys" where
  "q_empty m = \<lparr>qs_elems = Map.empty, qs_text = Map.empty, qs_fresh = 0, qs_mem = m\<rparr>"

text \<open>
  C35: a queue of capacity \<open>sz\<close> takes messages and never gives one back. Up to \<open>sz\<close> pushes (one, if \<open>sz\<close> is
  0) succeed: the count is the number of messages, and the elements from the front on hold exactly their
  texts, first in, first out. But the text is stored without its terminator, so that on a queue that is not
  empty \<open>QUEUE_POP\<close> reads beyond the stored block, and so does a push into a full queue when it drops the
  oldest message: neither has a defined result. On an empty queue \<open>QUEUE_POP\<close> waits. The allocations are
  taken to succeed.
\<close>

theorem msg_queue_push_only:
  assumes "all_ok m" "length ss \<le> max 1 (unat sz)" "QUEUE_INIT q0 sz (q_empty m) = (q, st)"
  shows "\<exists>q' st'. push_all ss q st = Some (q', st') \<and> unat (QUEUE_SIZE q') = length ss \<and> read_queue (length ss) (q_front q') st' = Some (map cstring ss)
    \<and> QUEUE_POP q' st' = (if ss = [] then Some Waits else None)
    \<and> (ss \<noteq> [] \<and> unat sz \<le> length ss \<longrightarrow> QUEUE_PUSH q' s st' = None)"
proof -
  have "queue_of q st sz [] []" using init_queue_of [OF _ _ assms(3)] assms(1) by (simp add: q_empty_def fresh_above_def)
  then obtain q' st' as where q': "push_all ss q st = Some (q', st')" "queue_of q' st' sz as (map cstring ss)"
    using push_all_queue_of [of q st sz "[]" "[]" ss] assms(2) by auto
  have bound: "length ss < 2 ^ 32" using assms(2) unsigned_less [of sz, where ?'a = nat] by simp
  then have size: "unat (QUEUE_SIZE q') = length ss" using q'(2) by (simp add: queue_of_def QUEUE_SIZE_def unat_of_nat)
  show ?thesis
  proof (cases ss)
    case Nil
    then show ?thesis using q' size by (auto simp: queue_of_def QUEUE_POP_def QUEUE_LOCK_def QUEUE_SIZE_def)
  next
    case (Cons s' ss')
    have "read_queue (length ss) (q_front q') st' = Some (map cstring ss)"
      using read_queue_chain [of st' "q_front q'" as "map cstring ss"] q'(2) Cons by (auto simp: queue_of_def)
    moreover have "QUEUE_POP q' st' = None" using pop_undefined [of q' st' sz as s' "map cstring ss'"] q'(2) Cons bound by simp
    moreover have "QUEUE_PUSH q' s st' = None" if "unat sz \<le> length ss"
      using push_full_undefined [of q' st' sz as s' "map cstring ss'"] q'(2) Cons bound that by simp
    ultimately show ?thesis using q'(1) size Cons by auto
  qed
qed


theorem msg_queue_push_only_witness:
  "\<exists>q st q' st'. QUEUE_INIT \<lparr>q_node = Junk, q_core = None, q_rear = Junk, q_front = Junk, q_backrear = Junk, q_count = 7\<rparr> 2 (q_empty []) = (q, st)
    \<and> push_all [''abc'', ''123''] q st = Some (q', st') \<and> QUEUE_SIZE q' = 2 \<and> read_queue 2 (q_front q') st' = Some [''abc'', ''123'']
    \<and> QUEUE_POP q' st' = None \<and> QUEUE_PUSH q' ''456'' st' = None"
proof -
  let ?q = "\<lparr>q_node = Junk, q_core = None, q_rear = Junk, q_front = Junk, q_backrear = Junk, q_count = 7\<rparr>"
  obtain q st where q: "QUEUE_INIT ?q 2 (q_empty []) = (q, st)" by (cases "QUEUE_INIT ?q 2 (q_empty [])") blast
  have "\<exists>q' st'. push_all [''abc'', ''123''] q st = Some (q', st') \<and> unat (QUEUE_SIZE q') = length [''abc'', ''123'']
      \<and> read_queue (length [''abc'', ''123'']) (q_front q') st' = Some (map cstring [''abc'', ''123''])
      \<and> QUEUE_POP q' st' = (if [''abc'', ''123''] = [] then Some Waits else None)
      \<and> ([''abc'', ''123''] \<noteq> [] \<and> unat (2 :: u32) \<le> length [''abc'', ''123''] \<longrightarrow> QUEUE_PUSH q' ''456'' st' = None)"
    by (rule msg_queue_push_only [OF all_ok_Nil _ q]) simp
  then obtain q' st' where q': "push_all [''abc'', ''123''] q st = Some (q', st')" "unat (QUEUE_SIZE q') = 2"
      "read_queue 2 (q_front q') st' = Some [''abc'', ''123'']" "QUEUE_POP q' st' = None" "QUEUE_PUSH q' ''456'' st' = None"
    by (auto simp: cstring_def numeral_2_eq_2)
  have "QUEUE_SIZE q' = 2" using q'(2) by (simp add: word_unat_eq_iff)
  then show ?thesis using q q' by blast
qed

end
