(* ===== verification/Step_System.thy ===== *)
theory Step_System
  imports C_Prelude
begin

text \<open>
  Programs of several threads or processes: each action, named by a label, is a partial function on the state. The
  theory has the reachable states, runs along a list of labels, and the locale of an invariant. Its instances
  are the counting threads, the semaphore test, the chat programs and the message queue demonstrations.
\<close>

inductive reach :: "('l \<Rightarrow> 's \<Rightarrow> 's option) \<Rightarrow> 's \<Rightarrow> 's \<Rightarrow> bool" for act and s0 where
  reach_init: "reach act s0 s0"
| reach_act: "reach act s0 s \<Longrightarrow> act l s = Some s' \<Longrightarrow> reach act s0 s'"

fun run_labels :: "('l \<Rightarrow> 's \<Rightarrow> 's option) \<Rightarrow> 'l list \<Rightarrow> 's \<Rightarrow> 's option" where
  "run_labels act [] s = Some s"
| "run_labels act (l # ls) s = do { s \<leftarrow> act l s; run_labels act ls s }"

lemma run_labels_append: "run_labels act (ls @ ls') s = do { s \<leftarrow> run_labels act ls s; run_labels act ls' s }"
proof (induction ls arbitrary: s)
  case (Cons l ls)
  then show ?case by (cases "act l s") simp_all
qed simp

lemma run_labels_reach:
  assumes "reach act s0 s" "run_labels act ls s = Some s'"
  shows "reach act s0 s'"
  using assms
proof (induction ls arbitrary: s)
  case (Cons l ls)
  then obtain s1 where "act l s = Some s1" "run_labels act ls s1 = Some s'" by (auto split: bind_splits)
  then show ?case using Cons.IH [of s1] Cons.prems(1) by (blast intro: reach_act)
qed simp

lemma reach_run_labels: "reach act s0 s \<Longrightarrow> \<exists>ls. run_labels act ls s0 = Some s"
proof (induction rule: reach.induct)
  case reach_init
  show ?case by (rule exI [of _ "[]"]) simp
next
  case (reach_act s l s')
  then obtain ls where "run_labels act ls s0 = Some s" by blast
  then have "run_labels act (ls @ [l]) s0 = Some s'" using reach_act by (simp add: run_labels_append)
  then show ?case by blast
qed

lemma reach_iff_run: "reach act s0 s \<longleftrightarrow> (\<exists>ls. run_labels act ls s0 = Some s)"
  using run_labels_reach [OF reach_init, of act _ s0 s] reach_run_labels [of act s0 s] by blast

text \<open>An invariant: it holds at the start and every action keeps it.\<close>

locale step_invariant =
  fixes act :: "'l \<Rightarrow> 's \<Rightarrow> 's option"
    and s0 :: 's
    and inv :: "'s \<Rightarrow> bool"
  assumes inv_init: "inv s0"
    and inv_act: "inv s \<Longrightarrow> act l s = Some s' \<Longrightarrow> inv s'"
begin

lemma reach_inv: "reach act s0 s \<Longrightarrow> inv s"
  by (induction rule: reach.induct) (auto intro: inv_init inv_act)

end

text \<open>A system whose actions all lower a measure: it has no infinite run.\<close>

locale step_measure = step_invariant +
  fixes left :: "'s \<Rightarrow> nat"
  assumes left_act: "inv s \<Longrightarrow> act l s = Some s' \<Longrightarrow> left s' < left s"
begin

lemma run_bounded: "inv s \<Longrightarrow> run_labels act ls s = Some s' \<Longrightarrow> length ls + left s' \<le> left s"
proof (induction ls arbitrary: s)
  case (Cons l ls)
  then obtain s1 where s1: "act l s = Some s1" "run_labels act ls s1 = Some s'" by (auto split: bind_splits)
  then show ?case using Cons.IH [OF inv_act [OF Cons.prems(1) s1(1)] s1(2)] left_act [OF Cons.prems(1) s1(1)] by simp
qed simp

end

end
