(* ===== verification/Counter_Race.thy ===== *)
theory Counter_Race
  imports Step_System
begin

text \<open>
  The two counting threads of \<open>20170822/main.c\<close>. The calls that lock the mutex are commented out, so the
  increments of \<open>gnum\<close> race. Each \<open>gnum++\<close> is a load and a store here, and the threads interleave at these
  steps, with the variable read and written whole; the C standard itself calls the race undefined.
\<close>

section \<open>The threads\<close>

text \<open>
  A thread is in front of its load in iteration \<open>i\<close>, or between load and store with the value it loaded. It has
  ended when \<open>i\<close> is the number of its iterations.
\<close>

datatype pc = Before nat | Loaded nat int

record race_state =
  gnum :: int
  threads :: "pc list"

text \<open>The loops of \<open>pthread_func_1\<close> and \<open>pthread_func_2\<close> run three and six times.\<close>

definition rounds :: "nat list" where
  "rounds = [3, 6]"

fun pthread_func :: "nat \<Rightarrow> pc \<Rightarrow> int \<Rightarrow> (pc \<times> int) option" where
  "pthread_func n (Before i) g = (if i < n then Some (Loaded i g, g) else None)"
| "pthread_func n (Loaded i v) g = Some (Before (Suc i), v + 1)"

definition race_act :: "nat \<Rightarrow> race_state \<Rightarrow> race_state option" where
  "race_act k s =
     (if k < length rounds \<and> k < length (threads s)
      then do { (p, g) \<leftarrow> pthread_func (rounds ! k) (threads s ! k) (gnum s); Some (s\<lparr>gnum := g, threads := (threads s)[k := p]\<rparr>) }
      else None)"

definition race_init :: race_state where
  "race_init = \<lparr>gnum = 0, threads = [Before 0, Before 0]\<rparr>"

definition ended :: "race_state \<Rightarrow> bool" where
  "ended s \<longleftrightarrow> threads s = [Before 3, Before 6]"

fun stores :: "pc \<Rightarrow> nat" where
  "stores (Before i) = i"
| "stores (Loaded i v) = i"

text \<open>
  What holds of the variable and of a loaded value: they are at most the number of stores done and at
  least 0, and at least 1 once the thread itself has stored. The last store is the last one of its thread, which
  has stored before.
\<close>

fun pc_ok :: "nat \<Rightarrow> int \<Rightarrow> int \<Rightarrow> pc \<Rightarrow> bool" where
  "pc_ok n g tot (Before i) \<longleftrightarrow> i \<le> n \<and> (0 < i \<longrightarrow> 1 \<le> g)"
| "pc_ok n g tot (Loaded i v) \<longleftrightarrow> i < n \<and> 0 \<le> v \<and> v \<le> tot \<and> (0 < i \<longrightarrow> 1 \<le> g \<and> 1 \<le> v)"

definition race_inv :: "race_state \<Rightarrow> bool" where
  "race_inv s \<longleftrightarrow> (\<exists>p q. threads s = [p, q] \<and> (let tot = int (stores p + stores q) in
     0 \<le> gnum s \<and> gnum s \<le> tot \<and> pc_ok 3 (gnum s) tot p \<and> pc_ok 6 (gnum s) tot q)) \<and> (ended s \<longrightarrow> 2 \<le> gnum s)"

lemma race_inv_init: "race_inv race_init"
  by (simp add: race_inv_def race_init_def ended_def)

lemma pc_ok_mono: "pc_ok n g tot p \<Longrightarrow> 1 \<le> g' \<Longrightarrow> tot \<le> tot' \<Longrightarrow> pc_ok n g' tot' p"
  by (cases p) auto

lemma pthread_func_ok:
  assumes "pthread_func n p g = Some (p', g')" "pc_ok n g tot p" "0 \<le> g" "g \<le> tot" "tot = int (stores p) + rest"
  shows "stores p \<le> stores p'" "pc_ok n g' (int (stores p') + rest) p'" "0 \<le> g'" "g' \<le> int (stores p') + rest" "g' = g \<or> 1 \<le> g'"
    and "p' = Before n \<Longrightarrow> 2 \<le> n \<Longrightarrow> 2 \<le> g'"
  using assms by (cases p; auto split: if_splits)+

lemma race_inv_act:
  assumes "race_inv s" "race_act k s = Some s'"
  shows "race_inv s'"
proof -
  obtain p q where pq: "threads s = [p, q]" "0 \<le> gnum s" "gnum s \<le> int (stores p) + int (stores q)"
      "pc_ok 3 (gnum s) (int (stores p) + int (stores q)) p" "pc_ok 6 (gnum s) (int (stores p) + int (stores q)) q"
    using assms(1) by (auto simp: race_inv_def Let_def)
  obtain p' g where k: "k < length rounds" "pthread_func (rounds ! k) (threads s ! k) (gnum s) = Some (p', g)" "s' = s\<lparr>gnum := g, threads := (threads s)[k := p']\<rparr>"
    using assms(2) by (auto simp: race_act_def split: if_splits bind_splits)
  have frame: "pc_ok n g (t + int (stores p')) r" if "pc_ok n (gnum s) (t + u) r" "g = gnum s \<or> 1 \<le> g" "u \<le> int (stores p')" for n t u r
    using that by (cases r) auto
  consider "k = 0" | "k = 1" using k(1) by (auto simp: rounds_def less_Suc_eq)
  then show ?thesis
  proof cases
    case 1
    then have run: "pthread_func 3 p (gnum s) = Some (p', g)" using k(2) pq(1) by (simp add: rounds_def)
    note ok = pthread_func_ok [OF run pq(4,2,3) refl]
    have "pc_ok 6 g (int (stores p') + int (stores q)) q" using frame [of 6 "int (stores q)" "int (stores p)" q] pq(5) ok(1,5) by (simp add: add.commute)
    then show ?thesis using ok k(3) pq(1) 1 by (auto simp: race_inv_def Let_def ended_def)
  next
    case 2
    then have run: "pthread_func 6 q (gnum s) = Some (p', g)" using k(2) pq(1) by (simp add: rounds_def)
    have sum: "int (stores p) + int (stores q) = int (stores q) + int (stores p)" by simp
    note ok = pthread_func_ok [OF run pq(5,2,3) sum]
    have "pc_ok 3 g (int (stores p) + int (stores p')) p" using frame [of 3 "int (stores p)" "int (stores q)" p] pq(4) ok(1,5) by simp
    then show ?thesis using ok k(3) pq(1) 2 by (auto simp: race_inv_def Let_def ended_def add.commute)
  qed
qed

text \<open>The steps a thread still has to make.\<close>

fun steps_left :: "nat \<Rightarrow> pc \<Rightarrow> nat" where
  "steps_left n (Before i) = 2 * (n - i)"
| "steps_left n (Loaded i v) = 2 * (n - i) - 1"

definition race_left :: "race_state \<Rightarrow> nat" where
  "race_left s = steps_left 3 (threads s ! 0) + steps_left 6 (threads s ! 1)"

lemma pthread_func_left: "pthread_func n p g = Some (p', g') \<Longrightarrow> pc_ok n g tot p \<Longrightarrow> steps_left n p' < steps_left n p"
  by (cases p) (auto split: if_splits)

lemma race_left_act:
  assumes "race_inv s" "race_act k s = Some s'"
  shows "race_left s' < race_left s"
proof -
  obtain p q tot where pq: "threads s = [p, q]" "pc_ok 3 (gnum s) tot p" "pc_ok 6 (gnum s) tot q"
    using assms(1) unfolding race_inv_def Let_def by blast
  obtain p' g where k: "k < length rounds" "pthread_func (rounds ! k) (threads s ! k) (gnum s) = Some (p', g)" "s' = s\<lparr>gnum := g, threads := (threads s)[k := p']\<rparr>"
    using assms(2) by (auto simp: race_act_def split: if_splits bind_splits)
  consider "k = 0" | "k = 1" using k(1) by (auto simp: rounds_def less_Suc_eq)
  then show ?thesis using k(2,3) pq by cases (auto simp: race_left_def rounds_def dest: pthread_func_left)
qed

interpretation race: step_measure race_act race_init race_inv race_left
  by unfold_locales (auto intro: race_inv_init race_inv_act race_left_act)

text \<open>A thread that has not ended can make its next step, whatever the other one does.\<close>

lemma race_progress:
  assumes "race_inv s" "\<not> ended s"
  shows "\<exists>k s'. race_act k s = Some s'"
proof -
  obtain p q tot where pq: "threads s = [p, q]" "pc_ok 3 (gnum s) tot p" "pc_ok 6 (gnum s) tot q"
    using assms(1) unfolding race_inv_def Let_def by blast
  then have "pthread_func 3 p (gnum s) \<noteq> None \<or> pthread_func 6 q (gnum s) \<noteq> None"
    using assms(2) by (cases p; cases q) (auto simp: ended_def)
  then have "race_act 0 s \<noteq> None \<or> race_act 1 s \<noteq> None" using pq(1) by (auto simp: race_act_def rounds_def split: bind_splits)
  then show ?thesis by blast
qed

section \<open>Runs\<close>

text \<open>
  The first thread loads, the second completes \<open>m\<close> rounds, and the store of the first one loses them; and
  the run in which both threads lose what they can.
\<close>

definition lose :: "nat \<Rightarrow> nat list" where
  "lose m = 0 # replicate (2 * m) 1 @ replicate 5 0 @ replicate (12 - 2 * m) 1"

definition lose_most :: "nat list" where
  "lose_most = 0 # replicate 10 1 @ [0, 1] @ replicate 4 0 @ [1]"

lemma eval_runs:
  "m \<in> {0, 1, 2, 3, 4, 5, 6} \<Longrightarrow> run_labels race_act (lose m) race_init = Some \<lparr>gnum = 9 - int m, threads = [Before 3, Before 6]\<rparr>"
  "run_labels race_act lose_most race_init = Some \<lparr>gnum = 2, threads = [Before 3, Before 6]\<rparr>"
  by (auto simp: lose_def lose_most_def race_init_def race_act_def rounds_def numeral_eq_Suc)

text \<open>
  C36: without the mutex the counter ends anywhere from 2 to 9. The two threads make nine increments, but
  because load and store of different threads interleave, every value from 2 to 9, and no other, is a
  possible value of \<open>gnum\<close> when both have ended.
\<close>

theorem race_outcomes: "gnum ` {s. reach race_act race_init s \<and> ended s} = {2..9}"
proof (intro subset_antisym subsetI)
  fix v assume "v \<in> gnum ` {s. reach race_act race_init s \<and> ended s}"
  then obtain s where s: "v = gnum s" "race_inv s" "ended s" by (auto dest: race.reach_inv)
  then show "v \<in> {2..9}" by (auto simp: race_inv_def ended_def Let_def)
next
  fix v :: int assume v: "v \<in> {2..9}"
  have "\<exists>ls. run_labels race_act ls race_init = Some \<lparr>gnum = v, threads = [Before 3, Before 6]\<rparr>"
  proof (cases "v = 2")
    case True
    then show ?thesis using eval_runs(2) by blast
  next
    case False
    then have "nat (9 - v) \<in> {0, 1, 2, 3, 4, 5, 6}" "9 - int (nat (9 - v)) = v" using v by auto
    then show ?thesis using eval_runs(1) [of "nat (9 - v)"] by auto
  qed
  then have "reach race_act race_init \<lparr>gnum = v, threads = [Before 3, Before 6]\<rparr>" by (simp add: reach_iff_run)
  then show "v \<in> gnum ` {s. reach race_act race_init s \<and> ended s}" by (force simp: ended_def)
qed

text \<open>
  the two threads always come to an end: no run has more than 18 steps, and as long as one of the threads
  has not ended a step is possible.
\<close>

theorem race_ends:
  assumes "run_labels race_act ls race_init = Some s"
  shows "length ls \<le> 18 \<and> (ended s \<or> (\<exists>k s'. race_act k s = Some s'))"
proof -
  have "race_inv s" using assms by (intro race.reach_inv) (auto simp: reach_iff_run)
  then show ?thesis using race.run_bounded [OF race_inv_init assms] race_progress [of s] by (auto simp: race_left_def race_init_def)
qed

theorem race_ends_witness: "\<exists>s. run_labels race_act lose_most race_init = Some s \<and> (ended s \<or> (\<exists>k s'. race_act k s = Some s'))"
  using race_ends [OF eval_runs(2)] eval_runs(2) by blast

end
