(* ===== verification/Ntp_Client.thy ===== *)
theory Ntp_Client
  imports C_Prelude Complex_Main
begin

unbundle bit_operations_syntax

text \<open>
  The network time client \<open>20181212ntp/ntp.c\<close> on a little-endian machine. Packets are lists of bytes, with the
  layout of \<open>struct ntphdr\<close>; floating point arithmetic and the answers of the operating system are arguments.
\<close>

section \<open>Words in memory\<close>

text \<open>\<open>htonl\<close> and \<open>ntohl\<close> swap the bytes; a 32-bit number is stored with its lowest byte first.\<close>

definition byte_of :: "nat \<Rightarrow> u32 \<Rightarrow> u8" where
  "byte_of k x = ucast (drop_bit (8 * k) x)"

definition word_of_bytes :: "u8 \<Rightarrow> u8 \<Rightarrow> u8 \<Rightarrow> u8 \<Rightarrow> u32" where
  "word_of_bytes a b c d = ucast a OR push_bit 8 (ucast b) OR push_bit 16 (ucast c) OR push_bit 24 (ucast d)"

definition htonl :: "u32 \<Rightarrow> u32" where
  "htonl x = word_of_bytes (byte_of 3 x) (byte_of 2 x) (byte_of 1 x) (byte_of 0 x)"

definition ntohl :: "u32 \<Rightarrow> u32" where
  "ntohl x = htonl x"

definition store32 :: "nat \<Rightarrow> u32 \<Rightarrow> u8 list \<Rightarrow> u8 list" where
  "store32 off x buf = buf[off := byte_of 0 x, off + 1 := byte_of 1 x, off + 2 := byte_of 2 x, off + 3 := byte_of 3 x]"

definition load32 :: "u8 list \<Rightarrow> nat \<Rightarrow> u32 option" where
  "load32 buf off = do {
     a \<leftarrow> nth_opt buf off;
     b \<leftarrow> nth_opt buf (off + 1);
     c \<leftarrow> nth_opt buf (off + 2);
     d \<leftarrow> nth_opt buf (off + 3);
     Some (word_of_bytes a b c d)
   }"

section \<open>Times\<close>

record timeval =
  tv_sec :: int
  tv_usec :: int

text \<open>The operations of \<open>double\<close> that the code uses: conversion, arithmetic, and truncation to an integer.\<close>

record 'd dbl =
  d_int :: "int \<Rightarrow> 'd"
  d_add :: "'d \<Rightarrow> 'd \<Rightarrow> 'd"
  d_sub :: "'d \<Rightarrow> 'd \<Rightarrow> 'd"
  d_mul :: "'d \<Rightarrow> 'd \<Rightarrow> 'd"
  d_div :: "'d \<Rightarrow> 'd \<Rightarrow> 'd"
  d_trunc :: "'d \<Rightarrow> int"

definition JAN_1970 :: u32 where
  "JAN_1970 = 0x83aa7e80"

definition USEC2FRAC :: "'d dbl \<Rightarrow> int \<Rightarrow> u32" where
  "USEC2FRAC fp x = word_of_int (d_trunc fp (d_mul fp (d_div fp (d_int fp x) (d_int fp 1000000)) (d_int fp (2 ^ 32))))"

definition FRAC2USEC :: "'d dbl \<Rightarrow> u32 \<Rightarrow> u32" where
  "FRAC2USEC fp x = word_of_int (d_trunc fp (d_div fp (d_mul fp (d_int fp (uint x)) (d_int fp 1000000)) (d_int fp (2 ^ 32))))"

text \<open>A time stamp at an offset of a packet, in seconds since 1970; the subtraction wraps at 32 bits.\<close>

definition NTP_LFIXED2DOUBLE :: "'d dbl \<Rightarrow> u8 list \<Rightarrow> nat \<Rightarrow> 'd option" where
  "NTP_LFIXED2DOUBLE fp buf off = do {
     intpart \<leftarrow> load32 buf off;
     fracpart \<leftarrow> load32 buf (off + 4);
     Some (d_add fp (d_int fp (uint (ntohl intpart - JAN_1970)))
       (d_div fp (d_int fp (uint (FRAC2USEC fp (ntohl fracpart)))) (d_int fp 1000000)))
   }"

definition timeval2double :: "'d dbl \<Rightarrow> timeval \<Rightarrow> 'd" where
  "timeval2double fp tv = d_add fp (d_int fp (tv_sec tv)) (d_div fp (d_int fp (tv_usec tv)) (d_int fp 1000000))"

section \<open>The packet\<close>

text \<open>Offsets of the members of \<open>struct ntphdr\<close>; the first byte holds three bit-fields.\<close>

definition NTP_HLEN :: nat where
  "NTP_HLEN = 48"

definition ntp_orits :: nat where
  "ntp_orits = 24"

definition ntp_recvts :: nat where
  "ntp_recvts = 32"

definition ntp_transts :: nat where
  "ntp_transts = 40"

definition set_ntp_li :: "u8 \<Rightarrow> u8 \<Rightarrow> u8" where
  "set_ntp_li v b = (b AND 0x3F) OR push_bit 6 (v AND 3)"

definition set_ntp_vn :: "u8 \<Rightarrow> u8 \<Rightarrow> u8" where
  "set_ntp_vn v b = (b AND 0xC7) OR push_bit 3 (v AND 7)"

definition set_ntp_mode :: "u8 \<Rightarrow> u8 \<Rightarrow> u8" where
  "set_ntp_mode v b = (b AND 0xF8) OR (v AND 7)"

definition get_ntp_packet :: "'d dbl \<Rightarrow> timeval \<Rightarrow> u8 list \<Rightarrow> nat option \<Rightarrow> (int \<times> u8 list \<times> nat option) option" where
  "get_ntp_packet fp tv buf sz =
     (case sz of
        None \<Rightarrow> Some (-1, buf, sz)
      | Some n \<Rightarrow>
          if n < NTP_HLEN then Some (-1, buf, sz)
          else if length buf < n then None
          else
            let buf = replicate n 0 @ drop n buf;
                buf = buf[0 := set_ntp_li 0 (buf ! 0)];
                buf = buf[0 := set_ntp_vn 3 (buf ! 0)];
                buf = buf[0 := set_ntp_mode 3 (buf ! 0)];
                buf = buf[1 := 0];
                buf = buf[2 := 4];
                buf = buf[3 := - 6];
                buf = store32 ntp_transts (htonl (word_of_int (tv_sec tv) + JAN_1970)) buf;
                buf = store32 (ntp_transts + 4) (htonl (USEC2FRAC fp (tv_usec tv))) buf
            in Some (0, buf, Some NTP_HLEN))"

definition get_rrt :: "'d dbl \<Rightarrow> u8 list \<Rightarrow> timeval \<Rightarrow> 'd option" where
  "get_rrt fp ntp recvtv = do {
     t1 \<leftarrow> NTP_LFIXED2DOUBLE fp ntp ntp_orits;
     t2 \<leftarrow> NTP_LFIXED2DOUBLE fp ntp ntp_recvts;
     t3 \<leftarrow> NTP_LFIXED2DOUBLE fp ntp ntp_transts;
     let t4 = timeval2double fp recvtv;
     Some (d_sub fp (d_sub fp t4 t1) (d_sub fp t3 t2))
   }"

definition get_offset :: "'d dbl \<Rightarrow> u8 list \<Rightarrow> timeval \<Rightarrow> 'd option" where
  "get_offset fp ntp recvtv = do {
     t1 \<leftarrow> NTP_LFIXED2DOUBLE fp ntp ntp_orits;
     t2 \<leftarrow> NTP_LFIXED2DOUBLE fp ntp ntp_recvts;
     t3 \<leftarrow> NTP_LFIXED2DOUBLE fp ntp ntp_transts;
     let t4 = timeval2double fp recvtv;
     Some (d_div fp (d_add fp (d_sub fp t2 t1) (d_sub fp t3 t4)) (d_int fp 2))
   }"

section \<open>The client\<close>

text \<open>The address of a host, from the answers of \<open>inet_addr\<close> and \<open>gethostbyname\<close>; the client does not look for the error value.\<close>

definition INADDR_NONE :: u32 where
  "INADDR_NONE = 0xFFFFFFFF"

definition inet_host :: "u32 \<Rightarrow> u32 option \<Rightarrow> u32" where
  "inet_host saddr hostent = (if saddr = INADDR_NONE then (case hostent of None \<Rightarrow> INADDR_NONE | Some a \<Rightarrow> a) else saddr)"

text \<open>
  The answers of the system calls, in their order: \<open>inet_addr\<close> and \<open>gethostbyname\<close> for the server, \<open>socket\<close>,
  \<open>connect\<close> to an address, the time for the request, \<open>select\<close> and
  \<open>FD_ISSET\<close>, \<open>recv\<close> with the bytes it writes, the two later readings of the clock, and \<open>settimeofday\<close>.
\<close>

record ntp_env =
  ne_inet_addr :: u32
  ne_byname :: "u32 option"
  ne_socket :: int
  ne_connect :: "u32 \<Rightarrow> int"
  ne_time_sent :: timeval
  ne_select :: int
  ne_isset :: bool
  ne_recv :: int
  ne_data :: "u8 list"
  ne_time_received :: timeval
  ne_time_now :: timeval
  ne_settime :: int

definition BUFSIZE :: nat where
  "BUFSIZE = 1500"

definition receive :: "u8 list \<Rightarrow> u8 list \<Rightarrow> u8 list" where
  "receive bytes buf = take (length buf) bytes @ drop (length bytes) buf"

text \<open>The cast of the offset to \<open>int\<close> is undefined outside the range of \<open>int\<close>.\<close>

definition new_time :: "'d dbl \<Rightarrow> 'd \<Rightarrow> timeval \<Rightarrow> timeval option" where
  "new_time fp offset tv = (let whole = d_trunc fp offset in
     if whole < - (2 ^ 31) \<or> 2 ^ 31 \<le> whole then None
     else Some \<lparr>tv_sec = tv_sec tv + whole,
      tv_usec = d_trunc fp (d_add fp (d_int fp (tv_usec tv)) (d_sub fp offset (d_int fp whole)))\<rparr>)"

text \<open>The exit code, and the time that is set, if any. The result of \<open>recv\<close> is kept in a \<open>size_t\<close>.\<close>

definition ntp_main :: "'d dbl \<Rightarrow> ntp_env \<Rightarrow> u8 list \<Rightarrow> (int \<times> timeval option) option" where
  "ntp_main fp env buf =
     (if ne_socket env < 0 then Some (-1, None)
      else if ne_connect env (inet_host (ne_inet_addr env) (ne_byname env)) \<noteq> 0 then Some (-1, None)
      else do {
        (r, buf, nbytes) \<leftarrow> get_ntp_packet fp (ne_time_sent env) buf (Some BUFSIZE);
        (if r \<noteq> 0 then Some (-1, None)
         else if 0 < ne_select env \<and> ne_isset env then
           (if (word_of_int (ne_recv env) :: 64 word) < 0 then Some (-1, None)
            else do {
              offset \<leftarrow> get_offset fp (receive (ne_data env) buf) (ne_time_received env);
              tv \<leftarrow> new_time fp offset (ne_time_now env);
              Some (if ne_settime env \<noteq> 0 then -1 else 0, Some tv)
            })
         else Some (0, None))
      })"


section \<open>Byte order\<close>

lemma bit_u8: "bit (a :: u8) n \<Longrightarrow> n < 8"
  using bit_imp_le_length [of a n] by simp

lemma byte_of_word [simp]:
  "byte_of 0 (word_of_bytes a b c d) = a"
  "byte_of (Suc 0) (word_of_bytes a b c d) = b"
  "byte_of 2 (word_of_bytes a b c d) = c"
  "byte_of 3 (word_of_bytes a b c d) = d"
  by (rule bit_word_eqI; auto simp: byte_of_def word_of_bytes_def bit_simps dest: bit_u8)+

lemma word_of_byte_of [simp]: "word_of_bytes (byte_of 0 x) (byte_of (Suc 0) x) (byte_of 2 x) (byte_of 3 x) = x"
proof (rule bit_word_eqI)
  fix n assume "n < LENGTH(32)"
  then consider "n < 8" | "8 \<le> n" "n < 16" | "16 \<le> n" "n < 24" | "24 \<le> n" "n < 32" by fastforce
  then show "bit (word_of_bytes (byte_of 0 x) (byte_of (Suc 0) x) (byte_of 2 x) (byte_of 3 x)) n = bit x n"
    by cases (auto simp: byte_of_def word_of_bytes_def bit_simps)
qed

lemma ntohl_htonl [simp]: "ntohl (htonl x) = x"
  by (simp add: ntohl_def htonl_def)

lemma length_store32 [simp]: "length (store32 off x buf) = length buf"
  by (simp add: store32_def)

lemma load_store32: "off + 4 \<le> length buf \<Longrightarrow> load32 (store32 off x buf) off = Some x"
  by (simp add: load32_def store32_def nth_opt_def)

lemma load_store32_other: "off + 4 \<le> off' \<or> off' + 4 \<le> off \<Longrightarrow> load32 (store32 off' x buf) off = load32 buf off"
  by (auto simp: load32_def store32_def nth_opt_def)


section \<open>The request\<close>

definition be_bytes :: "u32 \<Rightarrow> u8 list" where
  "be_bytes x = [byte_of 3 x, byte_of 2 x, byte_of 1 x, byte_of 0 x]"

lemma store32_append: "length xs = off \<Longrightarrow> length ys = 4 \<Longrightarrow> store32 off x (xs @ ys @ zs) = xs @ map (\<lambda>k. byte_of k x) [0, 1, 2, 3] @ zs"
  by (cases ys rule: list.exhaust [case_product list.exhaust]; auto simp: store32_def list_update_append)
    (auto simp: length_Suc_conv numeral_eq_Suc)

lemma first_byte: "set_ntp_mode 3 (set_ntp_vn 3 (set_ntp_li 0 0)) = 0x1B"
  by (simp add: set_ntp_mode_def set_ntp_vn_def set_ntp_li_def)


text \<open>The bytes of a request: the four leading bytes, nine empty words, and the time of sending.\<close>

definition ntp_request :: "'d dbl \<Rightarrow> timeval \<Rightarrow> u8 list" where
  "ntp_request fp tv = [0x1B, 0, 4, 0xFA] @ replicate 36 0 @ be_bytes (word_of_int (tv_sec tv) + JAN_1970) @ be_bytes (USEC2FRAC fp (tv_usec tv))"

lemma zeros_split: "48 \<le> n \<Longrightarrow> replicate n (0 :: u8) = [0, 0, 0, 0] @ replicate 36 0 @ replicate 4 0 @ replicate 4 0 @ replicate (n - 48) 0"
proof -
  assume "48 \<le> n"
  then have "replicate n (0 :: u8) = replicate 4 0 @ replicate 36 0 @ replicate 4 0 @ replicate 4 0 @ replicate (n - 48) 0"
    by (simp flip: replicate_add)
  then show ?thesis by (simp add: numeral_eq_Suc)
qed

lemma get_ntp_packet_eq:
  assumes "48 \<le> n" "n \<le> length buf"
  shows "get_ntp_packet fp tv buf (Some n) = Some (0, ntp_request fp tv @ replicate (n - 48) 0 @ drop n buf, Some 48)"
proof -
  let ?zs = "replicate (n - 48) 0 @ drop n buf" and ?sec = "htonl (word_of_int (tv_sec tv) + JAN_1970)" and ?frac = "htonl (USEC2FRAC fp (tv_usec tv))"
  let ?h = "[0x1B, 0, 4, - 6] :: u8 list"
  have sec: "store32 40 ?sec ((?h @ replicate 36 0) @ replicate 4 0 @ replicate 4 0 @ ?zs)
      = (?h @ replicate 36 0) @ map (\<lambda>k. byte_of k ?sec) [0, 1, 2, 3] @ replicate 4 0 @ ?zs"
    by (rule store32_append) simp_all
  have frac: "store32 44 ?frac (((?h @ replicate 36 0) @ map (\<lambda>k. byte_of k ?sec) [0, 1, 2, 3]) @ replicate 4 0 @ ?zs)
      = ((?h @ replicate 36 0) @ map (\<lambda>k. byte_of k ?sec) [0, 1, 2, 3]) @ map (\<lambda>k. byte_of k ?frac) [0, 1, 2, 3] @ ?zs"
    by (rule store32_append) simp_all
  have head: "((((([0, 0, 0, 0] @ ys)[0 := set_ntp_li 0 0])[0 := set_ntp_vn 3 (set_ntp_li 0 0)])[0 := 0x1B, 1 := 0])[2 := 4])[3 := - 6] = ?h @ ys" for ys :: "u8 list"
    by (simp add: numeral_eq_Suc)
  have "get_ntp_packet fp tv buf (Some n) = Some (0, store32 44 ?frac (store32 40 ?sec (?h @ replicate 36 0 @ replicate 4 0 @ replicate 4 0 @ ?zs)), Some 48)"
    using assms head first_byte zeros_split [OF assms(1)]
    by (simp add: get_ntp_packet_def NTP_HLEN_def ntp_transts_def Let_def)
  then show ?thesis using sec frac by (simp add: ntp_request_def be_bytes_def htonl_def)
qed


lemma load_request_seconds: "\<exists>w. load32 (ntp_request fp tv @ zs) 40 = Some w \<and> ntohl w - JAN_1970 = word_of_int (tv_sec tv)"
proof -
  let ?x = "word_of_int (tv_sec tv) + JAN_1970" and ?h = "[0x1B, 0, 4, 0xFA] @ replicate 36 0 :: u8 list"
  have buf: "ntp_request fp tv @ zs = ?h @ be_bytes ?x @ be_bytes (USEC2FRAC fp (tv_usec tv)) @ zs" by (simp add: ntp_request_def)
  have load: "load32 (xs @ be_bytes x @ ys) 40 = Some (htonl x)" if "length xs = 40" for xs ys and x :: u32
    using that by (simp add: load32_def nth_opt_def nth_append be_bytes_def htonl_def)
  have "load32 (ntp_request fp tv @ zs) 40 = Some (htonl ?x)" unfolding buf by (rule load) simp
  then show ?thesis by simp
qed

text \<open>
  C37: \<open>get_ntp_packet\<close> builds an NTP version 3 client request. Without a size, or with one below 48, it returns -1
  and changes nothing; otherwise it fills the first 48 bytes with the request (leap indicator 0, version 3,
  mode 3, stratum 0, poll interval 4, precision -6, zeros, and the time of sending in network byte order), clears
  the rest up to the size, leaves the bytes behind it and reports a size of 48. The seconds that
  \<open>NTP_LFIXED2DOUBLE\<close> reads from the request are the seconds of the clock modulo 2 to the power of 32: the shift
  between the two epochs wraps in both directions, also beyond the year 2036.
\<close>

theorem ntp_request_correct:
  assumes "n \<le> length buf"
  shows "get_ntp_packet fp tv buf None = Some (-1, buf, None) \<and>
    (if n < 48 then get_ntp_packet fp tv buf (Some n) = Some (-1, buf, Some n)
     else \<exists>buf'. get_ntp_packet fp tv buf (Some n) = Some (0, buf', Some 48) \<and> take 48 buf' = ntp_request fp tv
       \<and> drop 48 buf' = replicate (n - 48) 0 @ drop n buf
       \<and> (\<exists>w. load32 buf' ntp_transts = Some w \<and> ntohl w - JAN_1970 = word_of_int (tv_sec tv)))"
proof (cases "n < 48")
  case True
  then show ?thesis by (simp add: get_ntp_packet_def NTP_HLEN_def)
next
  case False
  have "length (ntp_request fp tv) = 48" by (simp add: ntp_request_def be_bytes_def)
  then show ?thesis using False get_ntp_packet_eq [OF _ assms, of fp tv] load_request_seconds [of fp tv "replicate (n - 48) 0 @ drop n buf"]
    by (simp add: get_ntp_packet_def [of fp tv buf None] ntp_transts_def)
qed

text \<open>Exact arithmetic as an instance of the floating point operations.\<close>

definition real_dbl :: "real dbl" where
  "real_dbl = \<lparr>d_int = of_int, d_add = (+), d_sub = (-), d_mul = (*), d_div = (/), d_trunc = (\<lambda>x. if x < 0 then \<lceil>x\<rceil> else \<lfloor>x\<rfloor>)\<rparr>"

theorem ntp_request_correct_witness:
  "\<exists>buf'. get_ntp_packet real_dbl \<lparr>tv_sec = 1544600000, tv_usec = 500000\<rparr> (replicate 50 7) (Some 49) = Some (0, buf', Some 48)
    \<and> take 4 buf' = [0x1B, 0, 4, 0xFA] \<and> drop 40 buf' = be_bytes (1544600000 + JAN_1970) @ be_bytes 0x80000000 @ [0, 7]"
proof -
  let ?tv = "\<lparr>tv_sec = 1544600000, tv_usec = 500000\<rparr>"
  have frac: "USEC2FRAC real_dbl 500000 = 0x80000000" by (simp add: USEC2FRAC_def real_dbl_def)
  have "\<exists>buf'. get_ntp_packet real_dbl ?tv (replicate 50 7) (Some 49) = Some (0, buf', Some 48)
      \<and> take 48 buf' = ntp_request real_dbl ?tv \<and> drop 48 buf' = replicate (49 - 48) 0 @ drop 49 (replicate 50 7)"
    using ntp_request_correct [of 49 "replicate 50 7" real_dbl ?tv] by auto
  then obtain buf' where buf': "get_ntp_packet real_dbl ?tv (replicate 50 7) (Some 49) = Some (0, buf', Some 48)"
      "take 48 buf' = ntp_request real_dbl ?tv" "drop 48 buf' = [0, 7]" by auto
  have eq: "buf' = ntp_request real_dbl ?tv @ [0, 7]" using append_take_drop_id [of 48 buf'] buf'(2,3) by simp
  show ?thesis by (rule exI [of _ buf'], intro conjI buf'(1)) (simp_all add: eq ntp_request_def frac be_bytes_def drop_append)
qed

section \<open>What the client gets wrong\<close>

text \<open>The fraction of the offset is added to the microseconds as it is: half a second is lost.\<close>

lemma ntp_fraction_lost: "new_time real_dbl (3 / 2) \<lparr>tv_sec = 10, tv_usec = 20\<rparr> = Some \<lparr>tv_sec = 11, tv_usec = 20\<rparr>"
  by (simp add: new_time_def real_dbl_def Let_def floor_eq_iff)

text \<open>
  The test of \<open>recv\<close> for a negative result never fires, since the result is kept in an unsigned variable: after an
  error the client sets its clock from the bytes of its own request.
\<close>

lemma ntp_recv_error_ignored:
  assumes "0 \<le> ne_socket env" "ne_connect env (inet_host (ne_inet_addr env) (ne_byname env)) = 0" "0 < ne_select env" "ne_isset env" "ne_recv env = -1" "ne_data env = []" "length buf = BUFSIZE"
    and "get_offset fp (ntp_request fp (ne_time_sent env) @ replicate 1452 0) (ne_time_received env) = Some offset"
    and "new_time fp offset (ne_time_now env) = Some tv"
  shows "ntp_main fp env buf = Some (if ne_settime env \<noteq> 0 then -1 else 0, Some tv)"
  using assms get_ntp_packet_eq [of BUFSIZE buf fp "ne_time_sent env"]
  by (simp add: ntp_main_def receive_def BUFSIZE_def)

end
