(* ===== verification/Chat.thy ===== *)
theory Chat
  imports Step_System C_Stdio
begin

text \<open>
  The chat server and client of \<open>20170815/server.c\<close> and \<open>client.c\<close> after the connection is set up: each side sends a
  line, then waits for one, with a buffer of \<open>BUFLEN\<close> bytes. The connection is a stream of bytes in each
  direction, from which \<open>recv\<close> takes any number of the bytes that have arrived. What is typed is an argument.
\<close>

section \<open>Sending a line\<close>

definition BUFLEN :: nat where
  "BUFLEN = 20"

text \<open>\<open>starts_ci p buf\<close> is \<open>!strncasecmp (buf, p, strlen (p))\<close> for \<open>p\<close> in lower case.\<close>

definition starts_ci :: "string \<Rightarrow> string \<Rightarrow> bool" where
  "starts_ci p buf \<longleftrightarrow> map tolower (take (length p) buf) = p"

text \<open>The cleared buffer after \<open>fgets\<close>, and the input left.\<close>

definition read_line :: "string \<Rightarrow> string \<times> string" where
  "read_line inp = (case fgets (int BUFLEN) inp of None \<Rightarrow> ([], inp) | Some (chunk, st) \<Rightarrow> (cstring chunk, st_rest st))"

text \<open>
  What the sending part does with the next line: it leaves the loop (for the word quit, and when \<open>send\<close> of no
  bytes returns 0), it asks again for an empty line, or it sends the line without its newline.
\<close>

datatype composed = Leave | Again | Tell string

definition compose :: "string \<Rightarrow> composed \<times> string" where
  "compose inp = (case read_line inp of (buf, rest) \<Rightarrow>
     (if starts_ci ''quit'' buf then Leave
      else if take 1 buf = [CHR 0x0A] then Again
      else let msg = (if CHR 0x0A \<in> set buf then butlast buf else buf)
           in if msg = [] then Leave else Tell msg, rest))"

section \<open>The two programs\<close>

datatype side = Server | Client

fun other :: "side \<Rightarrow> side" where
  "other Server = Client"
| "other Client = Server"

text \<open>
  A side is sending, receiving, or elsewhere: the server asks whether to stop after a conversation and then
  waits for the next client. In \<open>Overrun\<close> it has passed an unterminated buffer to \<open>printf\<close>, which is undefined.
\<close>

datatype phase = Accepting | Telling | Hearing | Asking | Stopped | Overrun

text \<open>\<open>told\<close> and \<open>heard\<close> list what the side has sent and printed in this conversation.\<close>

record peer =
  phase_of :: phase
  typed :: string
  told :: "string list"
  heard :: "string list"

text \<open>\<open>wire x\<close> are the bytes on their way to side \<open>x\<close>.\<close>

record chat =
  peers :: "side \<Rightarrow> peer"
  wire :: "side \<Rightarrow> string"

fun leave :: "side \<Rightarrow> phase" where
  "leave Server = Asking"
| "leave Client = Stopped"

definition connected :: "peer \<Rightarrow> bool" where
  "connected p \<longleftrightarrow> phase_of p = Telling \<or> phase_of p = Hearing"

definition set_peer :: "side \<Rightarrow> peer \<Rightarrow> chat \<Rightarrow> chat" where
  "set_peer x p s = s\<lparr>peers := (peers s)(x := p)\<rparr>"

definition set_wire :: "side \<Rightarrow> string \<Rightarrow> chat \<Rightarrow> chat" where
  "set_wire x w s = s\<lparr>wire := (wire s)(x := w)\<rparr>"

text \<open>
  The result of \<open>send\<close> and \<open>recv\<close> is kept in a \<open>socklen_t\<close>, which is unsigned, so that an error counts as success:
  \<open>ok\<close> is whether \<open>send\<close> succeeds.
\<close>

definition talk :: "side \<Rightarrow> bool \<Rightarrow> chat \<Rightarrow> chat option" where
  "talk x ok s = (let p = peers s x in
     if phase_of p \<noteq> Telling then None
     else case compose (typed p) of
       (Leave, rest) \<Rightarrow> Some (set_peer x (p\<lparr>phase_of := leave x, typed := rest\<rparr>) s)
     | (Again, rest) \<Rightarrow> Some (set_peer x (p\<lparr>typed := rest\<rparr>) s)
     | (Tell m, rest) \<Rightarrow>
         if ok then Some (set_wire (other x) (wire s (other x) @ m) (set_peer x (p\<lparr>phase_of := Hearing, typed := rest, told := told p @ [m]\<rparr>) s))
         else Some (set_peer x (p\<lparr>phase_of := Hearing, typed := rest\<rparr>) s))"

text \<open>\<open>recv\<close> delivers \<open>n\<close> bytes into the cleared buffer.\<close>

definition hear :: "side \<Rightarrow> nat \<Rightarrow> chat \<Rightarrow> chat option" where
  "hear x n s = (let p = peers s x; bytes = take n (wire s x) in
     if phase_of p \<noteq> Hearing \<or> n = 0 \<or> BUFLEN < n \<or> length (wire s x) < n then None
     else Some (set_wire x (drop n (wire s x))
       (set_peer x (if n = BUFLEN \<and> CHR 0x00 \<notin> set bytes then p\<lparr>phase_of := Overrun\<rparr>
                    else p\<lparr>phase_of := Telling, heard := heard p @ [cstring bytes]\<rparr>) s)))"

definition hear_end :: "side \<Rightarrow> chat \<Rightarrow> chat option" where
  "hear_end x s = (let p = peers s x in
     if phase_of p = Hearing \<and> wire s x = [] \<and> \<not> connected (peers s (other x))
     then Some (set_peer x (p\<lparr>phase_of := leave x\<rparr>) s) else None)"

definition hear_error :: "side \<Rightarrow> chat \<Rightarrow> chat option" where
  "hear_error x s = (let p = peers s x in
     if phase_of p = Hearing then Some (set_peer x (p\<lparr>phase_of := Telling, heard := heard p @ [[]]\<rparr>) s) else None)"

text \<open>The question after a conversation, and the next client with what its user will type.\<close>

definition ask_exit :: "chat \<Rightarrow> chat option" where
  "ask_exit s = (let p = peers s Server in
     if phase_of p \<noteq> Asking then None
     else case read_line (typed p) of (buf, rest) \<Rightarrow>
       Some (set_peer Server (p\<lparr>phase_of := if starts_ci ''y'' buf then Stopped else Accepting, typed := rest\<rparr>) s))"

definition accept :: "string \<Rightarrow> chat \<Rightarrow> chat option" where
  "accept inp s = (let p = peers s Server in
     if phase_of p = Accepting \<and> phase_of (peers s Client) = Stopped
     then Some \<lparr>peers = (peers s)(Server := p\<lparr>phase_of := Telling, told := [], heard := []\<rparr>,
                  Client := \<lparr>phase_of = Hearing, typed = inp, told = [], heard = []\<rparr>), wire = (\<lambda>_. [])\<rparr>
     else None)"

datatype chat_label = Talk side bool | Hear side nat | Hear_End side | Hear_Error side | Ask | Accept string

fun chat_act :: "chat_label \<Rightarrow> chat \<Rightarrow> chat option" where
  "chat_act (Talk x ok) s = talk x ok s"
| "chat_act (Hear x n) s = hear x n s"
| "chat_act (Hear_End x) s = hear_end x s"
| "chat_act (Hear_Error x) s = hear_error x s"
| "chat_act Ask s = ask_exit s"
| "chat_act (Accept inp) s = accept inp s"

definition chat_init :: "string \<Rightarrow> chat" where
  "chat_init inp = \<lparr>peers = (\<lambda>x. case x of
       Server \<Rightarrow> \<lparr>phase_of = Accepting, typed = inp, told = [], heard = []\<rparr>
     | Client \<Rightarrow> \<lparr>phase_of = Stopped, typed = [], told = [], heard = []\<rparr>), wire = (\<lambda>_. [])\<rparr>"

text \<open>A network without errors in which \<open>recv\<close> takes all the bytes that were sent.\<close>

fun reliable :: "chat_label \<Rightarrow> chat \<Rightarrow> bool" where
  "reliable (Talk x ok) s \<longleftrightarrow> ok"
| "reliable (Hear x n) s \<longleftrightarrow> n = length (wire s x)"
| "reliable (Hear_Error x) s \<longleftrightarrow> False"
| "reliable _ s \<longleftrightarrow> True"

definition reliable_act :: "chat_label \<Rightarrow> chat \<Rightarrow> chat option" where
  "reliable_act l s = (if reliable l s then chat_act l s else None)"

section \<open>Conversations on a reliable network\<close>

definition msg_ok :: "string \<Rightarrow> bool" where
  "msg_ok m \<longleftrightarrow> m \<noteq> [] \<and> length m < BUFLEN \<and> CHR 0x00 \<notin> set m"

definition in_flight :: "string \<Rightarrow> string list" where
  "in_flight w = (if w = [] then [] else [w])"

definition turns_ok :: "phase \<Rightarrow> phase \<Rightarrow> string \<Rightarrow> string \<Rightarrow> bool" where
  "turns_ok ps pc ws wc \<longleftrightarrow>
     (ps = Hearing \<and> pc = Hearing \<and> (ws = [] \<and> msg_ok wc \<or> wc = [] \<and> msg_ok ws))
     \<or> ws = [] \<and> wc = [] \<and> (ps, pc) \<in> {(Telling, Hearing), (Hearing, Telling), (Hearing, Stopped)} \<union> {Asking, Accepting, Stopped} \<times> {Hearing, Stopped}"

definition chat_ok :: "chat \<Rightarrow> bool" where
  "chat_ok s \<longleftrightarrow> turns_ok (phase_of (peers s Server)) (phase_of (peers s Client)) (wire s Server) (wire s Client)
     \<and> told (peers s Server) = heard (peers s Client) @ in_flight (wire s Client)
     \<and> told (peers s Client) = heard (peers s Server) @ in_flight (wire s Server)"

lemma compose_msg_ok:
  assumes "compose inp = (Tell m, rest)"
  shows "msg_ok m"
proof -
  obtain buf r where buf: "read_line inp = (buf, r)" by (cases "read_line inp")
  have len: "length buf < BUFLEN"
  proof (cases "fgets (int BUFLEN) inp")
    case None
    then show ?thesis using buf by (simp add: read_line_def BUFLEN_def del: fgets.simps)
  next
    case (Some cs)
    then obtain chunk st where cs: "fgets (int BUFLEN) inp = Some (chunk, st)" by (cases cs) auto
    have "int (length chunk) \<le> int BUFLEN - 1" by (rule fgets_facts(3) [OF cs]) (simp add: BUFLEN_def)
    moreover have "buf = cstring chunk" using buf cs by (simp add: read_line_def del: fgets.simps)
    ultimately show ?thesis using length_takeWhile_le [of "\<lambda>c. c \<noteq> CHR 0x00" chunk] by (simp add: cstring_def)
  qed
  have nul: "CHR 0x00 \<notin> set buf"
    using buf by (auto simp: read_line_def cstring_def split: option.splits prod.splits dest: set_takeWhileD simp del: fgets.simps)
  have "m \<noteq> [] \<and> (m = buf \<or> m = butlast buf)" using assms buf by (auto simp: compose_def Let_def split: if_splits)
  then show ?thesis using len nul by (auto simp: msg_ok_def dest: in_set_butlastD)
qed


text \<open>Steps that only change the phase of a side and what is left to type.\<close>

lemma turns_ok_leave:
  "turns_ok Asking pc ws wc \<Longrightarrow> ps \<in> {Asking, Accepting, Stopped} \<Longrightarrow> turns_ok ps pc ws wc"
  "turns_ok Hearing pc ws wc \<Longrightarrow> ws = [] \<Longrightarrow> pc \<noteq> Telling \<Longrightarrow> pc \<noteq> Hearing \<Longrightarrow> turns_ok Asking pc ws wc"
  "turns_ok ps Hearing ws wc \<Longrightarrow> wc = [] \<Longrightarrow> ps \<noteq> Telling \<Longrightarrow> ps \<noteq> Hearing \<Longrightarrow> turns_ok ps Stopped ws wc"
  by (auto simp: turns_ok_def)

lemma turns_ok_telling:
  "turns_ok Telling pc ws wc \<longleftrightarrow> pc = Hearing \<and> ws = [] \<and> wc = []"
  "turns_ok ps Telling ws wc \<longleftrightarrow> ps = Hearing \<and> ws = [] \<and> wc = []"
  by (auto simp: turns_ok_def)

lemma turns_ok_hearing:
  "turns_ok Hearing pc (c # w) wc \<longleftrightarrow> pc = Hearing \<and> wc = [] \<and> msg_ok (c # w)"
  "turns_ok ps Hearing ws (c # w) \<longleftrightarrow> ps = Hearing \<and> ws = [] \<and> msg_ok (c # w)"
  by (auto simp: turns_ok_def msg_ok_def)

lemma chat_ok_phase:
  assumes "chat_ok s"
  shows "turns_ok ph (phase_of (peers s Client)) (wire s Server) (wire s Client) \<Longrightarrow> chat_ok (set_peer Server ((peers s Server)\<lparr>phase_of := ph, typed := t\<rparr>) s)"
    and "turns_ok (phase_of (peers s Server)) ph (wire s Server) (wire s Client) \<Longrightarrow> chat_ok (set_peer Client ((peers s Client)\<lparr>phase_of := ph, typed := t\<rparr>) s)"
  using assms by (simp_all add: chat_ok_def set_peer_def)

lemma talk_ok:
  assumes "chat_ok s" "talk x True s = Some s'"
  shows "chat_ok s'"
proof -
  have ph: "phase_of (peers s x) = Telling" using assms(2) by (auto simp: talk_def Let_def split: if_splits)
  have oth: "phase_of (peers s (other x)) = Hearing" "wire s y = []" for y
    using assms(1) ph by (cases x; cases y; simp add: chat_ok_def turns_ok_telling)+
  obtain c rest where c: "compose (typed (peers s x)) = (c, rest)" by (cases "compose (typed (peers s x))")
  show ?thesis
  proof (cases c)
    case (Tell m)
    have m: "msg_ok m" using c Tell by (intro compose_msg_ok) simp
    then obtain a w where aw: "m = a # w" by (cases m) (auto simp: msg_ok_def)
    have "s' = set_wire (other x) m (set_peer x ((peers s x)\<lparr>phase_of := Hearing, typed := rest, told := told (peers s x) @ [m]\<rparr>) s)"
      using assms(2) c ph oth(2) Tell by (auto simp: talk_def Let_def)
    then show ?thesis using assms(1) oth m
      by (cases x) (simp_all add: aw chat_ok_def set_peer_def set_wire_def in_flight_def turns_ok_hearing)
  next
    case Leave
    then have "s' = set_peer x ((peers s x)\<lparr>phase_of := leave x, typed := rest\<rparr>) s" using assms(2) c ph by (simp add: talk_def)
    then show ?thesis using chat_ok_phase [OF assms(1)] oth by (cases x) (simp_all add: turns_ok_def)
  next
    case Again
    have e: "(peers s x)\<lparr>typed := rest\<rparr> = (peers s x)\<lparr>phase_of := Telling, typed := rest\<rparr>" using ph by (cases "peers s x") simp
    have s': "s' = set_peer x ((peers s x)\<lparr>typed := rest\<rparr>) s" using assms(2) c ph Again by (auto simp: talk_def Let_def)
    show ?thesis unfolding s' e using chat_ok_phase [OF assms(1), of Telling rest] oth by (cases x) (simp_all add: turns_ok_def)
  qed
qed

lemma hear_ok:
  assumes "chat_ok s" "hear x (length (wire s x)) s = Some s'"
  shows "chat_ok s'"
proof -
  have ph: "phase_of (peers s x) = Hearing" "wire s x \<noteq> []" using assms(2) by (auto simp: hear_def Let_def split: if_splits)
  then obtain c w where w: "wire s x = c # w" by (cases "wire s x") auto
  have oth: "phase_of (peers s (other x)) = Hearing" "wire s (other x) = []" "msg_ok (wire s x)"
    using assms(1) ph w by (cases x; simp add: chat_ok_def turns_ok_hearing)+
  then have "cstring (wire s x) = wire s x" "length (wire s x) \<noteq> BUFLEN" by (auto simp: msg_ok_def cstring_def takeWhile_eq_all_conv)
  then have s': "s' = set_wire x [] (set_peer x ((peers s x)\<lparr>phase_of := Telling, heard := heard (peers s x) @ [wire s x]\<rparr>) s)"
    using assms(2) by (auto simp: hear_def Let_def split: if_splits)
  show ?thesis using assms(1) ph oth w by (cases x) (simp_all add: s' chat_ok_def set_peer_def set_wire_def in_flight_def turns_ok_telling)
qed

lemma hear_end_ok:
  assumes "chat_ok s" "hear_end x s = Some s'"
  shows "chat_ok s'"
proof -
  have h: "phase_of (peers s x) = Hearing" "wire s x = []" "\<not> connected (peers s (other x))"
    "s' = set_peer x ((peers s x)\<lparr>phase_of := leave x, typed := typed (peers s x)\<rparr>) s"
    using assms(2) by (auto simp: hear_end_def Let_def split: if_splits)
  have "turns_ok (phase_of (peers s Server)) (phase_of (peers s Client)) (wire s Server) (wire s Client)" using assms(1) by (simp add: chat_ok_def)
  then show ?thesis using h chat_ok_phase(1) [OF assms(1), of Asking "typed (peers s Server)"] chat_ok_phase(2) [OF assms(1), of Stopped "typed (peers s Client)"]
    by (cases x) (simp_all add: connected_def turns_ok_leave(2,3))
qed

lemma ask_exit_ok:
  assumes "chat_ok s" "ask_exit s = Some s'"
  shows "chat_ok s'"
proof -
  obtain ph t where ask: "phase_of (peers s Server) = Asking" "ph \<in> {Asking, Accepting, Stopped}" "s' = set_peer Server ((peers s Server)\<lparr>phase_of := ph, typed := t\<rparr>) s"
    using assms(2) by (auto simp: ask_exit_def Let_def split: if_splits prod.splits)
  then show ?thesis using chat_ok_phase(1) [OF assms(1)] assms(1) turns_ok_leave(1) by (simp add: chat_ok_def)
qed

lemma accept_ok:
  assumes "accept inp s = Some s'"
  shows "chat_ok s'"
proof -
  obtain p where "s' = \<lparr>peers = (peers s)(Server := p\<lparr>phase_of := Telling, told := [], heard := []\<rparr>,
      Client := \<lparr>phase_of = Hearing, typed = inp, told = [], heard = []\<rparr>), wire = (\<lambda>_. [])\<rparr>"
    using assms by (auto simp: accept_def Let_def split: if_splits)
  then show ?thesis by (simp add: chat_ok_def turns_ok_def in_flight_def)
qed

lemma reliable_act_ok: "chat_ok s \<Longrightarrow> reliable_act l s = Some s' \<Longrightarrow> chat_ok s'"
  by (cases l) (auto simp: reliable_act_def split: if_splits intro: talk_ok hear_ok hear_end_ok ask_exit_ok accept_ok)

lemma chat_init_ok: "chat_ok (chat_init inp)"
  by (simp add: chat_ok_def chat_init_def turns_ok_def in_flight_def)

interpretation conversation: step_invariant reliable_act "chat_init inp" chat_ok for inp
  by unfold_locales (auto intro: chat_init_ok reliable_act_ok)

lemma talk_enabled: "phase_of (peers s x) = Telling \<Longrightarrow> \<exists>s'. talk x True s = Some s'"
  by (auto simp: talk_def Let_def split: prod.splits composed.splits)

lemma hear_enabled: "phase_of (peers s x) = Hearing \<Longrightarrow> msg_ok (wire s x) \<Longrightarrow> \<exists>s'. hear x (length (wire s x)) s = Some s'"
  by (auto simp: hear_def Let_def msg_ok_def)

lemma reliable_progress:
  assumes "chat_ok s" "\<not> (phase_of (peers s Server) = Stopped \<and> phase_of (peers s Client) = Stopped)"
  shows "\<exists>l s'. reliable_act l s = Some s'"
proof -
  have en: "\<exists>l s'. reliable_act l s = Some s'" if "chat_act l s = Some s'" "reliable l s" for l s'
    using that by (auto simp: reliable_act_def)
  consider x where "phase_of (peers s x) = Telling" | x where "phase_of (peers s x) = Hearing" "msg_ok (wire s x)"
    | x where "phase_of (peers s x) = Hearing" "wire s x = []" "\<not> connected (peers s (other x))"
    | "phase_of (peers s Server) = Asking" | "phase_of (peers s Server) = Accepting" "phase_of (peers s Client) = Stopped"
    using assms by (auto simp: chat_ok_def turns_ok_def connected_def)
  then show ?thesis
  proof cases
    case (1 x)
    then show ?thesis using talk_enabled [OF 1] en [of "Talk x True"] by auto
  next
    case (2 x)
    then show ?thesis using hear_enabled [OF 2] en [of "Hear x (length (wire s x))"] by auto
  next
    case (3 x)
    then show ?thesis using en [of "Hear_End x"] by (auto simp: hear_end_def Let_def)
  next
    case 4
    then show ?thesis using en [of Ask] by (cases "read_line (typed (peers s Server))") (simp add: ask_exit_def)
  next
    case 5
    then show ?thesis using en [of "Accept []"] by (auto simp: accept_def Let_def)
  qed
qed


text \<open>
  C38: on a network that delivers every message whole and without error the two programs hold their
  conversation. However many clients come and whatever is typed, neither side ever prints an unterminated
  buffer; each side has printed exactly the messages the other one has sent, in order, except for at most one
  that is on its way; and some step is always possible until both programs have stopped.
\<close>

theorem chat_reliable:
  assumes "reach reliable_act (chat_init inp) s"
  shows "phase_of (peers s x) \<noteq> Overrun \<and> told (peers s x) = heard (peers s (other x)) @ in_flight (wire s (other x))
    \<and> length (wire s x) < BUFLEN
    \<and> ((phase_of (peers s Server) = Stopped \<and> phase_of (peers s Client) = Stopped) \<or> (\<exists>l s'. reliable_act l s = Some s'))"
proof -
  have ok: "chat_ok s" using assms by (rule conversation.reach_inv)
  have "phase_of (peers s x) \<noteq> Overrun" "length (wire s x) < BUFLEN"
    using ok by (cases x; auto simp: chat_ok_def turns_ok_def msg_ok_def BUFLEN_def)+
  moreover have "told (peers s x) = heard (peers s (other x)) @ in_flight (wire s (other x))" using ok by (cases x) (auto simp: chat_ok_def)
  ultimately show ?thesis using reliable_progress [OF ok] by blast
qed

text \<open>A conversation: the client gets a line, answers, and the server leaves and stops.\<close>

definition short_talk :: "chat_label list" where
  "short_talk = [Accept (''yes'' @ [CHR 0x0A]), Talk Server True, Hear Client 2, Talk Client True, Hear Server 3, Talk Server True, Hear_End Client, Ask]"

lemma short_talk_compose:
  "compose (''hi'' @ [CHR 0x0A] @ ''QUIT'' @ [CHR 0x0A] @ ''y'') = (Tell ''hi'', ''QUIT'' @ [CHR 0x0A] @ ''y'')"
  "compose (''QUIT'' @ [CHR 0x0A] @ ''y'') = (Leave, ''y'')"
  "compose (''yes'' @ [CHR 0x0A]) = (Tell ''yes'', [])"
  "read_line ''y'' = (''y'', [])" "starts_ci ''y'' ''y''"
  by code_simp+

lemma short_talk_run:
  "\<exists>s. run_labels reliable_act short_talk (chat_init (''hi'' @ [CHR 0x0A] @ ''QUIT'' @ [CHR 0x0A] @ ''y'')) = Some s
    \<and> heard (peers s Server) = [''yes''] \<and> phase_of (peers s Server) = Stopped"
  using short_talk_compose
  by (simp add: short_talk_def reliable_act_def chat_init_def accept_def talk_def hear_def hear_end_def ask_exit_def set_peer_def set_wire_def
      BUFLEN_def cstring_def connected_def Let_def)

theorem chat_reliable_witness:
  "\<exists>s. run_labels reliable_act short_talk (chat_init (''hi'' @ [CHR 0x0A] @ ''QUIT'' @ [CHR 0x0A] @ ''y'')) = Some s \<and> told (peers s Client) = [''yes''] @ in_flight (wire s Server)"
proof -
  obtain s where s: "run_labels reliable_act short_talk (chat_init (''hi'' @ [CHR 0x0A] @ ''QUIT'' @ [CHR 0x0A] @ ''y'')) = Some s" "heard (peers s Server) = [''yes'']"
    using short_talk_run by blast
  then have "reach reliable_act (chat_init (''hi'' @ [CHR 0x0A] @ ''QUIT'' @ [CHR 0x0A] @ ''y'')) s" by (auto simp: reach_iff_run)
  then have "told (peers s Client) = [''yes''] @ in_flight (wire s Server)" using chat_reliable [of _ s Client] s(2) by simp
  then show ?thesis using s(1) by blast
qed

section \<open>Bytes that arrive in pieces\<close>

text \<open>The server sends 19 bytes twice; the client takes one of the first 19 before it answers.\<close>

definition split_talk :: "chat_label list" where
  "split_talk = [Accept (''ok'' @ [CHR 0x0A]), Talk Server True, Hear Client 1, Talk Client True, Hear Server 2, Talk Server True, Hear Client 20]"

lemma split_talk_compose:
  "compose (replicate 38 (CHR ''a'')) = (Tell (replicate 19 (CHR ''a'')), replicate 19 (CHR ''a''))"
  "compose (replicate 19 (CHR ''a'')) = (Tell (replicate 19 (CHR ''a'')), [])"
  "compose (''ok'' @ [CHR 0x0A]) = (Tell ''ok'', [])"
  by code_simp+

text \<open>
  when the network delivers a message in two pieces the programs lose step with each other: there is a run
  without any error in which the client receives 20 bytes into its buffer of 20 bytes and prints the buffer,
  which has no terminator.
\<close>

theorem chat_overrun: "\<exists>inp s. reach chat_act (chat_init inp) s \<and> phase_of (peers s Client) = Overrun"
proof -
  have "\<exists>s. run_labels chat_act split_talk (chat_init (replicate 38 (CHR ''a''))) = Some s \<and> phase_of (peers s Client) = Overrun"
    using split_talk_compose
    by (simp add: split_talk_def chat_init_def accept_def talk_def hear_def set_peer_def set_wire_def BUFLEN_def cstring_def Let_def)
  then show ?thesis by (auto simp: reach_iff_run)
qed

end
