(* ===== verification/Posix_Mq.thy ===== *)
theory Posix_Mq
  imports Step_System
begin

text \<open>
  The demonstration of POSIX message queues, \<open>20171107/mqueue_ipc.c\<close>: the main thread sends what is typed, two
  threads receive. The queue of the kernel is a list, ordered by falling priority and in order of arrival
  within a priority, as POSIX documents it. What is typed is a list of words, each with the number
  that follows it; when it is used up the main thread waits for more. The queue starts empty, as \<open>mq_open\<close>
  creates it when no queue of the name exists.
\<close>

section \<open>The queue\<close>

definition BUF_LEN :: nat where
  "BUF_LEN = 128"

definition mq_maxmsg :: nat where
  "mq_maxmsg = 3"

definition mq_msgsize :: nat where
  "mq_msgsize = 50"

definition MQ_PRIO_MAX :: int where
  "MQ_PRIO_MAX = 32768"

type_synonym mq_msg = "int \<times> string"

fun mq_insert :: "mq_msg \<Rightarrow> mq_msg list \<Rightarrow> mq_msg list" where
  "mq_insert m [] = [m]"
| "mq_insert m (x # q) = (if fst m \<le> fst x then x # mq_insert m q else m # x # q)"

text \<open>What \<open>mq_send\<close> does: it refuses with an error, it blocks, or it accepts the message.\<close>

datatype mq_outcome = Refused | Blocks | Accepted "mq_msg list"

definition mq_send :: "mq_msg list \<Rightarrow> string \<Rightarrow> int \<Rightarrow> mq_outcome" where
  "mq_send q m p =
     (if mq_msgsize < length m \<or> p < 0 \<or> MQ_PRIO_MAX \<le> p then Refused
      else if mq_maxmsg \<le> length q then Blocks
      else Accepted (mq_insert (p, m) q))"

section \<open>The threads\<close>

text \<open>
  \<open>Quitting\<close> is the main thread between the loop and the end of the process. In \<open>Overflow\<close> \<open>scanf\<close> has written beyond the buffer of the main thread. The lists of what was accepted, refused
  and received, and the number of errors reported, record the run.
\<close>

datatype mq_phase = Running | Quitting | Ended | Overflow

record mq_state =
  mq_queue :: "mq_msg list"
  mq_typed :: "(string \<times> int) list"
  mq_phase_of :: mq_phase
  mq_ret :: int
  mq_accepted :: "mq_msg list"
  mq_refused :: "mq_msg list"
  mq_received :: "(nat \<times> mq_msg) list"
  mq_errors :: nat

text \<open>
  One turn of the loop of \<open>main\<close>, or its end: \<open>mq_close\<close>, \<open>mq_unlink\<close> and the return, which ends the process. The result of \<open>mq_send\<close> is compared with \<open>ret\<close>, not assigned to it, so that the
  test behind it sees the value \<open>ret\<close> was initialised with.
\<close>

definition mq_main :: "mq_state \<Rightarrow> mq_state option" where
  "mq_main s = (if mq_phase_of s = Quitting then Some (s\<lparr>mq_phase_of := Ended\<rparr>)
     else if mq_phase_of s \<noteq> Running then None
     else case mq_typed s of
       [] \<Rightarrow> None
     | (buf, por) # rest \<Rightarrow>
         if BUF_LEN \<le> length buf then Some (s\<lparr>mq_phase_of := Overflow\<rparr>)
         else let m = buf @ [CHR 0x00];
                  s' = s\<lparr>mq_typed := rest, mq_phase_of := if buf = ''quit'' then Quitting else Running,
                         mq_errors := mq_errors s + (if mq_ret s \<noteq> 0 then 1 else 0)\<rparr>
              in case mq_send (mq_queue s) m por of
                   Refused \<Rightarrow> Some (s'\<lparr>mq_refused := mq_refused s @ [(por, m)]\<rparr>)
                 | Blocks \<Rightarrow> None
                 | Accepted q \<Rightarrow> Some (s'\<lparr>mq_queue := q, mq_accepted := mq_accepted s @ [(por, m)]\<rparr>))"

text \<open>One turn of the loop of \<open>thr_fun1\<close> or \<open>thr_fun2\<close>: \<open>mq_receive\<close> takes the first message or blocks.\<close>

definition thr_fun :: "nat \<Rightarrow> mq_state \<Rightarrow> mq_state option" where
  "thr_fun k s = (if mq_phase_of s \<notin> {Running, Quitting} \<or> k \<notin> {1, 2} then None
     else case mq_queue s of
       [] \<Rightarrow> None
     | m # q \<Rightarrow> Some (s\<lparr>mq_queue := q, mq_received := mq_received s @ [(k, m)]\<rparr>))"

datatype mq_label = Main | Thread nat

fun mq_act :: "mq_label \<Rightarrow> mq_state \<Rightarrow> mq_state option" where
  "mq_act Main s = mq_main s"
| "mq_act (Thread k) s = thr_fun k s"

definition mq_init :: "(string \<times> int) list \<Rightarrow> mq_state" where
  "mq_init inp = \<lparr>mq_queue = [], mq_typed = inp, mq_phase_of = Running, mq_ret = 0, mq_accepted = [], mq_refused = [],
     mq_received = [], mq_errors = 0\<rparr>"

section \<open>Order and loss\<close>

definition with_prio :: "int \<Rightarrow> mq_msg list \<Rightarrow> string list" where
  "with_prio p ms = map snd (filter (\<lambda>m. fst m = p) ms)"

lemma with_prio_simps [simp]:
  "with_prio p [] = []"
  "with_prio p (m # ms) = (if fst m = p then snd m # with_prio p ms else with_prio p ms)"
  "with_prio p (ms @ ms') = with_prio p ms @ with_prio p ms'"
  by (auto simp: with_prio_def)

abbreviation by_prio :: "mq_msg list \<Rightarrow> bool" where
  "by_prio \<equiv> sorted_wrt (\<lambda>a b. fst b \<le> fst a)"

lemma set_mq_insert [simp]: "set (mq_insert m q) = insert m (set q)"
  by (induction q) auto

lemma length_mq_insert [simp]: "length (mq_insert m q) = Suc (length q)"
  by (induction q) auto

lemma mq_insert_sorted: "by_prio q \<Longrightarrow> by_prio (mq_insert m q)"
  by (induction q) auto

lemma mq_insert_fifo: "by_prio q \<Longrightarrow> with_prio p (mq_insert m q) = with_prio p q @ (if fst m = p then [snd m] else [])"
proof (induction q)
  case (Cons x q)
  have "with_prio (fst m) q = []" if "fst x < fst m" using Cons.prems that by (auto simp: with_prio_def filter_empty_conv)
  then show ?case using Cons by auto
qed simp

text \<open>The messages that \<open>mq_send\<close> can accept.\<close>

definition sendable :: "mq_msg \<Rightarrow> bool" where
  "sendable m \<longleftrightarrow> length (snd m) \<le> mq_msgsize \<and> 0 \<le> fst m \<and> fst m < MQ_PRIO_MAX"

definition typed_msg :: "string \<times> int \<Rightarrow> mq_msg" where
  "typed_msg x = (snd x, fst x @ [CHR 0x00])"

definition mq_inv :: "(string \<times> int) list \<Rightarrow> mq_state \<Rightarrow> bool" where
  "mq_inv inp s \<longleftrightarrow> by_prio (mq_queue s) \<and> length (mq_queue s) \<le> mq_maxmsg \<and> mq_ret s = 0 \<and> mq_errors s = 0
     \<and> (\<forall>p. with_prio p (mq_accepted s) = with_prio p (map snd (mq_received s)) @ with_prio p (mq_queue s))
     \<and> (\<exists>read. inp = read @ mq_typed s \<and> mq_accepted s = filter sendable (map typed_msg read)
          \<and> mq_refused s = filter (\<lambda>m. \<not> sendable m) (map typed_msg read))"

lemma mq_send_cases:
  "mq_send q m p = Refused \<Longrightarrow> \<not> sendable (p, m)"
  "mq_send q m p = Accepted q' \<Longrightarrow> sendable (p, m) \<and> q' = mq_insert (p, m) q \<and> length q < mq_maxmsg"
  by (auto simp: mq_send_def sendable_def split: if_splits)

lemma mq_inv_main:
  assumes "mq_inv inp s" "mq_main s = Some s'"
  shows "mq_inv inp s'"
proof (cases "mq_phase_of s = Quitting")
  case True
  then have "s' = s\<lparr>mq_phase_of := Ended\<rparr>" using assms(2) by (simp add: mq_main_def)
  then show ?thesis using assms(1) by (simp add: mq_inv_def)
next
  case run: False
  obtain buf por rest where t: "mq_typed s = (buf, por) # rest" "mq_phase_of s = Running"
    using assms(2) run by (auto simp: mq_main_def split: if_splits list.splits)
  show ?thesis
  proof (cases "BUF_LEN \<le> length buf")
    case True
    then have "s' = s\<lparr>mq_phase_of := Overflow\<rparr>" using assms(2) t by (simp add: mq_main_def)
    then show ?thesis using assms(1) by (simp add: mq_inv_def)
  next
    case False
    let ?m = "(por, buf @ [CHR 0x00])"
    obtain read where read: "inp = read @ (buf, por) # rest" "mq_accepted s = filter sendable (map typed_msg read)"
        "mq_refused s = filter (\<lambda>m. \<not> sendable m) (map typed_msg read)"
      using assms(1) t(1) by (auto simp: mq_inv_def)
    have ret: "mq_ret s = 0" using assms(1) by (simp add: mq_inv_def)
    have more: "inp = (read @ [(buf, por)]) @ rest" "map typed_msg (read @ [(buf, por)]) = map typed_msg read @ [?m]"
      using read(1) by (simp_all add: typed_msg_def)
    show ?thesis
    proof (cases "mq_send (mq_queue s) (buf @ [CHR 0x00]) por")
      case Refused
      have "\<exists>read'. inp = read' @ rest \<and> mq_accepted s = filter sendable (map typed_msg read') \<and> mq_refused s @ [?m] = filter (\<lambda>m. \<not> sendable m) (map typed_msg read')"
        using more read(2,3) mq_send_cases(1) [OF Refused] by (intro exI [of _ "read @ [(buf, por)]"]) simp
      moreover have "s' = s\<lparr>mq_typed := rest, mq_phase_of := if buf = ''quit'' then Quitting else Running, mq_errors := mq_errors s,
          mq_refused := mq_refused s @ [?m]\<rparr>"
        using assms(2) t False Refused ret by (auto simp: mq_main_def Let_def)
      ultimately show ?thesis using assms(1) by (simp add: mq_inv_def)
    next
      case (Accepted q)
      note acc = mq_send_cases(2) [OF Accepted]
      have "\<exists>read'. inp = read' @ rest \<and> mq_accepted s @ [?m] = filter sendable (map typed_msg read') \<and> mq_refused s = filter (\<lambda>m. \<not> sendable m) (map typed_msg read')"
        using more read(2,3) acc by (intro exI [of _ "read @ [(buf, por)]"]) simp
      moreover have "s' = s\<lparr>mq_typed := rest, mq_phase_of := if buf = ''quit'' then Quitting else Running, mq_errors := mq_errors s,
          mq_queue := mq_insert ?m (mq_queue s), mq_accepted := mq_accepted s @ [?m]\<rparr>"
        using assms(2) t False Accepted acc ret by (auto simp: mq_main_def Let_def)
      ultimately show ?thesis using assms(1) acc by (simp add: mq_inv_def mq_insert_sorted mq_insert_fifo)
    qed (use assms(2) t False in \<open>simp add: mq_main_def\<close>)
  qed
qed

lemma mq_inv_thread:
  assumes "mq_inv inp s" "thr_fun k s = Some s'"
  shows "mq_inv inp s'"
proof -
  obtain m q where "mq_queue s = m # q" "s' = s\<lparr>mq_queue := q, mq_received := mq_received s @ [(k, m)]\<rparr>"
    using assms(2) by (auto simp: thr_fun_def split: if_splits list.splits)
  then show ?thesis using assms(1) by (auto simp: mq_inv_def split: if_splits)
qed

interpretation mq: step_invariant mq_act "mq_init inp" "mq_inv inp" for inp
proof
  show "mq_inv inp (mq_init inp)" by (simp add: mq_inv_def mq_init_def mq_maxmsg_def)
  show "mq_inv inp s'" if "mq_inv inp s" "mq_act l s = Some s'" for s l s'
    using that by (cases l) (auto intro: mq_inv_main mq_inv_thread)
qed

text \<open>
  C39: in every reachable state the queue holds at most three messages in order of priority; for each priority the
  messages accepted are the ones received by the two threads, in the order of sending, followed by the
  ones queued; the messages accepted are, in order, those of the words read whose length fits the queue and
  whose priority is valid; and the others are lost without a report of an error, however many they are.
\<close>

theorem mq_delivery:
  assumes "reach mq_act (mq_init inp) s"
  shows "length (mq_queue s) \<le> 3 \<and> sorted_wrt (\<lambda>a b. fst b \<le> fst a) (mq_queue s)
    \<and> (\<forall>p. with_prio p (mq_accepted s) = with_prio p (map snd (mq_received s)) @ with_prio p (mq_queue s))
    \<and> (\<exists>read. inp = read @ mq_typed s \<and> mq_accepted s = filter sendable (map typed_msg read)
         \<and> mq_refused s = filter (\<lambda>m. \<not> sendable m) (map typed_msg read))
    \<and> mq_errors s = 0"
  using mq.reach_inv [OF assms] by (simp add: mq_inv_def mq_maxmsg_def)

text \<open>Two words, the second more urgent, and one that is too long for the queue.\<close>

definition typed_example :: "(string \<times> int) list" where
  "typed_example = [(''low'', 1), (''high'', 5), (replicate 50 (CHR ''x''), 2)]"

theorem mq_delivery_witness:
  "\<exists>s. run_labels mq_act [Main, Main, Main, Thread 2] (mq_init typed_example) = Some s
    \<and> mq_received s = [(2, 5, ''high'' @ [CHR 0x00])] \<and> length (mq_refused s) = 1 \<and> mq_errors s = 0"
proof -
  have "replicate 50 (CHR ''x'') \<noteq> ''quit''" by (simp add: numeral_eq_Suc)
  then obtain s where s: "run_labels mq_act [Main, Main, Main, Thread 2] (mq_init typed_example) = Some s"
      "mq_received s = [(2, 5, ''high'' @ [CHR 0x00])]" "length (mq_refused s) = 1"
    by (simp add: typed_example_def mq_init_def mq_main_def thr_fun_def mq_send_def BUF_LEN_def mq_msgsize_def MQ_PRIO_MAX_def mq_maxmsg_def Let_def)
  then have "reach mq_act (mq_init typed_example) s" unfolding reach_iff_run by blast
  then show ?thesis using s mq_delivery [of typed_example s] by blast
qed

text \<open>A word of 128 characters is written beyond the buffer.\<close>

lemma mq_scanf_overflow: "mq_main (mq_init [(replicate 128 c, p)]) = Some ((mq_init [(replicate 128 c, p)])\<lparr>mq_phase_of := Overflow\<rparr>)"
  by (simp add: mq_main_def mq_init_def BUF_LEN_def)

end
