(* ===== verification/Sem_Test.thy ===== *)
theory Sem_Test
  imports Step_System
begin

text \<open>
  The semaphore wrapper \<open>20180727sem-sig-test/sem.c\<close> (the variant without \<open>__APPLE__\<close>) and the test program \<open>main.c\<close>
  that uses it: one thread waits on a semaphore, the other one posts it.
\<close>

section \<open>Semaphores\<close>

text \<open>A semaphore in memory: allocated only, or initialised with a value.\<close>

datatype sem_t = Raw | Sem nat

record sem_sys =
  ss_sems :: "nat \<rightharpoonup> sem_t"
  ss_fresh :: nat
  ss_mem :: mem

record sem_node =
  sn_sem :: "nat option"
  sn_name :: string

definition SEM_VALUE_MAX :: nat where
  "SEM_VALUE_MAX = 2147483647"

definition NAME_LEN :: nat where
  "NAME_LEN = 32"

text \<open>\<open>sprintf (buf, "%u", n)\<close>.\<close>

definition digit_char :: "nat \<Rightarrow> char" where
  "digit_char d = char_of (48 + d)"

fun udec :: "nat \<Rightarrow> string" where
  "udec n = (if n < 10 then [digit_char n] else udec (n div 10) @ [digit_char (n mod 10)])"

declare udec.simps [simp del]

section \<open>The wrapper\<close>

text \<open>
  \<open>sem_node_init\<close>: the name is the next random number; the result of \<open>malloc\<close> is passed on without a check, and
  \<open>sem_init\<close> refuses a value above \<open>SEM_VALUE_MAX\<close>. The flag \<open>pshared\<close> has no effect inside one process.
\<close>

definition sem_node_init :: "nat \<Rightarrow> u32 \<Rightarrow> sem_sys \<Rightarrow> (int \<times> sem_node \<times> sem_sys) option" where
  "sem_node_init val rnd st =
     (let name = udec (unat rnd) in
      if NAME_LEN \<le> length name then None
      else case malloc_ok (ss_mem st) of (ok, m) \<Rightarrow>
        if \<not> ok then None
        else let a = ss_fresh st; fits = val \<le> SEM_VALUE_MAX in
          Some (if fits then 0 else -1, \<lparr>sn_sem = Some a, sn_name = name\<rparr>,
            st\<lparr>ss_sems := (ss_sems st)(a \<mapsto> if fits then Sem val else Raw), ss_fresh := a + 1, ss_mem := m\<rparr>))"

definition sem_node_destroy :: "sem_node \<Rightarrow> sem_sys \<Rightarrow> (int \<times> sem_node \<times> sem_sys) option" where
  "sem_node_destroy node st = do {
     a \<leftarrow> sn_sem node;
     v \<leftarrow> ss_sems st a;
     (if v = Raw then None else Some (0, node\<lparr>sn_sem := None\<rparr>, st\<lparr>ss_sems := (ss_sems st)(a := None)\<rparr>))
   }"

text \<open>The value of an initialised semaphore; every other pointer is an error of the caller.\<close>

definition sem_value :: "sem_node \<Rightarrow> sem_sys \<Rightarrow> nat option" where
  "sem_value node st = do { a \<leftarrow> sn_sem node; v \<leftarrow> ss_sems st a; (case v of Raw \<Rightarrow> None | Sem n \<Rightarrow> Some n) }"

definition set_sem :: "sem_node \<Rightarrow> nat \<Rightarrow> sem_sys \<Rightarrow> sem_sys" where
  "set_sem node n st = (case sn_sem node of None \<Rightarrow> st | Some a \<Rightarrow> st\<lparr>ss_sems := (ss_sems st)(a \<mapsto> Sem n)\<rparr>)"

text \<open>
  \<open>sem_node_wait\<close> blocks at 0, unless a signal handler interrupts it: then \<open>sem_wait\<close> returns -1. \<open>sem_node_post\<close>
  fails at the largest value.
\<close>

datatype 'a waiting = Sem_Blocks | Sem_Done 'a

definition sem_node_wait :: "bool \<Rightarrow> sem_node \<Rightarrow> sem_sys \<Rightarrow> (int \<times> sem_sys) waiting option" where
  "sem_node_wait interrupted node st = do {
     n \<leftarrow> sem_value node st;
     Some (if 0 < n then Sem_Done (0, set_sem node (n - 1) st)
           else if interrupted then Sem_Done (-1, st)
           else Sem_Blocks)
   }"

definition sem_node_post :: "sem_node \<Rightarrow> sem_sys \<Rightarrow> (int \<times> sem_sys) option" where
  "sem_node_post node st = do {
     n \<leftarrow> sem_value node st;
     Some (if SEM_VALUE_MAX \<le> n then (-1, st) else (0, set_sem node (n + 1) st))
   }"

lemma sem_value_set [simp]: "sem_value node st = Some v \<Longrightarrow> sem_value node (set_sem node n st) = Some n"
  by (auto simp: sem_value_def set_sem_def split: bind_splits)

section \<open>The test program\<close>

text \<open>
  The static counters of the two threads, the number of waits that a signal interrupted, and \<open>sp_alive\<close> until the
  signal SIGTERM ends the process.
\<close>

record sem_prog =
  sp_node :: sem_node
  sp_sys :: sem_sys
  sp_index1 :: nat
  sp_index2 :: nat
  sp_broken :: nat
  sp_alive :: bool

definition sem_main :: "u32 \<Rightarrow> mem \<Rightarrow> sem_prog option" where
  "sem_main rnd m = do {
     (_, node, st) \<leftarrow> sem_node_init 0 rnd \<lparr>ss_sems = Map.empty, ss_fresh = 0, ss_mem = m\<rparr>;
     (_, st) \<leftarrow> sem_node_post node st;
     (_, st) \<leftarrow> sem_node_post node st;
     Some \<lparr>sp_node = node, sp_sys = st, sp_index1 = 0, sp_index2 = 0, sp_broken = 0, sp_alive = True\<rparr>
   }"

text \<open>The first thread does not look at the result of the wait.\<close>

definition sem_func_1 :: "bool \<Rightarrow> sem_prog \<Rightarrow> sem_prog option" where
  "sem_func_1 interrupted s = (case sem_node_wait interrupted (sp_node s) (sp_sys s) of
       Some (Sem_Done (r, st)) \<Rightarrow>
         Some (s\<lparr>sp_sys := st, sp_index1 := sp_index1 s + 1, sp_broken := sp_broken s + (if r = 0 then 0 else 1)\<rparr>)
     | _ \<Rightarrow> None)"

definition sem_func_2 :: "sem_prog \<Rightarrow> sem_prog option" where
  "sem_func_2 s = do { (_, st) \<leftarrow> sem_node_post (sp_node s) (sp_sys s); Some (s\<lparr>sp_sys := st, sp_index2 := sp_index2 s + 1\<rparr>) }"

text \<open>
  The handler of SIGINT only prints, in the thread that waits or in another one; the word kill makes the main
  thread send SIGTERM, whose handler exits.
\<close>

datatype sem_label = Func_1 bool | Func_2 | Sig_Int | Sig_Term

fun sem_act :: "sem_label \<Rightarrow> sem_prog \<Rightarrow> sem_prog option" where
  "sem_act (Func_1 interrupted) s = (if sp_alive s then sem_func_1 interrupted s else None)"
| "sem_act Func_2 s = (if sp_alive s then sem_func_2 s else None)"
| "sem_act Sig_Int s = (if sp_alive s then Some s else None)"
| "sem_act Sig_Term s = (if sp_alive s then Some (s\<lparr>sp_alive := False\<rparr>) else None)"

section \<open>Tokens\<close>

text \<open>The name of a semaphore fits into its array, whatever number it is made of.\<close>

lemma udec_length: "n < 10 ^ k \<Longrightarrow> 0 < k \<Longrightarrow> length (udec n) \<le> k"
proof (induction k arbitrary: n)
  case (Suc k)
  show ?case
  proof (cases "n < 10")
    case True
    then show ?thesis by (subst udec.simps) simp
  next
    case False
    then have "0 < k" using Suc.prems(1) by (cases k) auto
    moreover have "n div 10 < 10 ^ k" using Suc.prems(1) by (simp add: div_less_iff_less_mult mult.commute)
    ultimately have "length (udec (n div 10)) \<le> k" by (intro Suc.IH)
    then show ?thesis using False by (subst udec.simps) simp
  qed
qed simp

lemma name_fits: "length (udec (unat (rnd :: u32))) < NAME_LEN"
proof -
  have "unat rnd < 10 ^ 10" using unsigned_less [of rnd, where ?'a = nat] by simp
  then show ?thesis using udec_length [of "unat rnd" 10] by (simp add: NAME_LEN_def)
qed

definition sem_inv :: "sem_prog \<Rightarrow> bool" where
  "sem_inv s \<longleftrightarrow> sp_broken s \<le> sp_index1 s \<and> (\<exists>v. sem_value (sp_node s) (sp_sys s) = Some v \<and> v \<le> SEM_VALUE_MAX \<and> v + sp_index1 s \<le> sp_index2 s + sp_broken s + 2
     \<and> (sp_index2 s + 2 \<le> SEM_VALUE_MAX \<longrightarrow> v + sp_index1 s = sp_index2 s + sp_broken s + 2))"

lemma sem_main_ok:
  assumes "all_ok m"
  shows "\<exists>s. sem_main rnd m = Some s \<and> sem_inv s \<and> sp_index1 s = 0 \<and> sp_index2 s = 0 \<and> sp_broken s = 0 \<and> sp_alive s"
proof -
  obtain m' where "malloc_ok m = (True, m')" using malloc_all_ok [OF assms] by blast
  then show ?thesis using name_fits [of rnd]
    by (simp add: sem_main_def sem_node_init_def sem_node_post_def sem_value_def set_sem_def sem_inv_def SEM_VALUE_MAX_def Let_def)
qed

lemma sem_inv_act:
  assumes "sem_inv s" "sem_act l s = Some s'"
  shows "sem_inv s'"
proof -
  obtain v where v: "sem_value (sp_node s) (sp_sys s) = Some v" "v \<le> SEM_VALUE_MAX" "v + sp_index1 s \<le> sp_index2 s + sp_broken s + 2"
      "sp_index2 s + 2 \<le> SEM_VALUE_MAX \<longrightarrow> v + sp_index1 s = sp_index2 s + sp_broken s + 2"
    using assms(1) by (auto simp: sem_inv_def)
  have "sp_broken s \<le> sp_index1 s" using assms(1) by (simp add: sem_inv_def)
  then show ?thesis using assms(2) v
    by (cases l) (auto simp: sem_func_1_def sem_func_2_def sem_node_wait_def sem_node_post_def sem_inv_def split: if_splits)
qed

text \<open>The program as a system, started with a random number and enough memory.\<close>

definition sem_start :: "u32 \<Rightarrow> sem_prog" where
  "sem_start rnd = the (sem_main rnd [])"

interpretation sem: step_invariant sem_act "sem_start rnd" sem_inv for rnd
proof
  show "sem_inv (sem_start rnd)" using sem_main_ok [OF all_ok_Nil, of rnd] by (auto simp: sem_start_def)
  show "sem_inv s'" if "sem_inv s" "sem_act l s = Some s'" for s l s' using that by (rule sem_inv_act)
qed

text \<open>
  C40: whatever the interleaving of the two threads and of signals, the thread that waits has passed the
  semaphore at most as often as the other thread has posted it, plus the two posts of the main program, plus
  the number of waits that a signal interrupted, which the thread takes for success. As long as the posts do not
  exceed the largest value, what is missing is exactly the value of the semaphore. While the process lives the
  posting thread can always go on, and the waiting one without a signal exactly when the value is not 0.
\<close>

theorem sem_tokens:
  assumes "sem_main rnd [] = Some s0" "reach sem_act s0 s"
  shows "\<exists>v. sem_value (sp_node s) (sp_sys s) = Some v \<and> sp_index1 s + v \<le> sp_index2 s + sp_broken s + 2
    \<and> (sp_index2 s + 2 \<le> SEM_VALUE_MAX \<longrightarrow> sp_index1 s + v = sp_index2 s + sp_broken s + 2)
    \<and> (sp_alive s \<longrightarrow> sem_act Func_2 s \<noteq> None \<and> (sem_act (Func_1 False) s \<noteq> None \<longleftrightarrow> 0 < v))"
proof -
  have "sem_inv s" using sem.reach_inv [of rnd s] assms by (simp add: sem_start_def)
  then obtain v where v: "sem_value (sp_node s) (sp_sys s) = Some v" "v + sp_index1 s \<le> sp_index2 s + sp_broken s + 2"
      "sp_index2 s + 2 \<le> SEM_VALUE_MAX \<longrightarrow> v + sp_index1 s = sp_index2 s + sp_broken s + 2"
    by (auto simp: sem_inv_def)
  have "sem_act Func_2 s \<noteq> None" "sem_act (Func_1 False) s \<noteq> None \<longleftrightarrow> 0 < v" if "sp_alive s"
    using that v(1) by (auto simp: sem_func_1_def sem_func_2_def sem_node_wait_def sem_node_post_def)
  then show ?thesis using v by (auto simp: add.commute)
qed

theorem sem_tokens_witness:
  "\<exists>s0 s. sem_main 42 [] = Some s0 \<and> run_labels sem_act [Func_1 False, Func_2, Func_1 False, Sig_Int, Func_1 False, Func_1 True] s0 = Some s
    \<and> sem_value (sp_node s) (sp_sys s) = Some 0 \<and> sem_act (Func_1 False) s = None"
proof -
  obtain s0 where s0: "sem_main 42 [] = Some s0" using sem_main_ok [OF all_ok_Nil, of 42] by blast
  have "\<exists>s. run_labels sem_act [Func_1 False, Func_2, Func_1 False, Sig_Int, Func_1 False, Func_1 True] s0 = Some s \<and> sp_index1 s = 4 \<and> sp_index2 s = 1 \<and> sp_broken s = 1 \<and> sp_alive s"
    using s0 name_fits [of 42]
    by (auto simp: sem_main_def sem_node_init_def sem_node_post_def sem_node_wait_def sem_value_def set_sem_def sem_func_1_def sem_func_2_def SEM_VALUE_MAX_def Let_def)
  then obtain s where s: "run_labels sem_act [Func_1 False, Func_2, Func_1 False, Sig_Int, Func_1 False, Func_1 True] s0 = Some s" "sp_index1 s = 4" "sp_index2 s = 1" "sp_broken s = 1" "sp_alive s"
    by blast
  have "reach sem_act s0 s" unfolding reach_iff_run using s(1) by blast
  then obtain v where v: "sem_value (sp_node s) (sp_sys s) = Some v" "sp_index1 s + v = sp_index2 s + sp_broken s + 2" "sem_act (Func_1 False) s \<noteq> None \<longleftrightarrow> 0 < v"
    using sem_tokens [OF s0, of s] s(3,4,5) by (auto simp: SEM_VALUE_MAX_def)
  have "v = 0" using v(2) s(2,3,4) by simp
  then have "sem_value (sp_node s) (sp_sys s) = Some 0" "sem_act (Func_1 False) s = None" using v(1,3) by auto
  then show ?thesis using s0 s(1) by blast
qed

text \<open>Destroying a node twice passes NULL to \<open>sem_destroy\<close>: the test for NULL comes after the call.\<close>

lemma sem_destroy_twice: "sem_node_destroy node st = Some (r, node', st') \<Longrightarrow> sem_node_destroy node' st' = None"
  by (auto simp: sem_node_destroy_def split: bind_splits if_splits)

end
