(* ===== verification/Spec2Isabelle.thy ===== *)
theory Spec2Isabelle
  imports Ring_Buffer Imi_Db Thread_Pool Cjson_Minify Cjson_Typed Cjson_Links Dev_List Msg_Queue Counter_Race Ntp_Client Chat Posix_Mq Sem_Test
begin

text \<open>
  \<^bold>\<open>Verification of the C libraries of the repository.\<close>

  The repository is a collection of small projects. Its C libraries are modelled here; paths are relative to
  \<open>src/\<close>.

  \<^bold>\<open>Conventions.\<close> An operation is a function on an explicit state that returns an \<open>option\<close>. \<open>None\<close> means that
  the C program has no defined continuation: an access outside an array, through NULL, to freed or to
  uninitialised memory, a division by zero, an abort, or a loop that does not end. A theorem that an operation
  gives \<open>Some\<close> result therefore also states that it terminates and accesses no memory wrongly. Failing
  allocations are an argument, the list \<open>mem\<close> of the outcomes of the coming calls. Machine integers are words
  where the width matters; \<open>int\<close> otherwise. Heap data are partial maps from addresses to nodes. Loops that walk
  a heap are \<open>partial_function (option)\<close>, so that a walk on a cyclic structure is \<open>None\<close>. Concurrent programs are
  labelled steps, in which \<open>None\<close> means that the step is not possible. Only the recursive parsers of JSON carry fuel,
  the nesting limit of the code for the values and the length of the text for the loops, and the termination
  theorem of \<open>Cjson_Parse\<close> shows that it suffices.

  \<^bold>\<open>Shared theories.\<close>
  \<^item> \<open>C_Prelude\<close>: machine types, allocation, checked arrays, \<open>memcpy\<close>, C strings and the character functions.
  \<^item> \<open>Fifo_Interface\<close>: the locale of a bounded queue, with the refinement of any client run, its answers and its refusals, to a list. The ring
    buffer and the task queue of the thread pool are its instances.
  \<^item> \<open>Map_Interface\<close>: the locale of a store of key and value pairs, with the refinement of any session to a map.
    The dictionary and, up to letter case, the ini parser are its instances.
  \<^item> \<open>Linked_Heap\<close>: chains of nodes in a heap and the locale of nodes whose link can be rewritten; its instances
    are the timers, the JSON items, the device list and the message queue.

  \<^item> \<open>C_Stdio\<close>: streams and \<open>fgets\<close>, for the ini parser and the chat programs.
  \<^item> \<open>Step_System\<close>: reachable states of labelled steps, the locale of an invariant and its extension by a measure
    that bounds every run. The counting threads, the chat, the POSIX queue and the semaphore test are its
    instances.

  \<^bold>\<open>Byte ring buffer\<close>, \<open>20180720ringbuffer/ringbuffer.c\<close>: theory \<open>Ring_Buffer\<close>. The record has the mirror bits and
  15-bit indices of the C structure. Put, get and the single-character operations refine a bounded byte queue;
  the forced write does so unless it overruns a partly filled buffer, which leaves the buffer inconsistent.

  \<^bold>\<open>Settings of the camera\<close>, \<open>auto_imi_db_bin/src\<close>, four layers that call each other.
  \<^item> \<open>Dictionary\<close> (\<open>dictionary.c\<close>): parallel arrays of keys, values and hashes. Sessions without NULL values refine a finite map; they
    are memory safe whatever allocations fail; one failure is reported as success.
  \<^item> \<open>Ini_Parser\<close> and \<open>Ini_Load\<close> (\<open>iniparser.c\<close>): queries, writers, the classification of lines with \<open>sscanf\<close>, and the
    loader on the characters of a file. The loader terminates on every input inside its buffers, reads what
    the lines denote, and inverts the writer.
  \<^item> \<open>Imi_Timer\<close> (\<open>miio_timer.c\<close>): the list of event timers in a heap, with the answers of the POSIX timer calls
    as arguments. Creation and deletion act on exactly one node; deleting all timers reads freed memory.
  \<^item> \<open>Imi_Db\<close> (\<open>imi_db_mi.c\<close>): the four databases, their defaults, lookup, update, saving and factory data. An
    update changes exactly its key, read-only and unknown keys are refused, and saving and loading gives the
    entries back when the file does not shrink.

  \<^bold>\<open>Thread pool\<close>, \<open>20180731threadpoll-test/threadpoll.c\<close>: theory \<open>Thread_Pool\<close>. Each critical section is a function;
  \<open>pool_step\<close> interleaves clients, workers, manager and destroyer, with arbitrary wake-ups. Invariants by
  rule induction give the order of the tasks and the exact counters; creation and clean-up work on the objects of
  the pool, initialised or not; two runs show a task that is overwritten and
  a pool that is freed while it is in use.

  \<^bold>\<open>JSON library\<close>, \<open>20170801/cjson.c\<close>. Floating point numbers and \<open>strtod\<close>/\<open>sprintf\<close> on them are a parameter.
  \<^item> \<open>Cjson_Item\<close>: items as trees; constructors, access, comparison, duplication. Comparison decides equality of the
    denoted values.
  \<^item> \<open>Cjson_Print\<close>: the growing print buffer and the printers. They equal a reference rendering and stay inside
    the buffer.
  \<^item> \<open>Cjson_Parse\<close>: the parser with its error position. It terminates inside the text on every input.
  \<^item> \<open>Cjson_Roundtrip\<close>: parsing inverts both printers.
  \<^item> \<open>Cjson_Typed\<close>: every item the parser returns is well typed, and printing and parsing it again gives it back.
  \<^item> \<open>Cjson_Minify\<close>: minifying the formatted text gives the unformatted one.
  \<^item> \<open>Cjson_Links\<close>: items as nodes with \<open>next\<close>, \<open>prev\<close> and \<open>child\<close> pointers, and the functions that add, insert,
    detach, replace and delete them. The links stay consistent, detaching and inserting is the identity, and
    deletion releases exactly what a tree owns.

  \<^bold>\<open>Device list\<close>, \<open>20180208/list.c\<close>: theory \<open>Dev_List\<close>. Nodes and entries in a heap; every operation of the file.
  Sessions refine operations on a plain list, and the two iterators visit every entry.

  \<^bold>\<open>Message queue\<close>, \<open>20180320queue/src/queue.c\<close>: theory \<open>Msg_Queue\<close>. Elements whose memory starts uninitialised
  and blocks of exactly the size asked for. Pushes store messages in order up to the capacity; taking one out, or
  pushing into a full queue, reads beyond the stored text.

  \<^bold>\<open>Counting threads\<close>, \<open>20170822/main.c\<close>: theory \<open>Counter_Race\<close>. Two threads increment a variable without the lock;
  an invariant and explicit schedules give exactly the values it can have in the end, and a measure bounds the runs.

  \<^bold>\<open>Network time client\<close>, \<open>20181212ntp/ntp.c\<close>: theory \<open>Ntp_Client\<close>. Packets are bytes, times are words and a
  parameter for floating point. The request has the bytes of the protocol, and its seconds read back.

  \<^bold>\<open>Chat\<close>, \<open>20170815/server.c\<close> and \<open>client.c\<close>: theory \<open>Chat\<close>. The two programs after the connection, joined by two streams
  of bytes. When messages arrive whole the conversation is orderly and goes on to its end; when one arrives in
  pieces a side can print a buffer without terminator.

  \<^bold>\<open>POSIX message queue\<close>, \<open>20171107/mqueue_ipc.c\<close>: theory \<open>Posix_Mq\<close>. The sending loop and two receiving threads: order
  within a priority, capacity, and the messages that are lost silently.

  \<^bold>\<open>Semaphore test\<close>, \<open>20180727sem-sig-test\<close>: theory \<open>Sem_Test\<close>. The wrapper \<open>sem.c\<close> and the two threads and signal handlers of
  \<open>main.c\<close>; an invariant counts waits, posts and interrupted waits.

  \<^bold>\<open>Not modelled.\<close> The demonstration of System V queues, whose first \<open>msgsnd\<close> reads behind its structure; those of
  SQLite, which pass fixed statements to the library; the main programs that print the results of the
  libraries above; the set-up of the sockets; the Arduino sketches and the third-party C++ libraries copied
  beside them; scripts. Inside the modelled files: the text of log messages, and \<open>nvram_find_mtd\<close>, \<open>print_ntp\<close> and
  \<open>usage\<close>, which nothing calls.
\<close>

end
